(* ===== verification/Prelude.thy ===== *)
theory Prelude
  imports Main "HOL-Library.Word"
begin

text \<open>
  Shared vocabulary of the development: the byte strings that \<open>std::string\<close> and
  \<open>Slice\<close> hold, machine integers, generic lemmas on lists and words, and the
  interface locale of self-delimiting codecs (what the \<open>Put\<dots>\<close>/\<open>Get\<dots>\<close> pairs of
  \<open>util/coding\<close> promise to every component that stores data).
\<close>

unbundle bit_operations_syntax

section \<open>Types\<close>

type_synonym byte = "8 word"
type_synonym bytes = "byte list"
type_synonym u32 = "32 word"
type_synonym u64 = "64 word"

text \<open>A C string literal as the bytes it holds.\<close>

definition str :: "string \<Rightarrow> bytes" where
  "str s = map of_char s"

lemma length_str [simp]: "length (str s) = length s"
  by (simp add: str_def)

lemma str_Nil [simp]: "str [] = []"
  by (simp add: str_def)

lemma str_Cons: "str (c # s) = of_char c # str s"
  by (simp add: str_def)

named_theorems word_bits \<open>bitwise facts on words, for extensionality proofs\<close>
named_theorems roundtrip \<open>decoding an encoding gives back what was encoded\<close>

section \<open>Lists\<close>

lemma take_append_length [simp]: "length xs = n \<Longrightarrow> take n (xs @ ys) = xs"
  by simp

lemma drop_append_length [simp]: "length xs = n \<Longrightarrow> drop n (xs @ ys) = ys"
  by simp

lemma list_update_take_Suc:
  "i < length xs \<Longrightarrow> take (Suc i) (xs[i := x]) = take i xs @ [x]"
  by (simp add: take_Suc_conv_app_nth)

section \<open>Rounding up\<close>

lemma ceil_div:
  assumes "0 < (b :: nat)"
  shows "(n + b - 1) div b = (if n mod b = 0 then n div b else n div b + 1)"
proof (cases "n mod b = 0")
  case True
  then have "n + b - 1 = (b - 1) + (n div b) * b"
    using assms div_mult_mod_eq [of n b] by (simp add: algebra_simps)
  moreover have "((b - 1) + (n div b) * b) div b = n div b"
    using assms by (subst div_mult_self1) simp_all
  ultimately show ?thesis using True by presburger
next
  case False
  have "(n div b + 1) * b = n div b * b + b" by simp
  then have "n + b - 1 = n mod b - 1 + (n div b + 1) * b"
    using False div_mult_mod_eq [of n b] by linarith
  moreover have "(n mod b - 1 + (n div b + 1) * b) div b = n div b + 1"
    using assms by (subst div_mult_self1) (simp_all add: less_imp_diff_less)
  ultimately show ?thesis using False by presburger
qed

section \<open>Words\<close>

lemma bit_127 [word_bits, simp]: "bit (127 :: int) n \<longleftrightarrow> n < 7"
proof -
  have "(127 :: int) = mask 7" by (simp add: mask_eq_exp_minus_1)
  then show ?thesis by (simp only: bit_mask_iff possible_bit_int) simp
qed

lemma bit_128 [word_bits, simp]: "bit (128 :: int) n \<longleftrightarrow> n = 7"
proof -
  have "(128 :: int) = 2 ^ 7" by simp
  then show ?thesis by (simp only: bit_exp_iff possible_bit_int) auto
qed

lemma bit_255 [word_bits, simp]: "bit (255 :: int) n \<longleftrightarrow> n < 8"
proof -
  have "(255 :: int) = mask 8" by (simp add: mask_eq_exp_minus_1)
  then show ?thesis by (simp only: bit_mask_iff possible_bit_int) simp
qed

lemma bit_byte_less: "bit (b :: byte) n \<Longrightarrow> n < 8"
  using bit_imp_le_length [of b n] by simp

lemma unat_ucast_up: "LENGTH('a::len) \<le> LENGTH('b::len) \<Longrightarrow> unat (ucast (w :: 'a word) :: 'b word) = unat w"
  by transfer (simp add: min_def)

lemma unat_bound: "unat (w :: 'a::len word) < 2 ^ LENGTH('a)"
  by (rule unsigned_less)

lemma unat_drop_bit_7: "unat (drop_bit 7 (v :: 'a::len word)) = unat v div 128"
  unfolding unat_drop_bit_eq by (simp add: drop_bit_eq_div)

lemma test_bit_128: "(x AND 128 \<noteq> 0) = bit x 7" if "8 \<le> LENGTH('a)" for x :: "'a::len word"
proof -
  have "(x AND 128 \<noteq> 0) \<longleftrightarrow> (\<exists>n. bit (x AND 128) n)"
    using bit_eq_iff [of "x AND 128" 0] by auto
  with that show ?thesis by (auto simp: bit_and_iff)
qed

lemma small_nat_bit: "i < 2 ^ n \<Longrightarrow> bit (i :: nat) k \<Longrightarrow> k < n"
  by (metis bit_take_bit_iff take_bit_nat_eq_self)

lemma small_word_bit: "unat (v :: 'a::len word) < 2 ^ k \<Longrightarrow> bit v n \<Longrightarrow> n < k"
  by (rule small_nat_bit [of "unat v"]) (simp_all add: bit_unsigned_iff)

lemma unat_of_nat_u32: "n < 2 ^ 32 \<Longrightarrow> unat (of_nat n :: u32) = n"
  by (simp add: unat_of_nat take_bit_nat_eq_self)

section \<open>Self-delimiting codecs\<close>

text \<open>
  A codec writes a value as a byte string and reads it back from the front of an input,
  returning the unread rest; \<open>ok\<close> delimits the values the format can carry.
\<close>

locale codec =
  fixes enc :: "'a \<Rightarrow> bytes"
    and dec :: "bytes \<Rightarrow> ('a \<times> bytes) option"
    and ok :: "'a \<Rightarrow> bool"
  assumes dec_enc: "ok v \<Longrightarrow> dec (enc v @ rest) = Some (v, rest)"
begin

lemma dec_enc_exact: "ok v \<Longrightarrow> dec (enc v) = Some (v, [])"
  using dec_enc [of v "[]"] by simp

lemma enc_split:
  "ok v \<Longrightarrow> ok w \<Longrightarrow> enc v @ r = enc w @ s \<longleftrightarrow> v = w \<and> r = s"
  by (metis dec_enc option.inject prod.inject)

lemma enc_inj: "ok v \<Longrightarrow> ok w \<Longrightarrow> enc v = enc w \<longleftrightarrow> v = w"
  using enc_split [of v w "[]" "[]"] by simp

end

text \<open>Two codecs in sequence: the fields of a struct written one after the other.\<close>

locale codec_pair = a: codec enc1 dec1 ok1 + b: codec enc2 dec2 ok2
  for enc1 :: "'a \<Rightarrow> bytes" and dec1 ok1
    and enc2 :: "'b \<Rightarrow> bytes" and dec2 ok2
begin

lemma pair_dec:
  "ok1 x \<Longrightarrow> ok2 y \<Longrightarrow>
   Option.bind (dec1 (enc1 x @ enc2 y @ rest)) (\<lambda>(u, i). Option.bind (dec2 i) (\<lambda>(v, j). Some ((u, v), j)))
     = Some ((x, y), rest)"
  by (simp add: a.dec_enc b.dec_enc)

end

sublocale codec_pair \<subseteq> pair: codec
  "\<lambda>(x, y). enc1 x @ enc2 y"
  "\<lambda>i. Option.bind (dec1 i) (\<lambda>(u, i). Option.bind (dec2 i) (\<lambda>(v, j). Some ((u, v), j)))"
  "\<lambda>(x, y). ok1 x \<and> ok2 y"
  by unfold_locales (auto simp: a.dec_enc b.dec_enc)

end
