(* ===== verification/Coding.thy ===== *)
theory Coding
  imports Prelude
begin

text \<open>
  \<open>util/coding.h\<close> and \<open>util/coding.cc\<close>: fixed-width little-endian integers,
  variable-length integers and length-prefixed slices. A \<open>char*\<close> that is written
  through becomes the list of bytes written; a pair \<open>p, limit\<close> that is read becomes
  the list of the bytes from \<open>p\<close> to \<open>limit\<close>; \<open>nullptr\<close> is \<^const>\<open>None\<close>.
\<close>

section \<open>Fixed-width integers\<close>

definition EncodeFixed32 :: "u32 \<Rightarrow> bytes" where
  "EncodeFixed32 value =
     [ucast value, ucast (drop_bit 8 value), ucast (drop_bit 16 value), ucast (drop_bit 24 value)]"

definition EncodeFixed64 :: "u64 \<Rightarrow> bytes" where
  "EncodeFixed64 value =
     [ucast value, ucast (drop_bit 8 value), ucast (drop_bit 16 value), ucast (drop_bit 24 value),
      ucast (drop_bit 32 value), ucast (drop_bit 40 value), ucast (drop_bit 48 value),
      ucast (drop_bit 56 value)]"

definition DecodeFixed32 :: "bytes \<Rightarrow> u32" where
  "DecodeFixed32 ptr =
     ucast (ptr ! 0) OR push_bit 8 (ucast (ptr ! 1)) OR push_bit 16 (ucast (ptr ! 2))
       OR push_bit 24 (ucast (ptr ! 3))"

definition DecodeFixed64 :: "bytes \<Rightarrow> u64" where
  "DecodeFixed64 ptr =
     ucast (ptr ! 0) OR push_bit 8 (ucast (ptr ! 1)) OR push_bit 16 (ucast (ptr ! 2))
       OR push_bit 24 (ucast (ptr ! 3)) OR push_bit 32 (ucast (ptr ! 4))
       OR push_bit 40 (ucast (ptr ! 5)) OR push_bit 48 (ucast (ptr ! 6))
       OR push_bit 56 (ucast (ptr ! 7))"

definition PutFixed32 :: "bytes \<Rightarrow> u32 \<Rightarrow> bytes" where
  "PutFixed32 dst value = dst @ EncodeFixed32 value"

definition PutFixed64 :: "bytes \<Rightarrow> u64 \<Rightarrow> bytes" where
  "PutFixed64 dst value = dst @ EncodeFixed64 value"

section \<open>Variable-length integers\<close>

definition EncodeVarint32 :: "u32 \<Rightarrow> bytes" where
  "EncodeVarint32 v =
     (let B = 128 in
      if v < push_bit 7 1 then [ucast v]
      else if v < push_bit 14 1 then [ucast (v OR B), ucast (drop_bit 7 v)]
      else if v < push_bit 21 1 then
        [ucast (v OR B), ucast (drop_bit 7 v OR B), ucast (drop_bit 14 v)]
      else if v < push_bit 28 1 then
        [ucast (v OR B), ucast (drop_bit 7 v OR B), ucast (drop_bit 14 v OR B),
         ucast (drop_bit 21 v)]
      else
        [ucast (v OR B), ucast (drop_bit 7 v OR B), ucast (drop_bit 14 v OR B),
         ucast (drop_bit 21 v OR B), ucast (drop_bit 28 v)])"

definition PutVarint32 :: "bytes \<Rightarrow> u32 \<Rightarrow> bytes" where
  "PutVarint32 dst v = dst @ EncodeVarint32 v"

text \<open>The loop of \<open>EncodeVarint64\<close>, at any word width.\<close>

function varint_bytes :: "'a::len word \<Rightarrow> bytes" where
  "varint_bytes v =
     (if 128 \<le> unat v then ucast (v OR 128) # varint_bytes (drop_bit 7 v) else [ucast v])"
  by pat_completeness auto
termination
  by (relation "measure unat") (auto simp only: in_measure unat_drop_bit_7)

definition EncodeVarint64 :: "u64 \<Rightarrow> bytes" where
  "EncodeVarint64 v = varint_bytes v"

definition PutVarint64 :: "bytes \<Rightarrow> u64 \<Rightarrow> bytes" where
  "PutVarint64 dst v = dst @ EncodeVarint64 v"

text \<open>\<open>value.size()\<close> is a \<open>size_t\<close>; passing it as a \<open>uint32_t\<close> truncates it.\<close>

definition PutLengthPrefixedSlice :: "bytes \<Rightarrow> bytes \<Rightarrow> bytes" where
  "PutLengthPrefixedSlice dst value = PutVarint32 dst (of_nat (length value)) @ value"

function VarintLength_loop :: "u64 \<Rightarrow> nat \<Rightarrow> nat" where
  "VarintLength_loop v len =
     (if 128 \<le> unat v then VarintLength_loop (drop_bit 7 v) (len + 1) else len)"
  by pat_completeness auto
termination
  by (relation "measure (\<lambda>(v, len). unat v)") (auto simp only: in_measure unat_drop_bit_7 prod.case)

definition VarintLength :: "u64 \<Rightarrow> nat" where
  "VarintLength v = VarintLength_loop v 1"

text \<open>
  The decoding loop of \<open>GetVarint32PtrFallback\<close> (\<open>shift <= 28\<close>, 32 bits) and of
  \<open>GetVarint64Ptr\<close> (\<open>shift <= 63\<close>, 64 bits): the same text at two widths.
\<close>

fun varint_loop :: "nat \<Rightarrow> nat \<Rightarrow> 'a::len word \<Rightarrow> bytes \<Rightarrow> ('a word \<times> bytes) option" where
  "varint_loop bound shift result [] = None"
| "varint_loop bound shift result (b # p) =
     (if shift \<le> bound then
        (let byte = (ucast b :: 'a word) in
         if byte AND 128 \<noteq> 0
         then varint_loop bound (shift + 7) (result OR push_bit shift (byte AND 127)) p
         else Some (result OR push_bit shift byte, p))
      else None)"

definition GetVarint32PtrFallback :: "bytes \<Rightarrow> (u32 \<times> bytes) option" where
  "GetVarint32PtrFallback p = varint_loop 28 0 0 p"

definition GetVarint32Ptr :: "bytes \<Rightarrow> (u32 \<times> bytes) option" where
  "GetVarint32Ptr p =
     (case p of
        b # p' \<Rightarrow>
          (let result = (ucast b :: u32) in
           if result AND 128 = 0 then Some (result, p') else GetVarint32PtrFallback p)
      | [] \<Rightarrow> GetVarint32PtrFallback p)"

definition GetVarint32 :: "bytes \<Rightarrow> (u32 \<times> bytes) option" where
  "GetVarint32 input = GetVarint32Ptr input"

definition GetVarint64Ptr :: "bytes \<Rightarrow> (u64 \<times> bytes) option" where
  "GetVarint64Ptr p = varint_loop 63 0 0 p"

definition GetVarint64 :: "bytes \<Rightarrow> (u64 \<times> bytes) option" where
  "GetVarint64 input = GetVarint64Ptr input"

text \<open>
  The result and the input afterwards: when the length reads but the bytes are missing,
  the routine fails with the input already past the length.
\<close>

definition GetLengthPrefixedSlice :: "bytes \<Rightarrow> bytes option \<times> bytes" where
  "GetLengthPrefixedSlice input =
     (case GetVarint32 input of
        None \<Rightarrow> (None, input)
      | Some (len, input') \<Rightarrow>
          if unat len \<le> length input'
          then (Some (take (unat len) input'), drop (unat len) input')
          else (None, input'))"

section \<open>Fixed-width round trips\<close>

declare varint_bytes.simps [simp del]
declare VarintLength_loop.simps [simp del]

lemma length_EncodeFixed32 [simp]: "length (EncodeFixed32 v) = 4"
  by (simp add: EncodeFixed32_def)

lemma length_EncodeFixed64 [simp]: "length (EncodeFixed64 v) = 8"
  by (simp add: EncodeFixed64_def)

lemma byte_of: "(ucast (ucast w :: byte) :: 'a::len word) = take_bit 8 w"
  by (rule bit_word_eqI) (auto simp: bit_simps)

lemma join_byte: "take_bit n v OR push_bit n (take_bit 8 (drop_bit n v)) = take_bit (n + 8) (v :: 'a::len word)"
  by (rule bit_word_eqI) (auto simp: bit_simps)

lemma join_byte_more:
  "take_bit n v OR (push_bit n (take_bit 8 (drop_bit n v)) OR x) = take_bit (n + 8) (v :: 'a::len word) OR x"
  by (simp add: join_byte or.assoc [symmetric])

lemma DecodeFixed64_Encode [roundtrip]: "DecodeFixed64 (EncodeFixed64 v @ rest) = v"
  using join_byte_more [of 8 v] join_byte_more [of 16 v] join_byte_more [of 24 v] join_byte_more [of 32 v]
    join_byte_more [of 40 v] join_byte_more [of 48 v] join_byte [of 56 v]
  by (simp add: DecodeFixed64_def EncodeFixed64_def byte_of take_bit_word_eq_self)

lemma DecodeFixed32_Encode [roundtrip]: "DecodeFixed32 (EncodeFixed32 v @ rest) = v"
  using join_byte_more [of 8 v] join_byte_more [of 16 v] join_byte [of 24 v]
  by (simp add: DecodeFixed32_def EncodeFixed32_def byte_of take_bit_word_eq_self)

section \<open>Varint round trips\<close>

lemma varint_combine:
  "(result OR push_bit shift ((ucast (ucast (v OR 128) :: byte)) AND 127))
     OR push_bit (shift + 7) (drop_bit 7 v) = result OR push_bit shift (v :: 'a::len word)"
    (is "?l = ?r")
proof (rule bit_word_eqI)
  fix n assume "n < LENGTH('a)"
  moreover have "\<not> n < shift + 7 \<Longrightarrow> 7 + (n - (shift + 7)) = n - shift" by simp
  ultimately show "bit ?l n = bit ?r n"
    by (cases "n < shift + 7") (auto simp: bit_simps)
qed

lemma varint_loop_bytes:
  fixes v :: "'a::len word"
  assumes "8 \<le> LENGTH('a)" "LENGTH('a) \<le> bound + 7" "7 dvd bound"
  shows "7 dvd shift \<Longrightarrow> shift < LENGTH('a) \<Longrightarrow> unat v < 2 ^ (LENGTH('a) - shift) \<Longrightarrow>
    varint_loop bound shift result (varint_bytes v @ rest) = Some (result OR push_bit shift v, rest)"
proof (induction v arbitrary: shift result rule: varint_bytes.induct)
  case (1 v)
  from assms 1 have le: "shift \<le> bound" by presburger
  show ?case
  proof (cases "128 \<le> unat v")
    case True
    have "(2::nat) ^ 7 < 2 ^ (LENGTH('a) - shift)" using True 1 by simp
    then have lt: "7 < LENGTH('a) - shift" by (rule power_less_imp_less_exp [rotated]) simp
    then have e: "(2::nat) ^ (LENGTH('a) - shift) = 128 * 2 ^ (LENGTH('a) - (shift + 7))"
      using power_add [of "2::nat" 7 "LENGTH('a) - (shift + 7)"] by simp
    have small: "unat (drop_bit 7 v) < 2 ^ (LENGTH('a) - (shift + 7))"
      using 1 by (simp add: unat_drop_bit_7 e less_mult_imp_div_less mult.commute)
    have hi: "(ucast (ucast (v OR 128) :: byte) :: 'a word) AND 128 \<noteq> 0"
      using assms(1) by (simp add: test_bit_128 bit_ucast_iff bit_or_iff)
    show ?thesis
      using True le lt 1 small hi
      by (simp add: varint_bytes.simps [of v] varint_combine del: push_bit_push_bit push_bit_and)
  next
    case False
    have lo: "(ucast (ucast v :: byte) :: 'a word) = v"
      using small_word_bit [of v 8] False by (intro bit_word_eqI) (auto simp: bit_simps)
    have "\<not> bit v 7" using False small_word_bit [of v 7 7] by auto
    then show ?thesis
      using False le assms(1) by (simp add: varint_bytes.simps [of v] lo test_bit_128)
  qed
qed

lemma varint_bytes_drop:
  "varint_bytes (drop_bit k v) =
     (if 2 ^ (k + 7) \<le> unat v
      then ucast (drop_bit k v OR 128) # varint_bytes (drop_bit (k + 7) v)
      else [ucast (drop_bit k v)])"
proof -
  have "128 \<le> unat (drop_bit k v) \<longleftrightarrow> 2 ^ (k + 7) \<le> unat v"
    unfolding unat_drop_bit_eq
    by (simp add: drop_bit_eq_div less_eq_div_iff_mult_less_eq power_add mult.commute)
  then show ?thesis
    by (simp add: varint_bytes.simps [of "drop_bit k v"] add.commute)
qed

lemma EncodeVarint32_loop: "EncodeVarint32 v = varint_bytes v"
proof -
  have b: "unat v < 2 ^ 32" using unat_bound [of v] by simp
  show ?thesis
    using b varint_bytes_drop [of 0 v] varint_bytes_drop [of 7 v] varint_bytes_drop [of 14 v]
      varint_bytes_drop [of 21 v] varint_bytes_drop [of 28 v]
    by (simp add: EncodeVarint32_def word_less_nat_alt)
qed

lemma EncodeVarint32_not_Nil [simp]: "EncodeVarint32 v \<noteq> []"
  by (simp add: EncodeVarint32_loop varint_bytes.simps [of v])

lemma EncodeVarint64_not_Nil [simp]: "EncodeVarint64 v \<noteq> []"
  by (simp add: EncodeVarint64_def varint_bytes.simps [of v])

text \<open>The fast path of \<open>GetVarint32Ptr\<close> agrees with the loop it bypasses.\<close>

lemma GetVarint32Ptr_fallback: "GetVarint32Ptr p = GetVarint32PtrFallback p"
  by (simp add: GetVarint32Ptr_def GetVarint32PtrFallback_def Let_def split: list.split)

lemma GetVarint32_Encode [roundtrip]: "GetVarint32 (EncodeVarint32 v @ rest) = Some (v, rest)"
  using varint_loop_bytes [of 28 0 v 0 rest] unat_bound [of v]
  by (simp add: GetVarint32_def GetVarint32Ptr_fallback GetVarint32PtrFallback_def EncodeVarint32_loop)

lemma GetVarint64_Encode [roundtrip]: "GetVarint64 (EncodeVarint64 v @ rest) = Some (v, rest)"
  using varint_loop_bytes [of 63 0 v 0 rest] unat_bound [of v]
  by (simp add: GetVarint64_def GetVarint64Ptr_def EncodeVarint64_def)


text \<open>\<open>VarintLength\<close> is the length of the encoding it predicts, and bounds it by ten bytes.\<close>

lemma VarintLength_loop_eq: "VarintLength_loop v len = len + length (varint_bytes v) - 1"
proof (induction v len rule: VarintLength_loop.induct)
  case (1 v len)
  then show ?case
    by (cases "128 \<le> unat v")
      (simp_all add: VarintLength_loop.simps [of v] varint_bytes.simps [of v]
         varint_bytes.simps [of "drop_bit 7 v"])
qed

lemma length_varint_bytes_bound: "unat v < 2 ^ (7 * Suc k) \<Longrightarrow> length (varint_bytes v) \<le> Suc k"
proof (induction k arbitrary: v)
  case 0
  then show ?case by (simp add: varint_bytes.simps [of v])
next
  case (Suc k)
  then have "unat (drop_bit 7 v) < 2 ^ (7 * Suc k)"
    unfolding unat_drop_bit_7 by (simp add: less_mult_imp_div_less power_add mult.commute)
  then show ?case using Suc.IH by (simp add: varint_bytes.simps [of v])
qed

lemma length_EncodeVarint32: "length (EncodeVarint32 v) \<le> 5"
  using length_varint_bytes_bound [of v 4] unat_bound [of v]
  by (simp add: EncodeVarint32_loop)

lemma length_EncodeVarint64: "length (EncodeVarint64 v) \<le> 10"
  using length_varint_bytes_bound [of v 9] unat_bound [of v]
  by (simp add: EncodeVarint64_def)

lemma varint_bytes_ucast: "varint_bytes (ucast (v :: u32) :: u64) = varint_bytes v"
proof (induction v rule: varint_bytes.induct)
  case (1 v)
  have "drop_bit 7 (ucast v :: u64) = ucast (drop_bit 7 v)"
    by (rule bit_word_eqI) (auto simp: bit_simps dest: bit_imp_le_length)
  moreover have "(ucast ((ucast v :: u64) OR 128) :: byte) = ucast (v OR 128)"
    by (rule bit_word_eqI) (auto simp: bit_simps)
  moreover have "(ucast (ucast v :: u64) :: byte) = ucast v"
    by (rule bit_word_eqI) (auto simp: bit_simps)
  moreover have "unat (ucast v :: u64) = unat v"
    using unat_bound [of v] by (simp add: unsigned_ucast_eq take_bit_nat_eq_self)
  ultimately show ?case
    using 1 by (simp only: varint_bytes.simps [of v] varint_bytes.simps [of "ucast v"] split: if_split) simp
qed

lemma varint_loop_consumes:
  "varint_loop bound shift result p = Some (v, rest) \<Longrightarrow>
   \<exists>n. 0 < n \<and> n \<le> length p \<and> rest = drop n p \<and> shift + 7 * n \<le> bound + 7"
proof (induction bound shift result p rule: varint_loop.induct)
  case (2 bound shift result b p)
  show ?case
  proof (cases "(ucast b :: 'a word) AND 128 \<noteq> 0")
    case True
    with "2.prems" have "shift \<le> bound"
      and "varint_loop bound (shift + 7) (result OR push_bit shift (ucast b AND 127)) p = Some (v, rest)"
      by (simp_all add: Let_def split: if_splits)
    then obtain n where "0 < n" "n \<le> length p" "rest = drop n p" "shift + 7 + 7 * n \<le> bound + 7"
      using "2.IH" [OF _ refl True] by blast
    then show ?thesis by (intro exI [of _ "Suc n"]) simp
  next
    case False
    with "2.prems" show ?thesis
      by (intro exI [of _ 1]) (auto split: if_splits)
  qed
qed simp

lemma GetVarint32_consumes:
  "GetVarint32 input = Some (v, rest) \<Longrightarrow>
   \<exists>n. 1 \<le> n \<and> n \<le> 5 \<and> n \<le> length input \<and> rest = drop n input"
  using varint_loop_consumes [of 28 0 0 input v rest]
  by (auto simp: GetVarint32_def GetVarint32Ptr_fallback GetVarint32PtrFallback_def Suc_le_eq)

lemma GetVarint64_consumes:
  "GetVarint64 input = Some (v, rest) \<Longrightarrow>
   \<exists>n. 1 \<le> n \<and> n \<le> 10 \<and> n \<le> length input \<and> rest = drop n input"
  using varint_loop_consumes [of 63 0 0 input v rest]
  by (auto simp: GetVarint64_def GetVarint64Ptr_def Suc_le_eq)

section \<open>Length-prefixed slices\<close>

lemma GetLengthPrefixedSlice_Put [roundtrip]:
  "length value < 2 ^ 32 \<Longrightarrow>
   GetLengthPrefixedSlice (PutLengthPrefixedSlice [] value @ rest) = (Some value, rest)"
  by (simp add: GetLengthPrefixedSlice_def PutLengthPrefixedSlice_def PutVarint32_def roundtrip
      unat_of_nat take_bit_nat_eq_self)

lemma PutLengthPrefixedSlice_append:
  "PutLengthPrefixedSlice dst value = dst @ PutLengthPrefixedSlice [] value"
  by (simp add: PutLengthPrefixedSlice_def PutVarint32_def)

section \<open>The codecs\<close>

interpretation varint32: codec EncodeVarint32 GetVarint32 "\<lambda>_. True"
  by unfold_locales (simp add: roundtrip)

interpretation varint64: codec EncodeVarint64 GetVarint64 "\<lambda>_. True"
  by unfold_locales (simp add: roundtrip)

interpretation fixed32: codec EncodeFixed32
  "\<lambda>i. if length i < 4 then None else Some (DecodeFixed32 i, drop 4 i)" "\<lambda>_. True"
  by unfold_locales (simp add: roundtrip)

interpretation fixed64: codec EncodeFixed64
  "\<lambda>i. if length i < 8 then None else Some (DecodeFixed64 i, drop 8 i)" "\<lambda>_. True"
  by unfold_locales (simp add: roundtrip)

interpretation slice: codec "PutLengthPrefixedSlice []"
  "\<lambda>i. case GetLengthPrefixedSlice i of (Some v, r) \<Rightarrow> Some (v, r) | (None, r) \<Rightarrow> None"
  "\<lambda>v. length v < 2 ^ 32"
  by unfold_locales (simp add: roundtrip)

interpretation varint64_pair: codec_pair EncodeVarint64 GetVarint64 "\<lambda>_. True"
  EncodeVarint64 GetVarint64 "\<lambda>_. True"
  by unfold_locales

section \<open>Properties\<close>

text \<open>
  C22: variable-length integers round-trip: decoding what was appended for a 32-bit or a
  64-bit value returns that value and leaves exactly the bytes that follow it.
\<close>

theorem varint_roundtrip:
  "GetVarint32 (PutVarint32 [] v @ rest) = Some (v, rest) \<and>
   GetVarint64 (PutVarint64 [] w @ rest) = Some (w, rest)"
  by (simp add: PutVarint32_def PutVarint64_def roundtrip)

text \<open>
  C2: the unrolled 32-bit encoder writes the bytes of the 64-bit loop, and \<open>VarintLength\<close>
  predicts their number, at most ten (five for a 32-bit value).
\<close>

theorem varint_length:
  "EncodeVarint32 v = EncodeVarint64 (ucast v) \<and> length (EncodeVarint32 v) \<le> 5 \<and>
   length (EncodeVarint64 w) = VarintLength w \<and> VarintLength w \<le> 10"
proof -
  have "EncodeVarint32 v = EncodeVarint64 (ucast v)"
    using varint_bytes_ucast [of v] by (simp add: EncodeVarint32_loop EncodeVarint64_def)
  moreover have "VarintLength w = length (EncodeVarint64 w)"
    by (simp add: VarintLength_def VarintLength_loop_eq EncodeVarint64_def)
  ultimately show ?thesis
    using length_EncodeVarint32 [of v] length_EncodeVarint64 [of w] by simp
qed

text \<open>
  C24: a successful varint read consumes between one and five (ten) bytes of its input and
  never looks past its end: the rest is a suffix of the input.
\<close>

theorem varint_reads_within_input:
  "(GetVarint32 input = Some (v, rest) \<longrightarrow>
      (\<exists>n. 1 \<le> n \<and> n \<le> 5 \<and> n \<le> length input \<and> rest = drop n input)) \<and>
   (GetVarint64 input = Some (w, rest) \<longrightarrow>
      (\<exists>n. 1 \<le> n \<and> n \<le> 10 \<and> n \<le> length input \<and> rest = drop n input))"
  using GetVarint32_consumes [of input v rest] GetVarint64_consumes [of input w rest] by blast

theorem varint_reads_within_input_witness:
  "GetVarint32 [0xac, 0x02, 0x07] = Some (300, [0x07]) \<and>
   (\<exists>n. 1 \<le> n \<and> n \<le> 5 \<and> n \<le> length [0xac, 0x02, 0x07 :: byte] \<and>
      [0x07 :: byte] = drop n [0xac, 0x02, 0x07])"
proof -
  have r: "GetVarint32 [0xac, 0x02, 0x07] = Some (300, [0x07])"
    by (simp add: GetVarint32_def GetVarint32Ptr_def GetVarint32PtrFallback_def)
  show ?thesis
    using r varint_reads_within_input [of "[0xac, 0x02, 0x07]" 300 "[0x07]" 0] by blast
qed

text \<open>
  C25: fixed-width integers and length-prefixed slices round-trip, the latter for every
  slice whose length fits the 32-bit prefix.
\<close>

theorem fixed_and_slice_roundtrip:
  assumes "length value < 2 ^ 32"
  shows "DecodeFixed32 (PutFixed32 [] a @ rest) = a \<and> DecodeFixed64 (PutFixed64 [] b @ rest) = b \<and>
    GetLengthPrefixedSlice (PutLengthPrefixedSlice [] value @ rest) = (Some value, rest)"
  using assms by (simp add: PutFixed32_def PutFixed64_def roundtrip)

theorem fixed_and_slice_roundtrip_witness:
  "GetLengthPrefixedSlice (PutLengthPrefixedSlice [] [0x61, 0x62] @ [0x63]) = (Some [0x61, 0x62], [0x63])"
  using fixed_and_slice_roundtrip [of "[0x61, 0x62]" 0 "[0x63]" 0] by simp

end
