(* ===== verification/Env.thy ===== *)
theory Env
  imports Coding
begin

text \<open>
  \<open>include/leveldb/status.h\<close>, \<open>util/status.cc\<close> and the file interfaces of
  \<open>include/leveldb/env.h\<close>: status values, and sequential and writable files as records of
  operations on a file state, with their documented contracts as locales.
\<close>

section \<open>Status\<close>

text \<open>
  \<open>state_ == nullptr\<close> is \<open>OK\<close>; otherwise \<open>state_\<close> holds the code and the message, whose
  length is below \<open>2\<^sup>3\<^sup>2\<close>.
\<close>

datatype Code = kNotFound | kCorruption | kNotSupported | kInvalidArgument | kIOError

datatype Status = OK | State Code bytes

definition make_Status :: "Code \<Rightarrow> bytes \<Rightarrow> bytes \<Rightarrow> Status" where
  "make_Status code msg msg2 =
     State code (msg @ (if msg2 \<noteq> [] then str '': '' @ msg2 else []))"

definition NotFound :: "bytes \<Rightarrow> bytes \<Rightarrow> Status" where
  "NotFound msg msg2 = make_Status kNotFound msg msg2"

definition Corruption :: "bytes \<Rightarrow> bytes \<Rightarrow> Status" where
  "Corruption msg msg2 = make_Status kCorruption msg msg2"

definition NotSupported :: "bytes \<Rightarrow> bytes \<Rightarrow> Status" where
  "NotSupported msg msg2 = make_Status kNotSupported msg msg2"

definition InvalidArgument :: "bytes \<Rightarrow> bytes \<Rightarrow> Status" where
  "InvalidArgument msg msg2 = make_Status kInvalidArgument msg msg2"

definition IOError :: "bytes \<Rightarrow> bytes \<Rightarrow> Status" where
  "IOError msg msg2 = make_Status kIOError msg msg2"

definition ok :: "Status \<Rightarrow> bool" where
  "ok s \<longleftrightarrow> s = OK"

fun IsNotFound :: "Status \<Rightarrow> bool" where
  "IsNotFound (State c _) = (c = kNotFound)"
| "IsNotFound OK = False"

fun IsCorruption :: "Status \<Rightarrow> bool" where
  "IsCorruption (State c _) = (c = kCorruption)"
| "IsCorruption OK = False"

fun IsIOError :: "Status \<Rightarrow> bool" where
  "IsIOError (State c _) = (c = kIOError)"
| "IsIOError OK = False"

fun IsNotSupportedError :: "Status \<Rightarrow> bool" where
  "IsNotSupportedError (State c _) = (c = kNotSupported)"
| "IsNotSupportedError OK = False"

fun IsInvalidArgument :: "Status \<Rightarrow> bool" where
  "IsInvalidArgument (State c _) = (c = kInvalidArgument)"
| "IsInvalidArgument OK = False"

fun Status_ToString :: "Status \<Rightarrow> bytes" where
  "Status_ToString OK = str ''OK''"
| "Status_ToString (State c msg) =
     (case c of
        kNotFound \<Rightarrow> str ''NotFound: ''
      | kCorruption \<Rightarrow> str ''Corruption: ''
      | kNotSupported \<Rightarrow> str ''Not implemented: ''
      | kInvalidArgument \<Rightarrow> str ''Invalid argument: ''
      | kIOError \<Rightarrow> str ''IO error: '') @ msg"

lemma ok_simps [simp]:
  "ok OK" "\<not> ok (State c m)" "\<not> ok (make_Status c m m2)" "\<not> ok (NotFound m m2)"
  "\<not> ok (Corruption m m2)" "\<not> ok (NotSupported m m2)" "\<not> ok (InvalidArgument m m2)"
  "\<not> ok (IOError m m2)"
  by (simp_all add: ok_def make_Status_def NotFound_def Corruption_def NotSupported_def
      InvalidArgument_def IOError_def)

section \<open>Files\<close>

record 'f SequentialFile =
  SeqRead :: "'f \<Rightarrow> nat \<Rightarrow> Status \<times> bytes \<times> 'f"
  SeqSkip :: "'f \<Rightarrow> nat \<Rightarrow> Status \<times> 'f"

record 'f RandomAccessFile =
  RandomRead :: "'f \<Rightarrow> nat \<Rightarrow> nat \<Rightarrow> Status \<times> bytes"

record 'w WritableFile =
  WAppend :: "'w \<Rightarrow> bytes \<Rightarrow> Status \<times> 'w"
  WClose :: "'w \<Rightarrow> Status \<times> 'w"
  WFlush :: "'w \<Rightarrow> Status \<times> 'w"
  WSync :: "'w \<Rightarrow> Status \<times> 'w"

text \<open>
  A sequential file that reads without errors: a read returns the next bytes, fewer than
  asked for only at the end of the file, and skipping stops at the end of the file.
\<close>

locale sequential_file =
  fixes F :: "'f SequentialFile"
    and unread :: "'f \<Rightarrow> bytes"
    and inv :: "'f \<Rightarrow> bool"
  assumes seq_read: "inv f \<Longrightarrow> SeqRead F f n = (s, r, f') \<Longrightarrow>
      s = OK \<and> r = take n (unread f) \<and> unread f' = drop n (unread f) \<and> inv f'"
    and seq_skip: "inv f \<Longrightarrow> SeqSkip F f n = (s, f') \<Longrightarrow>
      s = OK \<and> unread f' = drop n (unread f) \<and> inv f'"

text \<open>A random-access file that reads without errors up to its end.\<close>

locale random_access_file =
  fixes R :: "'f RandomAccessFile"
    and contents :: "'f \<Rightarrow> bytes"
    and inv :: "'f \<Rightarrow> bool"
  assumes random_read: "inv f \<Longrightarrow> off \<le> length (contents f) \<Longrightarrow>
    RandomRead R f off n = (OK, take n (drop off (contents f)))"

text \<open>A writable file that accepts every append.\<close>

locale writable_file =
  fixes W :: "'w WritableFile"
    and written :: "'w \<Rightarrow> bytes"
    and inv :: "'w \<Rightarrow> bool"
  assumes w_append: "inv w \<Longrightarrow> WAppend W w d = (s, w') \<Longrightarrow> s = OK \<and> written w' = written w @ d \<and> inv w'"
    and w_flush: "inv w \<Longrightarrow> WFlush W w = (s, w') \<Longrightarrow> s = OK \<and> written w' = written w \<and> inv w'"
    and w_sync: "inv w \<Longrightarrow> WSync W w = (s, w') \<Longrightarrow> s = OK \<and> written w' = written w \<and> inv w'"

end
