(* ===== verification/Comparator.thy ===== *)
theory Comparator
  imports Prelude
begin

text \<open>
  \<open>include/leveldb/slice.h\<close>, \<open>include/leveldb/comparator.h\<close> and \<open>util/comparator.cc\<close>:
  byte-string comparison, the \<open>Comparator\<close> interface with the contract its comments
  state, and the built-in bytewise comparator, which is shown to fulfil that contract.
\<close>

section \<open>Slices\<close>

text \<open>C's \<open>memcmp\<close> on the first \<open>n\<close> bytes; only the sign of its result is specified.\<close>

fun memcmp :: "bytes \<Rightarrow> bytes \<Rightarrow> nat \<Rightarrow> int" where
  "memcmp (x # xs) (y # ys) (Suc n) =
     (if x = y then memcmp xs ys n else if x < y then - 1 else 1)"
| "memcmp _ _ _ = 0"

definition Slice_compare :: "bytes \<Rightarrow> bytes \<Rightarrow> int" where
  "Slice_compare a b =
     (let min_len = (if length a < length b then length a else length b);
          r = memcmp a b min_len
      in if r = 0
         then (if length a < length b then - 1 else if length a > length b then 1 else r)
         else r)"

definition Slice_eq :: "bytes \<Rightarrow> bytes \<Rightarrow> bool" where
  "Slice_eq x y = (length x = length y \<and> memcmp x y (length x) = 0)"

definition starts_with :: "bytes \<Rightarrow> bytes \<Rightarrow> bool" where
  "starts_with s x = (length s \<ge> length x \<and> memcmp s x (length x) = 0)"

lemma memcmp_0 [simp]: "memcmp xs ys 0 = 0"
  by (cases xs; cases ys) auto

lemma memcmp_eq_0:
  "n \<le> length a \<Longrightarrow> n \<le> length b \<Longrightarrow> memcmp a b n = 0 \<longleftrightarrow> take n a = take n b"
  by (induction a b n rule: memcmp.induct) auto

lemma Slice_eq_iff: "Slice_eq x y \<longleftrightarrow> x = y"
  using memcmp_eq_0 [of "length x" x y] by (auto simp: Slice_eq_def)

lemma starts_with_iff: "starts_with s x \<longleftrightarrow> (\<exists>t. s = x @ t)"
  by (auto simp: starts_with_def memcmp_eq_0) (metis append_take_drop_id)

text \<open>The comparison as a recursion: lexicographic on unsigned bytes, a prefix first.\<close>

lemma Slice_compare_simps [simp]:
  "Slice_compare [] [] = 0"
  "Slice_compare [] (y # ys) = - 1"
  "Slice_compare (x # xs) [] = 1"
  "Slice_compare (x # xs) (y # ys) =
     (if x = y then Slice_compare xs ys else if x < y then - 1 else 1)"
  by (auto simp: Slice_compare_def Let_def)

lemma Slice_compare_0: "Slice_compare a b = 0 \<longleftrightarrow> a = b"
  by (induction a b rule: list_induct2') auto

lemma Slice_compare_sign: "Slice_compare a b < 0 \<longleftrightarrow> 0 < Slice_compare b a"
  by (induction a b rule: list_induct2') auto

lemma Slice_compare_trans:
  "Slice_compare a b \<le> 0 \<Longrightarrow> Slice_compare b c \<le> 0 \<Longrightarrow> Slice_compare a c \<le> 0"
proof (induction a b arbitrary: c rule: list_induct2')
  case (2 x xs)
  then show ?case by simp
next
  case (3 y ys)
  then show ?case by (cases c) auto
next
  case (4 x xs y ys)
  then show ?case by (cases c) (auto split: if_splits)
qed simp

lemma Slice_compare_append_less:
  "x < y \<Longrightarrow> Slice_compare (p @ x # s) (p @ y # t) < 0"
  by (induction p) auto

section \<open>Three-way comparison\<close>

text \<open>A three-way comparison that is a total order on the keys in \<open>dom\<close>, up to equality.\<close>

locale key_order =
  fixes cmp :: "'k \<Rightarrow> 'k \<Rightarrow> int"
    and dom :: "'k \<Rightarrow> bool"
  assumes cmp_refl: "dom x \<Longrightarrow> cmp x x = 0"
    and cmp_sign: "dom x \<Longrightarrow> dom y \<Longrightarrow> cmp x y < 0 \<longleftrightarrow> 0 < cmp y x"
    and cmp_trans: "dom x \<Longrightarrow> dom y \<Longrightarrow> dom z \<Longrightarrow> cmp x y \<le> 0 \<Longrightarrow> cmp y z \<le> 0 \<Longrightarrow> cmp x z \<le> 0"
begin

lemma compare_0_sym: "dom x \<Longrightarrow> dom y \<Longrightarrow> cmp x y = 0 \<longleftrightarrow> cmp y x = 0"
  by (metis cmp_sign linorder_neqE_linordered_idom less_irrefl)

lemma not_less: "dom x \<Longrightarrow> dom y \<Longrightarrow> \<not> cmp x y < 0 \<longleftrightarrow> cmp y x \<le> 0"
  using cmp_sign by force

lemma less_le_trans:
  "dom x \<Longrightarrow> dom y \<Longrightarrow> dom z \<Longrightarrow> cmp x y < 0 \<Longrightarrow> cmp y z \<le> 0 \<Longrightarrow> cmp x z < 0"
  by (metis cmp_sign cmp_trans leD less_le_not_le not_less)

lemma le_less_trans:
  "dom x \<Longrightarrow> dom y \<Longrightarrow> dom z \<Longrightarrow> cmp x y \<le> 0 \<Longrightarrow> cmp y z < 0 \<Longrightarrow> cmp x z < 0"
  by (metis cmp_sign cmp_trans leD less_le_not_le not_less)

lemma less_trans:
  "dom x \<Longrightarrow> dom y \<Longrightarrow> dom z \<Longrightarrow> cmp x y < 0 \<Longrightarrow> cmp y z < 0 \<Longrightarrow> cmp x z < 0"
  by (rule less_le_trans) auto

lemma less_irrefl: "dom x \<Longrightarrow> \<not> cmp x x < 0"
  by (simp add: cmp_refl)

end

section \<open>The interface\<close>

record Comparator =
  Name :: bytes
  Compare :: "bytes \<Rightarrow> bytes \<Rightarrow> int"
  FindShortestSeparator :: "bytes \<Rightarrow> bytes \<Rightarrow> bytes"
  FindShortSuccessor :: "bytes \<Rightarrow> bytes"

text \<open>
  The contract: \<open>Compare\<close> is a total order on the keys in \<open>dom\<close> (up to keys that compare
  equal), a separator of \<open>start < limit\<close> lies in \<open>[start, limit)\<close> and leaves other pairs
  alone, and a short successor is not smaller than its key.
\<close>

locale comparator =
  fixes c :: Comparator
    and dom :: "bytes \<Rightarrow> bool"
  assumes compare_refl: "dom x \<Longrightarrow> Compare c x x = 0"
    and compare_sign: "dom x \<Longrightarrow> dom y \<Longrightarrow> Compare c x y < 0 \<longleftrightarrow> 0 < Compare c y x"
    and compare_trans: "dom x \<Longrightarrow> dom y \<Longrightarrow> dom z \<Longrightarrow>
      Compare c x y \<le> 0 \<Longrightarrow> Compare c y z \<le> 0 \<Longrightarrow> Compare c x z \<le> 0"
    and separator_dom: "dom x \<Longrightarrow> dom y \<Longrightarrow> dom (FindShortestSeparator c x y)"
    and separator_idle: "dom x \<Longrightarrow> dom y \<Longrightarrow> \<not> Compare c x y < 0 \<Longrightarrow> FindShortestSeparator c x y = x"
    and separator_ge: "dom x \<Longrightarrow> dom y \<Longrightarrow> Compare c x (FindShortestSeparator c x y) \<le> 0"
    and separator_less: "dom x \<Longrightarrow> dom y \<Longrightarrow> Compare c x y < 0 \<Longrightarrow>
      Compare c (FindShortestSeparator c x y) y < 0"
    and successor_dom: "dom x \<Longrightarrow> dom (FindShortSuccessor c x)"
    and successor_ge: "dom x \<Longrightarrow> Compare c x (FindShortSuccessor c x) \<le> 0"

sublocale comparator \<subseteq> key_order "Compare c" dom
  by unfold_locales (fact compare_refl compare_sign compare_trans)+

section \<open>The bytewise comparator\<close>

text \<open>The \<open>while\<close> loop that finds the length of the common prefix.\<close>

function diff_index_loop :: "bytes \<Rightarrow> bytes \<Rightarrow> nat \<Rightarrow> nat \<Rightarrow> nat" where
  "diff_index_loop start limit min_length diff_index =
     (if diff_index < min_length \<and> start ! diff_index = limit ! diff_index
      then diff_index_loop start limit min_length (diff_index + 1)
      else diff_index)"
  by pat_completeness auto
termination
  by (relation "measure (\<lambda>(start, limit, n, i). n - i)") auto

definition BytewiseFindShortestSeparator :: "bytes \<Rightarrow> bytes \<Rightarrow> bytes" where
  "BytewiseFindShortestSeparator start limit =
     (let min_length = min (length start) (length limit);
          diff_index = diff_index_loop start limit min_length 0
      in if diff_index \<ge> min_length then start
         else
           (let diff_byte = start ! diff_index
            in if diff_byte < 0xff \<and> unat diff_byte + 1 < unat (limit ! diff_index)
               then take (diff_index + 1) (start[diff_index := start ! diff_index + 1])
               else start))"

function BytewiseFindShortSuccessor_loop :: "bytes \<Rightarrow> nat \<Rightarrow> bytes" where
  "BytewiseFindShortSuccessor_loop key i =
     (if i < length key then
        (let byte = key ! i
         in if byte \<noteq> 0xff then take (i + 1) (key[i := byte + 1])
            else BytewiseFindShortSuccessor_loop key (i + 1))
      else key)"
  by pat_completeness auto
termination
  by (relation "measure (\<lambda>(key, i). length key - i)") auto

definition BytewiseComparator :: Comparator where
  "BytewiseComparator =
     \<lparr>Name = str ''leveldb.BytewiseComparator'',
      Compare = Slice_compare,
      FindShortestSeparator = BytewiseFindShortestSeparator,
      FindShortSuccessor = (\<lambda>key. BytewiseFindShortSuccessor_loop key 0)\<rparr>"

declare diff_index_loop.simps [simp del] BytewiseFindShortSuccessor_loop.simps [simp del]

lemma diff_index_loop_spec:
  assumes "i \<le> n" "take i start = take i limit" "n \<le> length start" "n \<le> length limit"
  shows "let d = diff_index_loop start limit n i in
    i \<le> d \<and> d \<le> n \<and> take d start = take d limit \<and> (d < n \<longrightarrow> start ! d \<noteq> limit ! d)"
  using assms
proof (induction start limit n i rule: diff_index_loop.induct)
  case (1 start limit n i)
  show ?case
  proof (cases "i < n \<and> start ! i = limit ! i")
    case True
    then have "take (i + 1) start = take (i + 1) limit"
      using "1.prems" by (simp add: take_Suc_conv_app_nth)
    with True 1 show ?thesis
      by (simp add: diff_index_loop.simps [of start limit n i] Let_def)
  next
    case False
    with 1 show ?thesis by (auto simp add: diff_index_loop.simps [of start limit n i] Let_def)
  qed
qed

text \<open>
  Either the separator is the start key itself, or it is the common prefix followed by an
  incremented byte, strictly between the two keys.
\<close>

lemma BytewiseFindShortestSeparator_cases:
  obtains "BytewiseFindShortestSeparator start limit = start"
  | "Slice_compare start limit < 0"
    "Slice_compare start (BytewiseFindShortestSeparator start limit) < 0"
    "Slice_compare (BytewiseFindShortestSeparator start limit) limit < 0"
proof -
  define n where "n = min (length start) (length limit)"
  define d where "d = diff_index_loop start limit n 0"
  have d: "d \<le> n" "take d start = take d limit"
    using diff_index_loop_spec [of 0 n start limit] by (auto simp: d_def n_def Let_def)
  show thesis
  proof (cases "d < n \<and> start ! d < 0xff \<and> unat (start ! d) + 1 < unat (limit ! d)")
    case True
    then have len: "d < length start" "d < length limit" by (simp_all add: n_def)
    have sep: "BytewiseFindShortestSeparator start limit = take d start @ [start ! d + 1]"
      using True len
      by (simp add: BytewiseFindShortestSeparator_def Let_def list_update_take_Suc
          flip: n_def d_def)
    have inc: "unat (start ! d + 1) = unat (start ! d) + 1"
      using True by (simp add: unat_word_ariths word_less_nat_alt)
    have s: "start = take d start @ start ! d # drop (Suc d) start"
      by (rule id_take_nth_drop [OF len(1)])
    have l: "limit = take d start @ limit ! d # drop (Suc d) limit"
      unfolding d(2) by (rule id_take_nth_drop [OF len(2)])
    have "start ! d < start ! d + 1" "start ! d + 1 < limit ! d" "start ! d < limit ! d"
      using True by (simp_all add: word_less_nat_alt inc)
    then have "Slice_compare start limit < 0" "Slice_compare start (take d start @ [start ! d + 1]) < 0"
      "Slice_compare (take d start @ [start ! d + 1]) limit < 0"
      using Slice_compare_append_less s l by metis+
    then show thesis using that(2) sep by simp
  next
    case False
    then have "BytewiseFindShortestSeparator start limit = start"
      using d(1) by (auto simp: BytewiseFindShortestSeparator_def Let_def simp flip: n_def d_def)
    then show thesis by (rule that(1))
  qed
qed

lemma BytewiseFindShortSuccessor_ge:
  "Slice_compare key (BytewiseFindShortSuccessor_loop key i) \<le> 0"
proof (induction key i rule: BytewiseFindShortSuccessor_loop.induct)
  case (1 key i)
  show ?case
  proof (cases "i < length key \<and> key ! i \<noteq> 0xff")
    case True
    have "unat (key ! i) < 255"
      using True unat_bound [of "key ! i"] by (auto simp: word_unat_eq_iff less_le)
    then have "key ! i < key ! i + 1"
      by (simp add: word_less_nat_alt unat_word_ariths)
    moreover have "key = take i key @ key ! i # drop (Suc i) key"
      using True by (simp add: id_take_nth_drop)
    ultimately have "Slice_compare key (take i key @ [key ! i + 1]) < 0"
      using Slice_compare_append_less by metis
    with True show ?thesis
      by (simp add: BytewiseFindShortSuccessor_loop.simps [of key i] list_update_take_Suc Let_def)
  next
    case False
    with 1 show ?thesis
      by (cases "i < length key")
        (simp_all add: BytewiseFindShortSuccessor_loop.simps [of key i] Slice_compare_0 [THEN iffD2])
  qed
qed

interpretation bytewise: comparator BytewiseComparator "\<lambda>_. True"
proof unfold_locales
  fix x y
  show "\<not> Compare BytewiseComparator x y < 0 \<Longrightarrow> FindShortestSeparator BytewiseComparator x y = x"
    by (rule BytewiseFindShortestSeparator_cases [of x y]) (auto simp: BytewiseComparator_def)
  show "Compare BytewiseComparator x (FindShortestSeparator BytewiseComparator x y) \<le> 0"
    by (rule BytewiseFindShortestSeparator_cases [of x y])
      (auto simp: BytewiseComparator_def Slice_compare_0 [THEN iffD2])
  show "Compare BytewiseComparator x y < 0 \<Longrightarrow>
      Compare BytewiseComparator (FindShortestSeparator BytewiseComparator x y) y < 0"
    by (rule BytewiseFindShortestSeparator_cases [of x y]) (auto simp: BytewiseComparator_def)
qed (auto simp: BytewiseComparator_def Slice_compare_0 Slice_compare_sign
    BytewiseFindShortSuccessor_ge intro: Slice_compare_trans)

end
