(* ===== verification/MemEnv.thy ===== *)
theory MemEnv
  imports Env Comparator
begin

text \<open>
  \<open>helpers/memenv/memenv.cc\<close>: the in-memory environment. A \<open>FileState\<close> is a vector of
  8 KiB blocks and a size; the environment maps names to reference-counted file objects.
  The locks are not modelled: each operation runs under its mutex.
\<close>

section \<open>File contents\<close>

definition kMemBlockSize :: nat where
  "kMemBlockSize = 8 * 1024"

record FileState =
  fs_refs :: int
  fs_blocks :: "bytes list"
  fs_size :: nat

definition new_FileState :: FileState where
  "new_FileState = \<lparr>fs_refs = 0, fs_blocks = [], fs_size = 0\<rparr>"

definition FileState_Ref :: "FileState \<Rightarrow> FileState" where
  "FileState_Ref f = f\<lparr>fs_refs := fs_refs f + 1\<rparr>"

text \<open>\<open>None\<close>: the last reference is gone and the object is deleted.\<close>

definition FileState_Unref :: "FileState \<Rightarrow> FileState option" where
  "FileState_Unref f =
     (let f = f\<lparr>fs_refs := fs_refs f - 1\<rparr> in if fs_refs f \<le> 0 then None else Some f)"

definition FileState_Truncate :: "FileState \<Rightarrow> FileState" where
  "FileState_Truncate f = f\<lparr>fs_blocks := [], fs_size := 0\<rparr>"

text \<open>\<open>memcpy\<close> into a buffer at an offset.\<close>

definition overwrite :: "bytes \<Rightarrow> nat \<Rightarrow> bytes \<Rightarrow> bytes" where
  "overwrite dst off src = take off dst @ src @ drop (off + length src) dst"

text \<open>A block fresh from \<open>new char[kBlockSize]\<close>; its bytes are written before they are read.\<close>

definition fresh_block :: bytes where
  "fresh_block = replicate kMemBlockSize 0"

text \<open>
  \<open>block_offset\<close> is a remainder modulo the block size at the start and zero afterwards, so
  the second conjunct of the guard always holds; it is there for termination.
\<close>

function FileState_Read_loop :: "bytes list \<Rightarrow> nat \<Rightarrow> nat \<Rightarrow> nat \<Rightarrow> bytes" where
  "FileState_Read_loop blocks block block_offset bytes_to_copy =
     (if 0 < bytes_to_copy \<and> block_offset < kMemBlockSize then
        (let avail = kMemBlockSize - block_offset;
             avail = (if avail > bytes_to_copy then bytes_to_copy else avail)
         in take avail (drop block_offset (blocks ! block))
            @ FileState_Read_loop blocks (block + 1) 0 (bytes_to_copy - avail))
      else [])"
  by pat_completeness auto
termination
  by (relation "measure (\<lambda>(b, i, off, n). n)") auto

definition FileState_Read :: "FileState \<Rightarrow> nat \<Rightarrow> nat \<Rightarrow> Status \<times> bytes" where
  "FileState_Read f offset n =
     (if offset > fs_size f then (IOError (str ''Offset greater than file size.'') [], [])
      else
        (let available = fs_size f - offset;
             n = (if n > available then available else n)
         in if n = 0 then (OK, [])
            else (OK, FileState_Read_loop (fs_blocks f) (offset div kMemBlockSize)
                        (offset mod kMemBlockSize) n)))"

function FileState_Append_loop :: "FileState \<Rightarrow> bytes \<Rightarrow> FileState" where
  "FileState_Append_loop f src =
     (if 0 < length src then
        (let offset = fs_size f mod kMemBlockSize;
             blocks = (if offset \<noteq> 0 then fs_blocks f else fs_blocks f @ [fresh_block]);
             avail = (if offset \<noteq> 0 then kMemBlockSize - offset else kMemBlockSize);
             avail = (if avail > length src then length src else avail);
             blocks = butlast blocks @ [overwrite (last blocks) offset (take avail src)]
         in FileState_Append_loop (f\<lparr>fs_blocks := blocks, fs_size := fs_size f + avail\<rparr>) (drop avail src))
      else f)"
  by pat_completeness auto
termination
proof (relation "measure (\<lambda>(f, src). length src)")
  fix f src offset blocks avail avail' blocks'
  assume "0 < length src" "(offset :: nat) = fs_size (f :: FileState) mod kMemBlockSize"
    "(avail :: nat) = (if offset \<noteq> 0 then kMemBlockSize - offset else kMemBlockSize)"
    "avail' = (if avail > length src then length (src :: bytes) else avail)"
  moreover have "fs_size f mod kMemBlockSize < kMemBlockSize" by (simp add: kMemBlockSize_def)
  ultimately show "((f\<lparr>fs_blocks := blocks', fs_size := fs_size f + avail'\<rparr>, drop avail' src), f, src)
      \<in> measure (\<lambda>(f, src). length src)"
    by (auto simp: kMemBlockSize_def)
qed simp

definition FileState_Append :: "FileState \<Rightarrow> bytes \<Rightarrow> Status \<times> FileState" where
  "FileState_Append f data = (OK, FileState_Append_loop f data)"

declare FileState_Read_loop.simps [simp del] FileState_Append_loop.simps [simp del]

section \<open>Files as the interface sees them\<close>

record MemSequentialFile =
  ms_file :: FileState
  ms_pos :: nat

definition MemSeqRead :: "MemSequentialFile \<Rightarrow> nat \<Rightarrow> Status \<times> bytes \<times> MemSequentialFile" where
  "MemSeqRead f n =
     (let (s, result) = FileState_Read (ms_file f) (ms_pos f) n
      in if ok s then (s, result, f\<lparr>ms_pos := ms_pos f + length result\<rparr>) else (s, result, f))"

definition MemSeqSkip :: "MemSequentialFile \<Rightarrow> nat \<Rightarrow> Status \<times> MemSequentialFile" where
  "MemSeqSkip f n =
     (if ms_pos f > fs_size (ms_file f) then (IOError (str ''pos_ > file_->Size()'') [], f)
      else
        (let available = fs_size (ms_file f) - ms_pos f;
             n = (if n > available then available else n)
         in (OK, f\<lparr>ms_pos := ms_pos f + n\<rparr>)))"

definition SequentialFileImpl :: "MemSequentialFile SequentialFile" where
  "SequentialFileImpl = \<lparr>SeqRead = MemSeqRead, SeqSkip = MemSeqSkip\<rparr>"

definition RandomAccessFileImpl :: "FileState RandomAccessFile" where
  "RandomAccessFileImpl = \<lparr>RandomRead = FileState_Read\<rparr>"

definition WritableFileImpl :: "FileState WritableFile" where
  "WritableFileImpl =
     \<lparr>WAppend = FileState_Append, WClose = (\<lambda>f. (OK, f)), WFlush = (\<lambda>f. (OK, f)),
      WSync = (\<lambda>f. (OK, f))\<rparr>"

section \<open>A file holds what was appended\<close>

definition fs_contents :: "FileState \<Rightarrow> bytes" where
  "fs_contents f = take (fs_size f) (concat (fs_blocks f))"

definition fs_inv :: "FileState \<Rightarrow> bool" where
  "fs_inv f \<longleftrightarrow> (\<forall>b \<in> set (fs_blocks f). length b = kMemBlockSize) \<and>
     length (fs_blocks f) = (fs_size f + kMemBlockSize - 1) div kMemBlockSize"

lemma length_concat_blocks:
  "(\<forall>b \<in> set bs. length b = n) \<Longrightarrow> length (concat bs) = n * length bs"
  by (induction bs) auto

lemma drop_concat_blocks:
  assumes "\<forall>b \<in> set bs. length b = n" "i < length bs" "k \<le> n"
  shows "drop (i * n + k) (concat bs) = drop k (bs ! i) @ concat (drop (Suc i) bs)"
  using assms
proof (induction bs arbitrary: i)
  case (Cons b bs)
  then show ?case by (cases i) (simp_all add: algebra_simps)
qed simp

lemma fs_inv_capacity: "fs_inv f \<Longrightarrow> fs_size f \<le> length (concat (fs_blocks f))"
proof -
  assume "fs_inv f"
  then have "length (concat (fs_blocks f)) = kMemBlockSize * ((fs_size f + kMemBlockSize - 1) div kMemBlockSize)"
    unfolding fs_inv_def using length_concat_blocks [of "fs_blocks f" kMemBlockSize] by simp
  then show ?thesis unfolding kMemBlockSize_def by simp
qed

lemma length_fs_contents [simp]: "fs_inv f \<Longrightarrow> length (fs_contents f) = fs_size f"
  using fs_inv_capacity [of f] by (simp add: fs_contents_def)

lemma FileState_Read_loop_0 [simp]: "FileState_Read_loop bs i off 0 = []"
  by (simp add: FileState_Read_loop.simps [of bs i off 0])

lemma FileState_Read_loop_eq:
  assumes "\<forall>b \<in> set bs. length b = kMemBlockSize" "off < kMemBlockSize"
    and "i * kMemBlockSize + off + n \<le> length (concat bs)"
  shows "FileState_Read_loop bs i off n = take n (drop (i * kMemBlockSize + off) (concat bs))"
  using assms
proof (induction bs i off n rule: FileState_Read_loop.induct)
  case (1 bs i off n)
  show ?case
  proof (cases "n = 0")
    case False
    define m where "m = (if kMemBlockSize - off > n then n else kMemBlockSize - off)"
    have len: "length (concat bs) = kMemBlockSize * length bs"
      using "1.prems"(1) length_concat_blocks by blast
    then have "kMemBlockSize * i < kMemBlockSize * length bs"
      using "1.prems"(3) False mult.commute [of i kMemBlockSize] by linarith
    then have i: "i < length bs" by simp
    have blk: "length (bs ! i) = kMemBlockSize" using "1.prems"(1) i by simp
    have next_block: "(i + 1) * kMemBlockSize \<le> length (concat bs)"
      using i len by (metis Suc_eq_plus1 Suc_leI mult.commute mult_le_mono2)
    have fits: "(i + 1) * kMemBlockSize + 0 + (n - m) \<le> length (concat bs)"
      using "1.prems"(2,3) next_block by (auto simp: m_def algebra_simps)
    have "FileState_Read_loop bs (i + 1) 0 (n - m)
        = take (n - m) (drop ((i + 1) * kMemBlockSize + 0) (concat bs))"
      using False "1.prems"(1,2) fits
      by (intro "1.IH" [OF _ refl m_def]) (auto simp: kMemBlockSize_def)
    also have "drop ((i + 1) * kMemBlockSize + 0) (concat bs) = concat (drop (Suc i) bs)"
      using drop_concat_blocks [OF "1.prems"(1) i, of kMemBlockSize] blk by (simp add: algebra_simps)
    finally have "FileState_Read_loop bs i off n
        = take m (drop off (bs ! i)) @ take (n - m) (concat (drop (Suc i) bs))"
      using False "1.prems"(2) by (simp add: FileState_Read_loop.simps [of bs i off n] m_def Let_def)
    also have "\<dots> = take n (drop off (bs ! i) @ concat (drop (Suc i) bs))"
      using blk by (auto simp: m_def)
    also have "\<dots> = take n (drop (i * kMemBlockSize + off) (concat bs))"
      using drop_concat_blocks [OF "1.prems"(1) i, of off] "1.prems"(2) by simp
    finally show ?thesis .
  qed simp
qed

lemma FileState_Read_eq:
  assumes "fs_inv f" "offset \<le> fs_size f"
  shows "FileState_Read f offset n = (OK, take n (drop offset (fs_contents f)))"
proof -
  define k where "k = (if n > fs_size f - offset then fs_size f - offset else n)"
  have cap: "offset + k \<le> length (concat (fs_blocks f))"
    using fs_inv_capacity [OF assms(1)] assms(2) by (auto simp: k_def)
  have "FileState_Read_loop (fs_blocks f) (offset div kMemBlockSize) (offset mod kMemBlockSize) k
      = take k (drop offset (concat (fs_blocks f)))"
    using FileState_Read_loop_eq [of "fs_blocks f" "offset mod kMemBlockSize" "offset div kMemBlockSize" k]
      assms(1) cap by (simp add: fs_inv_def kMemBlockSize_def)
  also have "\<dots> = take n (drop offset (fs_contents f))"
    using assms(2) by (auto simp: k_def fs_contents_def drop_take)
  finally show ?thesis
    using assms(2) by (auto simp: FileState_Read_def Let_def k_def split: if_splits)
qed

lemma length_overwrite: "off + length src \<le> length dst \<Longrightarrow> length (overwrite dst off src) = length dst"
  by (simp add: overwrite_def)

text \<open>One round of the append loop extends the contents by the bytes it copies.\<close>

lemma append_round:
  assumes "fs_inv f" "m \<le> length src" "0 < m"
    and "offset = fs_size f mod kMemBlockSize" "offset + m \<le> kMemBlockSize"
    and "blocks = (if offset \<noteq> 0 then fs_blocks f else fs_blocks f @ [fresh_block])"
    and "g = f\<lparr>fs_blocks := butlast blocks @ [overwrite (last blocks) offset (take m src)], fs_size := fs_size f + m\<rparr>"
  shows "fs_inv g \<and> fs_contents g = fs_contents f @ take m src"
proof -
  have blen: "\<forall>b \<in> set blocks. length b = kMemBlockSize"
    using assms(1,6) by (auto simp: fs_inv_def fresh_block_def)
  have nblocks: "length blocks = fs_size f div kMemBlockSize + 1"
  proof -
    have "length (fs_blocks f) = (fs_size f + kMemBlockSize - 1) div kMemBlockSize"
      using assms(1) by (simp add: fs_inv_def)
    moreover have "(fs_size f + kMemBlockSize - 1) div kMemBlockSize
        = (if offset \<noteq> 0 then fs_size f div kMemBlockSize + 1 else fs_size f div kMemBlockSize)"
      unfolding assms(4) by (subst ceil_div) (simp_all add: kMemBlockSize_def)
    ultimately show ?thesis using assms(6) by simp
  qed
  then have ne: "blocks \<noteq> []" by auto
  have last: "length (last blocks) = kMemBlockSize" using blen ne by simp
  have pre: "length (concat (butlast blocks)) = fs_size f - offset"
  proof -
    have "length (concat (butlast blocks)) = kMemBlockSize * length (butlast blocks)"
      using blen by (intro length_concat_blocks) (auto dest: in_set_butlastD)
    then show ?thesis using nblocks assms(4) by (simp add: minus_mod_eq_mult_div)
  qed
  have off: "offset \<le> fs_size f" using assms(4) by simp
  have new: "length (overwrite (last blocks) offset (take m src)) = kMemBlockSize"
    using last assms(2,5) by (simp add: length_overwrite)
  have old: "fs_contents f = concat (butlast blocks) @ take offset (last blocks)"
  proof (cases "offset = 0")
    case True
    then have "concat (butlast blocks) = concat (fs_blocks f)" "length (concat (fs_blocks f)) = fs_size f"
      using assms(6) pre by auto
    with True show ?thesis by (simp add: fs_contents_def)
  next
    case False
    then have "fs_blocks f = butlast blocks @ [last blocks]" using assms(6) ne by simp
    then have "concat (fs_blocks f) = concat (butlast blocks) @ last blocks"
      by (metis concat.simps(1,2) append_Nil2 concat_append)
    then show ?thesis using pre off by (simp add: fs_contents_def)
  qed
  have "fs_contents g = concat (butlast blocks) @ take offset (last blocks) @ take m src"
    using pre off assms(2) last assms(5)
    by (simp add: assms(7) fs_contents_def overwrite_def)
  moreover have "fs_inv g"
  proof -
    have "fs_size f + m + kMemBlockSize - 1 = offset + m - 1 + (fs_size f div kMemBlockSize + 1) * kMemBlockSize"
      using assms(3,4) div_mult_mod_eq [of "fs_size f" kMemBlockSize] by (simp add: algebra_simps)
    then have "fs_size f div kMemBlockSize + 1 = (fs_size f + m + kMemBlockSize - 1) div kMemBlockSize"
      using assms(3,5) by (simp add: kMemBlockSize_def)
    then show ?thesis
      using blen new nblocks ne assms(7) by (auto simp: fs_inv_def dest: in_set_butlastD)
  qed
  ultimately show ?thesis using old by simp
qed

lemma FileState_Append_loop_contents:
  "fs_inv f \<Longrightarrow>
   fs_inv (FileState_Append_loop f src) \<and> fs_contents (FileState_Append_loop f src) = fs_contents f @ src"
proof (induction f src rule: FileState_Append_loop.induct)
  case (1 f src)
  show ?case
  proof (cases "0 < length src")
    case True
    define offset where "offset = fs_size f mod kMemBlockSize"
    define blocks where "blocks = (if offset \<noteq> 0 then fs_blocks f else fs_blocks f @ [fresh_block])"
    define avail where "avail = (if offset \<noteq> 0 then kMemBlockSize - offset else kMemBlockSize)"
    define m where "m = (if avail > length src then length src else avail)"
    define g where "g = f\<lparr>fs_blocks := butlast blocks @ [overwrite (last blocks) offset (take m src)],
      fs_size := fs_size f + m\<rparr>"
    have unf: "FileState_Append_loop f src = FileState_Append_loop g (drop m src)"
      using True
      by (simp add: FileState_Append_loop.simps [of f src] Let_def g_def blocks_def offset_def m_def avail_def)
    have "offset < kMemBlockSize" by (simp add: offset_def kMemBlockSize_def)
    then have m: "m \<le> length src" "0 < m" "offset + m \<le> kMemBlockSize"
      using True by (auto simp: m_def avail_def)
    have g: "fs_inv g \<and> fs_contents g = fs_contents f @ take m src"
      by (rule append_round [OF "1.prems" m(1,2) offset_def m(3) blocks_def g_def])
    have "fs_inv (FileState_Append_loop g (drop m src)) \<and>
        fs_contents (FileState_Append_loop g (drop m src)) = fs_contents g @ drop m src"
      using "1.IH" [OF True offset_def blocks_def avail_def m_def refl] g by (simp add: g_def)
    with unf g show ?thesis by simp
  next
    case False
    with "1.prems" show ?thesis by (simp add: FileState_Append_loop.simps [of f "[]"])
  qed
qed

interpretation mem_writable: writable_file WritableFileImpl fs_contents fs_inv
  by unfold_locales
    (auto simp: WritableFileImpl_def FileState_Append_def FileState_Append_loop_contents)

definition ms_unread :: "MemSequentialFile \<Rightarrow> bytes" where
  "ms_unread f = drop (ms_pos f) (fs_contents (ms_file f))"

definition ms_inv :: "MemSequentialFile \<Rightarrow> bool" where
  "ms_inv f \<longleftrightarrow> fs_inv (ms_file f) \<and> ms_pos f \<le> fs_size (ms_file f)"

interpretation mem_sequential: sequential_file SequentialFileImpl ms_unread ms_inv
proof unfold_locales
  fix f n s r f'
  assume "ms_inv f" and "SeqRead SequentialFileImpl f n = (s, r, f')"
  then show "s = OK \<and> r = take n (ms_unread f) \<and> ms_unread f' = drop n (ms_unread f) \<and> ms_inv f'"
    by (auto simp: SequentialFileImpl_def MemSeqRead_def FileState_Read_eq ms_inv_def ms_unread_def min_def add.commute [of "ms_pos f" n])
next
  fix f n s f'
  assume "ms_inv f" and "SeqSkip SequentialFileImpl f n = (s, f')"
  then show "s = OK \<and> ms_unread f' = drop n (ms_unread f) \<and> ms_inv f'"
    by (auto simp: SequentialFileImpl_def MemSeqSkip_def ms_inv_def ms_unread_def Let_def
        add.commute [of "ms_pos f" n] split: if_splits)
qed

interpretation mem_random: random_access_file RandomAccessFileImpl fs_contents fs_inv
  by unfold_locales (simp add: RandomAccessFileImpl_def FileState_Read_eq)

lemma fs_inv_new [simp]: "fs_inv new_FileState" "fs_contents new_FileState = []"
  by (simp_all add: fs_inv_def fs_contents_def new_FileState_def kMemBlockSize_def)

section \<open>The in-memory environment\<close>

text \<open>
  \<open>std::map<std::string, FileState*>\<close> is a list sorted by key; a pointer is an object
  number, \<^const>\<open>None\<close> being \<open>nullptr\<close>. The live \<open>FileState\<close> objects are in the heap, and
  \<open>handles\<close> lists the \<open>FileState*\<close> of every open file object, each of which holds one
  reference. An operation that dereferences \<open>nullptr\<close> or a deleted object returns
  \<^const>\<open>None\<close>.
\<close>

type_synonym FileSystem = "(bytes \<times> nat option) list"

record InMemoryEnv =
  file_map :: FileSystem
  heap :: "nat \<rightharpoonup> FileState"
  next_object :: nat
  handles :: "nat list"

fun fm_insert :: "bytes \<Rightarrow> nat option \<Rightarrow> FileSystem \<Rightarrow> FileSystem" where
  "fm_insert k p [] = [(k, p)]"
| "fm_insert k p ((k', p') # m) =
     (if Slice_compare k k' < 0 then (k, p) # (k', p') # m
      else if k = k' then (k, p) # m
      else (k', p') # fm_insert k p m)"

definition fm_erase :: "bytes \<Rightarrow> FileSystem \<Rightarrow> FileSystem" where
  "fm_erase k m = filter (\<lambda>(k', p). k' \<noteq> k) m"

text \<open>\<open>operator[]\<close>: the pointer stored for a name, a null entry being added when there is none.\<close>

definition fm_index :: "bytes \<Rightarrow> FileSystem \<Rightarrow> nat option \<times> FileSystem" where
  "fm_index k m = (case map_of m k of Some p \<Rightarrow> (p, m) | None \<Rightarrow> (None, fm_insert k None m))"

definition env_ref :: "nat option \<Rightarrow> InMemoryEnv \<Rightarrow> InMemoryEnv option" where
  "env_ref p e =
     (case p of
        None \<Rightarrow> None
      | Some i \<Rightarrow> map_option (\<lambda>f. e\<lparr>heap := (heap e)(i \<mapsto> FileState_Ref f)\<rparr>) (heap e i))"

text \<open>\<open>Unref\<close> asserts that the count does not become negative.\<close>

definition env_unref :: "nat option \<Rightarrow> InMemoryEnv \<Rightarrow> InMemoryEnv option" where
  "env_unref p e =
     (case p of
        None \<Rightarrow> None
      | Some i \<Rightarrow>
          (case heap e i of
             None \<Rightarrow> None
           | Some f \<Rightarrow>
               if fs_refs f - 1 \<ge> 0 then Some (e\<lparr>heap := (heap e)(i := FileState_Unref f)\<rparr>) else None))"

text \<open>The constructor of a file object takes a reference; its destructor gives it back.\<close>

definition open_handle :: "nat option \<Rightarrow> InMemoryEnv \<Rightarrow> (nat \<times> InMemoryEnv) option" where
  "open_handle p e =
     (case p of
        None \<Rightarrow> None
      | Some i \<Rightarrow> map_option (\<lambda>e. (i, e\<lparr>handles := i # handles e\<rparr>)) (env_ref p e))"

definition close_handle :: "nat \<Rightarrow> InMemoryEnv \<Rightarrow> InMemoryEnv option" where
  "close_handle i e = map_option (\<lambda>e. e\<lparr>handles := remove1 i (handles e)\<rparr>) (env_unref (Some i) e)"

definition new_object :: "InMemoryEnv \<Rightarrow> nat \<times> InMemoryEnv" where
  "new_object e =
     (next_object e,
      e\<lparr>heap := (heap e)(next_object e \<mapsto> new_FileState), next_object := next_object e + 1\<rparr>)"

definition NewSequentialFile :: "bytes \<Rightarrow> InMemoryEnv \<Rightarrow> (Status \<times> nat option \<times> InMemoryEnv) option" where
  "NewSequentialFile fname e =
     (case map_of (file_map e) fname of
        None \<Rightarrow> Some (IOError fname (str ''File not found''), None, e)
      | Some p \<Rightarrow> map_option (\<lambda>(i, e). (OK, Some i, e)) (open_handle p e))"

definition NewRandomAccessFile :: "bytes \<Rightarrow> InMemoryEnv \<Rightarrow> (Status \<times> nat option \<times> InMemoryEnv) option" where
  "NewRandomAccessFile fname e =
     (case map_of (file_map e) fname of
        None \<Rightarrow> Some (IOError fname (str ''File not found''), None, e)
      | Some p \<Rightarrow> map_option (\<lambda>(i, e). (OK, Some i, e)) (open_handle p e))"

definition env_truncate :: "nat option \<Rightarrow> InMemoryEnv \<Rightarrow> InMemoryEnv option" where
  "env_truncate p e =
     (case p of
        None \<Rightarrow> None
      | Some i \<Rightarrow> map_option (\<lambda>f. e\<lparr>heap := (heap e)(i \<mapsto> FileState_Truncate f)\<rparr>) (heap e i))"

definition NewWritableFile :: "bytes \<Rightarrow> InMemoryEnv \<Rightarrow> (Status \<times> nat option \<times> InMemoryEnv) option" where
  "NewWritableFile fname e =
     Option.bind
       (case map_of (file_map e) fname of
          None \<Rightarrow>
            (let (i, e) = new_object e
             in map_option (\<lambda>e. (Some i, e\<lparr>file_map := fm_insert fname (Some i) (file_map e)\<rparr>))
                  (env_ref (Some i) e))
        | Some p \<Rightarrow> map_option (\<lambda>e. (p, e)) (env_truncate p e))
       (\<lambda>(p, e). map_option (\<lambda>(i, e). (OK, Some i, e)) (open_handle p e))"

definition NewAppendableFile :: "bytes \<Rightarrow> InMemoryEnv \<Rightarrow> (Status \<times> nat option \<times> InMemoryEnv) option" where
  "NewAppendableFile fname e =
     (let (p, m) = fm_index fname (file_map e);
          e = e\<lparr>file_map := m\<rparr>
      in Option.bind
           (case p of
              None \<Rightarrow> (let (i, e) = new_object e in map_option (\<lambda>e. (Some i, e)) (env_ref (Some i) e))
            | Some i \<Rightarrow> Some (p, e))
           (\<lambda>(p, e). map_option (\<lambda>(i, e). (OK, Some i, e)) (open_handle p e)))"

definition FileExists :: "bytes \<Rightarrow> InMemoryEnv \<Rightarrow> bool" where
  "FileExists fname e = (map_of (file_map e) fname \<noteq> None)"

definition GetChildren :: "bytes \<Rightarrow> InMemoryEnv \<Rightarrow> Status \<times> bytes list" where
  "GetChildren dir e =
     (OK, concat (map (\<lambda>(filename, p).
        if length filename \<ge> length dir + 1 \<and> filename ! length dir = of_char (CHR ''/'') \<and>
           starts_with filename dir
        then [drop (length dir + 1) filename] else []) (file_map e)))"

definition RemoveFileInternal :: "bytes \<Rightarrow> InMemoryEnv \<Rightarrow> InMemoryEnv option" where
  "RemoveFileInternal fname e =
     (case map_of (file_map e) fname of
        None \<Rightarrow> Some e
      | Some p \<Rightarrow> map_option (\<lambda>e. e\<lparr>file_map := fm_erase fname (file_map e)\<rparr>) (env_unref p e))"

definition RemoveFile :: "bytes \<Rightarrow> InMemoryEnv \<Rightarrow> (Status \<times> InMemoryEnv) option" where
  "RemoveFile fname e =
     (case map_of (file_map e) fname of
        None \<Rightarrow> Some (IOError fname (str ''File not found''), e)
      | Some p \<Rightarrow> map_option (\<lambda>e. (OK, e)) (RemoveFileInternal fname e))"

definition GetFileSize :: "bytes \<Rightarrow> InMemoryEnv \<Rightarrow> (Status \<times> nat option) option" where
  "GetFileSize fname e =
     (case map_of (file_map e) fname of
        None \<Rightarrow> Some (IOError fname (str ''File not found''), None)
      | Some p \<Rightarrow>
          (case p of
             None \<Rightarrow> None
           | Some i \<Rightarrow> map_option (\<lambda>f. (OK, Some (fs_size f))) (heap e i)))"

text \<open>
  In \<open>file_map_[target] = file_map_[src]\<close> the right-hand side is evaluated first; either
  \<open>operator[]\<close> may add an entry.
\<close>

definition RenameFile :: "bytes \<Rightarrow> bytes \<Rightarrow> InMemoryEnv \<Rightarrow> (Status \<times> InMemoryEnv) option" where
  "RenameFile src target e =
     (case map_of (file_map e) src of
        None \<Rightarrow> Some (IOError src (str ''File not found''), e)
      | Some p \<Rightarrow>
          map_option
            (\<lambda>e. (let (p, m) = fm_index src (file_map e);
                      m = fm_insert target p m
                  in (OK, e\<lparr>file_map := fm_erase src m\<rparr>)))
            (RemoveFileInternal target e))"

definition handle_append :: "nat \<Rightarrow> bytes \<Rightarrow> InMemoryEnv \<Rightarrow> (Status \<times> InMemoryEnv) option" where
  "handle_append i data e =
     map_option (\<lambda>f. (let (s, f) = FileState_Append f data in (s, e\<lparr>heap := (heap e)(i \<mapsto> f)\<rparr>)))
       (heap e i)"

text \<open>
  The reads of a sequential file object at position \<open>pos\<close>, with its new position, and of a
  random-access file object.
\<close>

definition handle_read :: "nat \<Rightarrow> nat \<Rightarrow> nat \<Rightarrow> InMemoryEnv \<Rightarrow> (Status \<times> bytes \<times> nat) option" where
  "handle_read i pos n e =
     map_option (\<lambda>f. (let (s, r, file) = MemSeqRead \<lparr>ms_file = f, ms_pos = pos\<rparr> n in (s, r, ms_pos file))) (heap e i)"

definition handle_skip :: "nat \<Rightarrow> nat \<Rightarrow> nat \<Rightarrow> InMemoryEnv \<Rightarrow> (Status \<times> nat) option" where
  "handle_skip i pos n e =
     map_option (\<lambda>f. (let (s, file) = MemSeqSkip \<lparr>ms_file = f, ms_pos = pos\<rparr> n in (s, ms_pos file))) (heap e i)"

definition handle_random_read :: "nat \<Rightarrow> nat \<Rightarrow> nat \<Rightarrow> InMemoryEnv \<Rightarrow> (Status \<times> bytes) option" where
  "handle_random_read i offset n e = map_option (\<lambda>f. FileState_Read f offset n) (heap e i)"

text \<open>The destructor gives back the reference of every name; open file objects keep theirs.\<close>

fun unref_all :: "FileSystem \<Rightarrow> InMemoryEnv \<Rightarrow> InMemoryEnv option" where
  "unref_all [] e = Some e"
| "unref_all ((k, p) # m) e = Option.bind (env_unref p e) (unref_all m)"

definition delete_InMemoryEnv :: "InMemoryEnv \<Rightarrow> InMemoryEnv option" where
  "delete_InMemoryEnv e = map_option (\<lambda>e. e\<lparr>file_map := []\<rparr>) (unref_all (file_map e) e)"

text \<open>
  The calls of a client that follow a pointer to a file, one step each: on names, on open file
  objects, and the destructor of the environment.
\<close>

datatype mem_op = OpenSequential bytes | OpenRandomAccess bytes | OpenWritable bytes
  | OpenAppendable bytes | Remove bytes | Rename bytes bytes | SizeOf bytes
  | AppendTo nat bytes | ReadFrom nat nat nat | SkipIn nat nat nat | ReadAt nat nat nat | CloseFile nat
  | DeleteEnv

fun mem_exec :: "mem_op \<Rightarrow> InMemoryEnv \<Rightarrow> InMemoryEnv option" where
  "mem_exec (OpenSequential fname) e = map_option (snd \<circ> snd) (NewSequentialFile fname e)"
| "mem_exec (OpenRandomAccess fname) e = map_option (snd \<circ> snd) (NewRandomAccessFile fname e)"
| "mem_exec (OpenWritable fname) e = map_option (snd \<circ> snd) (NewWritableFile fname e)"
| "mem_exec (OpenAppendable fname) e = map_option (snd \<circ> snd) (NewAppendableFile fname e)"
| "mem_exec (AppendTo i data) e = map_option snd (handle_append i data e)"
| "mem_exec (CloseFile i) e = close_handle i e"
| "mem_exec (Remove fname) e = map_option snd (RemoveFile fname e)"
| "mem_exec (Rename src target) e = map_option snd (RenameFile src target e)"
| "mem_exec (SizeOf fname) e = map_option (\<lambda>_. e) (GetFileSize fname e)"
| "mem_exec (ReadFrom i pos n) e = map_option (\<lambda>_. e) (handle_read i pos n e)"
| "mem_exec (SkipIn i pos n) e = map_option (\<lambda>_. e) (handle_skip i pos n e)"
| "mem_exec (ReadAt i offset n) e = map_option (\<lambda>_. e) (handle_random_read i offset n e)"
| "mem_exec DeleteEnv e = delete_InMemoryEnv e"

text \<open>
  A client uses only files it has open. The other two conditions exclude the calls
  \<open>NewAppendableFile\<close> on a missing file and \<open>RenameFile\<close> of a file onto itself.
\<close>

fun mem_op_ok :: "mem_op \<Rightarrow> InMemoryEnv \<Rightarrow> bool" where
  "mem_op_ok (OpenAppendable fname) e = FileExists fname e"
| "mem_op_ok (AppendTo i data) e = (i \<in> set (handles e))"
| "mem_op_ok (ReadFrom i pos n) e = (i \<in> set (handles e))"
| "mem_op_ok (SkipIn i pos n) e = (i \<in> set (handles e))"
| "mem_op_ok (ReadAt i offset n) e = (i \<in> set (handles e))"
| "mem_op_ok (CloseFile i) e = (i \<in> set (handles e))"
| "mem_op_ok (Rename src target) e = (src \<noteq> target)"
| "mem_op_ok _ e = True"

section \<open>Names, references and live objects agree\<close>

definition map_refs :: "nat \<Rightarrow> FileSystem \<Rightarrow> nat" where
  "map_refs i m = length (filter (\<lambda>(k, p). p = Some i) m)"

definition sorted_map :: "FileSystem \<Rightarrow> bool" where
  "sorted_map m \<longleftrightarrow> sorted_wrt (\<lambda>a b. Slice_compare (fst a) (fst b) < 0) m"

text \<open>
  No name is bound to \<open>nullptr\<close>, no name or open file refers to a deleted object, and the
  reference count of every object is the number of names and open files that refer to it.
\<close>

definition object_ok :: "nat \<Rightarrow> nat \<Rightarrow> FileState option \<Rightarrow> nat \<Rightarrow> bool" where
  "object_ok n i h refs =
     (case h of None \<Rightarrow> refs = 0 | Some f \<Rightarrow> i < n \<and> fs_inv f \<and> 0 < refs \<and> fs_refs f = int refs)"

definition env_inv :: "InMemoryEnv \<Rightarrow> bool" where
  "env_inv e \<longleftrightarrow> sorted_map (file_map e) \<and> None \<notin> snd ` set (file_map e) \<and>
     (\<forall>i. object_ok (next_object e) i (heap e i) (map_refs i (file_map e) + count_list (handles e) i))"

lemma env_inv_object:
  "env_inv e \<Longrightarrow> heap e i = h \<Longrightarrow>
     object_ok (next_object e) i h (map_refs i (file_map e) + count_list (handles e) i)"
  by (auto simp: env_inv_def)

lemma object_ok_Ref: "object_ok n i (Some f) r \<Longrightarrow> object_ok n i (Some (FileState_Ref f)) (Suc r)"
  by (simp add: object_ok_def FileState_Ref_def fs_inv_def)

lemma object_ok_Unref: "object_ok n i (Some f) (Suc r) \<Longrightarrow> object_ok n i (FileState_Unref f) r"
  by (auto simp: object_ok_def FileState_Unref_def Let_def fs_inv_def)

lemma object_ok_refs: "object_ok n i (Some f) r \<Longrightarrow> 0 < fs_refs f"
  by (simp add: object_ok_def)

lemma object_ok_new:
  "object_ok n i None r \<Longrightarrow> object_ok (Suc n) n (Some (FileState_Ref new_FileState)) (Suc r)"
  by (auto simp: object_ok_def FileState_Ref_def new_FileState_def fs_inv_def kMemBlockSize_def)

lemma object_ok_mono: "object_ok n i h r \<Longrightarrow> object_ok (Suc n) i h r"
  by (auto simp: object_ok_def split: option.splits)

lemma object_ok_live: "object_ok n i h r \<Longrightarrow> 0 < r \<Longrightarrow> \<exists>f. h = Some f"
  by (auto simp: object_ok_def split: option.splits)

lemma sorted_map_Cons:
  "sorted_map ((k, p) # m) \<longleftrightarrow> (\<forall>k'\<in>fst ` set m. Slice_compare k k' < 0) \<and> sorted_map m"
  by (auto simp: sorted_map_def)

lemma sorted_map_distinct: "sorted_map m \<Longrightarrow> distinct (map fst m)"
  by (induction m) (force simp: sorted_map_Cons bytewise.less_irrefl [simplified BytewiseComparator_def, simplified])+

lemma fm_insert_set: "fst ` set (fm_insert k p m) = insert k (fst ` set m)"
  by (induction k p m rule: fm_insert.induct) (auto simp: insert_commute)

lemma fm_insert_map_of: "sorted_map m \<Longrightarrow> map_of (fm_insert k p m) = (map_of m)(k \<mapsto> p)"
  by (induction k p m rule: fm_insert.induct) (auto simp: sorted_map_Cons fun_eq_iff Slice_compare_0)

lemma fm_insert_sorted: "sorted_map m \<Longrightarrow> sorted_map (fm_insert k p m)"
proof (induction k p m rule: fm_insert.induct)
  case (2 k p k' p' m)
  have "Slice_compare k' k < 0" if "\<not> Slice_compare k k' < 0" "k \<noteq> k'"
    using that Slice_compare_sign [of k' k] Slice_compare_0 [of k k'] by linarith
  moreover have "Slice_compare k x < 0" if "Slice_compare k k' < 0" "x \<in> fst ` set m" for x
    using that 2 bytewise.less_trans [of k k' x] by (auto simp: sorted_map_Cons BytewiseComparator_def)
  ultimately show ?case
    using 2 by (auto simp: sorted_map_Cons fm_insert_set)
qed (simp add: sorted_map_def)

lemma fm_insert_refs:
  "map_of m k = None \<Longrightarrow> map_refs i (fm_insert k p m) = map_refs i m + (if p = Some i then 1 else 0)"
  by (induction k p m rule: fm_insert.induct) (auto simp: map_refs_def split: if_splits)

lemma fm_insert_snd: "snd ` set (fm_insert k p m) \<subseteq> insert p (snd ` set m)"
  by (induction k p m rule: fm_insert.induct) auto

lemma fm_erase_sorted: "sorted_map m \<Longrightarrow> sorted_map (fm_erase k m)"
  by (auto simp: sorted_map_def fm_erase_def sorted_wrt_filter)

lemma fm_erase_map_of: "map_of (fm_erase k m) = (map_of m)(k := None)"
  by (induction m) (auto simp: fm_erase_def)

lemma fm_erase_idle: "map_of m k = None \<Longrightarrow> fm_erase k m = m"
  by (induction m) (auto simp: fm_erase_def split: if_splits)

lemma fm_erase_refs:
  "sorted_map m \<Longrightarrow> map_of m k = Some p \<Longrightarrow>
     map_refs i m = map_refs i (fm_erase k m) + (if p = Some i then 1 else 0)"
proof (induction m)
  case (Cons a m)
  obtain k' p' where a: "a = (k', p')" by fastforce
  show ?case
  proof (cases "k' = k")
    case True
    then have "map_of m k = None"
      using Cons.prems sorted_map_distinct [OF Cons.prems(1)] by (auto simp: a map_of_eq_None_iff)
    then show ?thesis
      using True Cons.prems fm_erase_idle [of m k] by (auto simp: a map_refs_def fm_erase_def)
  next
    case False
    then show ?thesis
      using Cons by (auto simp: a map_refs_def fm_erase_def sorted_map_Cons)
  qed
qed simp

lemma fm_erase_snd: "snd ` set (fm_erase k m) \<subseteq> snd ` set m"
  by (auto simp: fm_erase_def)

lemmas fm_simps = fm_insert_map_of fm_insert_sorted fm_insert_refs fm_erase_sorted fm_erase_map_of

lemma env_inv_lookup:
  assumes "env_inv e" "map_of (file_map e) k = Some p"
  obtains i f where "p = Some i" "heap e i = Some f"
proof -
  have "(k, p) \<in> set (file_map e)" using assms(2) by (rule map_of_SomeD)
  then obtain i where p: "p = Some i" and m: "0 < map_refs i (file_map e)"
    using assms(1) by (cases p) (force simp: env_inv_def map_refs_def filter_empty_conv)+
  then obtain f where "heap e i = Some f"
    using assms(1) object_ok_live unfolding env_inv_def by (metis add_gr_0)
  with p show thesis by (rule that)
qed

lemma env_inv_handle:
  assumes "env_inv e" "i \<in> set (handles e)"
  obtains f where "heap e i = Some f"
proof -
  have "0 < count_list (handles e) i" using assms(2) count_list_0_iff [of "handles e" i] by simp
  then show thesis using assms(1) object_ok_live that unfolding env_inv_def by (metis add_gr_0)
qed

lemma open_handle_inv:
  assumes "env_inv e" "heap e i = Some f"
  shows "\<exists>e'. open_handle (Some i) e = Some (i, e') \<and> env_inv e' \<and> file_map e' = file_map e \<and>
    heap e' = (heap e)(i \<mapsto> FileState_Ref f)"
  using assms object_ok_Ref [OF env_inv_object [OF assms]]
  by (auto simp: open_handle_def env_ref_def env_inv_def)

lemma close_handle_inv:
  assumes "env_inv e" "i \<in> set (handles e)"
  shows "\<exists>e'. close_handle i e = Some e' \<and> env_inv e' \<and> file_map e' = file_map e"
proof -
  obtain f where f: "heap e i = Some f" using env_inv_handle [OF assms] .
  have c1: "count_list hs i = Suc (count_list (remove1 i hs) i)" if "i \<in> set hs" for hs
    using that by (induction hs) auto
  have c2: "count_list (remove1 i hs) j = count_list hs j" if "j \<noteq> i" for j hs
    using that by (induction hs) auto
  have "object_ok (next_object e) i (FileState_Unref f)
     (map_refs i (file_map e) + count_list (remove1 i (handles e)) i)"
    using env_inv_object [OF assms(1) f] by (intro object_ok_Unref) (simp only: c1 [OF assms(2)] add_Suc_right)
  moreover have "object_ok (next_object e) j (heap e j)
     (map_refs j (file_map e) + count_list (remove1 i (handles e)) j)" if "j \<noteq> i" for j
    unfolding c2 [OF that] by (rule env_inv_object [OF assms(1) refl])
  ultimately show ?thesis
    using assms(1) f object_ok_refs [OF env_inv_object [OF assms(1) f]]
    by (auto simp: close_handle_def env_unref_def env_inv_def)
qed

lemma open_existing_inv:
  assumes "env_inv e" "map_of (file_map e) k = Some p"
  shows "\<exists>i e'. open_handle p e = Some (i, e') \<and> env_inv e'"
  using assms env_inv_lookup [OF assms] open_handle_inv [OF assms(1)] by metis

lemma env_truncate_inv:
  assumes "env_inv e" "map_of (file_map e) k = Some p"
  shows "\<exists>e'. env_truncate p e = Some e' \<and> env_inv e' \<and> file_map e' = file_map e"
proof -
  obtain i f where "p = Some i" "heap e i = Some f" using env_inv_lookup [OF assms] .
  moreover from this have "object_ok n i (Some f) r \<Longrightarrow> object_ok n i (Some (FileState_Truncate f)) r" for n r
    by (simp add: object_ok_def FileState_Truncate_def fs_inv_def kMemBlockSize_def)
  ultimately show ?thesis
    using assms(1) env_inv_object [OF assms(1), of i "Some f"] by (auto simp: env_truncate_def env_inv_def)
qed

lemma handle_append_inv:
  assumes "env_inv e" "i \<in> set (handles e)"
  shows "\<exists>e'. handle_append i data e = Some (OK, e') \<and> env_inv e'"
proof -
  obtain f where f: "heap e i = Some f" using env_inv_handle [OF assms] .
  have "fs_refs (FileState_Append_loop f data) = fs_refs f" for f
    by (induction f data rule: FileState_Append_loop.induct)
      (subst FileState_Append_loop.simps, simp add: Let_def)
  then have "object_ok n i (Some f) r \<Longrightarrow> object_ok n i (Some (FileState_Append_loop f data)) r" for n r
    using FileState_Append_loop_contents [of f data] by (simp add: object_ok_def)
  with f show ?thesis
    using assms(1) env_inv_object [OF assms(1) f]
    by (auto simp: handle_append_def FileState_Append_def env_inv_def)
qed

text \<open>A new object bound to a new name, before it is opened.\<close>

lemma create_inv:
  assumes "env_inv e" "map_of (file_map e) k = None" "new_object e = (i, e1)" "env_ref (Some i) e1 = Some e2"
  shows "env_inv (e2\<lparr>file_map := fm_insert k (Some i) (file_map e2)\<rparr>)"
proof -
  have "heap e (next_object e) = None"
    using env_inv_object [OF assms(1) refl, of "next_object e"]
    by (auto simp: object_ok_def split: option.splits)
  then have "object_ok (next_object e) (next_object e) None
      (map_refs (next_object e) (file_map e) + count_list (handles e) (next_object e))"
    by (rule env_inv_object [OF assms(1)])
  moreover have "None \<notin> snd ` set (fm_insert k (Some i) (file_map e))"
    using assms(1) fm_insert_snd [of k "Some i" "file_map e"] by (auto simp: env_inv_def)
  ultimately show ?thesis
    using assms by (auto simp: env_inv_def new_object_def env_ref_def fm_simps object_ok_mono intro: object_ok_new)
qed

lemma NewWritableFile_inv:
  assumes "env_inv e"
  shows "\<exists>i e'. NewWritableFile k e = Some (OK, Some i, e') \<and> env_inv e'"
proof (cases "map_of (file_map e) k")
  case None
  obtain i e1 e2 where n: "new_object e = (i, e1)" "env_ref (Some i) e1 = Some e2"
    by (auto simp: new_object_def env_ref_def)
  let ?e = "e2\<lparr>file_map := fm_insert k (Some i) (file_map e2)\<rparr>"
  have inv: "env_inv ?e" by (rule create_inv [OF assms None n])
  have "sorted_map (file_map e2)"
    using assms n by (auto simp: env_inv_def new_object_def env_ref_def)
  then have "map_of (file_map ?e) k = Some (Some i)" by (simp add: fm_simps)
  from open_existing_inv [OF inv this] show ?thesis
    using None n by (auto simp: NewWritableFile_def)
next
  case (Some p)
  obtain e1 where e1: "env_truncate p e = Some e1" "env_inv e1" "file_map e1 = file_map e"
    using env_truncate_inv [OF assms Some] by auto
  with open_existing_inv [OF e1(2), of k p] Some show ?thesis
    by (auto simp: NewWritableFile_def)
qed

lemma RemoveFileInternal_inv:
  assumes "env_inv e"
  shows "\<exists>e'. RemoveFileInternal k e = Some e' \<and> env_inv e' \<and> file_map e' = fm_erase k (file_map e)"
proof (cases "map_of (file_map e) k")
  case None
  then show ?thesis using assms by (simp add: RemoveFileInternal_def fm_erase_idle)
next
  case (Some p)
  obtain i f where p: "p = Some i" and f: "heap e i = Some f"
    using env_inv_lookup [OF assms Some] .
  have s: "sorted_map (file_map e)" using assms by (simp add: env_inv_def)
  let ?n = "\<lambda>j. map_refs j (fm_erase k (file_map e)) + count_list (handles e) j"
  have "object_ok (next_object e) i (FileState_Unref f) (?n i)"
    using env_inv_object [OF assms f] p fm_erase_refs [OF s Some, of i] by (simp add: object_ok_Unref)
  moreover have "object_ok (next_object e) j (heap e j) (?n j)" if "j \<noteq> i" for j
    using env_inv_object [OF assms refl, of j] p that fm_erase_refs [OF s Some, of j] by simp
  ultimately show ?thesis
    using assms Some f p fm_erase_snd [of k "file_map e"] object_ok_refs [OF env_inv_object [OF assms f]]
    by (auto simp: RemoveFileInternal_def env_unref_def env_inv_def fm_simps)
qed

lemma RenameFile_inv:
  assumes "env_inv e" "src \<noteq> target"
  shows "\<exists>s e'. RenameFile src target e = Some (s, e') \<and> env_inv e'"
proof (cases "map_of (file_map e) src")
  case None
  then show ?thesis using assms by (simp add: RenameFile_def)
next
  case (Some p)
  obtain e1 where e1: "RemoveFileInternal target e = Some e1" "env_inv e1" "file_map e1 = fm_erase target (file_map e)"
    using RemoveFileInternal_inv [OF assms(1)] by blast
  let ?m = "fm_insert target p (file_map e1)"
  have s: "sorted_map (file_map e1)" using e1(2) by (simp add: env_inv_def)
  have src: "map_of (file_map e1) src = Some p" and tgt: "map_of (file_map e1) target = None"
    using Some assms(2) by (simp_all add: e1(3) fm_erase_map_of)
  have m: "map_refs i (fm_erase src ?m) = map_refs i (file_map e1)" for i
    using fm_erase_refs [of ?m src p i] fm_insert_refs [OF tgt, of i p] s src assms(2)
    by (simp add: fm_simps)
  obtain j where j: "p = Some j" using env_inv_lookup [OF e1(2) src] .
  have "None \<notin> snd ` set (fm_erase src ?m)"
    using fm_erase_snd [of src ?m] fm_insert_snd [of target p "file_map e1"] e1(2) j
    by (auto simp: env_inv_def)
  then have "env_inv (e1\<lparr>file_map := fm_erase src ?m\<rparr>)"
    using e1(2) s m by (auto simp: env_inv_def fm_simps)
  then show ?thesis
    using Some e1(1) src by (auto simp: RenameFile_def fm_index_def)
qed

lemma GetFileSize_inv:
  assumes "env_inv e"
  shows "\<exists>r. GetFileSize k e = Some r"
proof (cases "map_of (file_map e) k")
  case (Some p)
  obtain i f where "p = Some i" "heap e i = Some f" using env_inv_lookup [OF assms Some] .
  with Some show ?thesis by (simp add: GetFileSize_def)
qed (simp add: GetFileSize_def)

lemma handle_reads_inv:
  assumes "env_inv e" "i \<in> set (handles e)"
  shows "\<exists>r. handle_read i pos n e = Some r" "\<exists>r. handle_skip i pos n e = Some r"
    "\<exists>r. handle_random_read i offset n e = Some r"
proof -
  obtain f where f: "heap e i = Some f" using env_inv_handle [OF assms] .
  show "\<exists>r. handle_read i pos n e = Some r" "\<exists>r. handle_skip i pos n e = Some r"
    "\<exists>r. handle_random_read i offset n e = Some r"
    unfolding handle_read_def handle_skip_def handle_random_read_def f option.map by blast+
qed

lemma unref_all_inv:
  assumes "env_inv (e\<lparr>file_map := m\<rparr>)"
  shows "\<exists>e'. unref_all m e = Some e' \<and> env_inv (e'\<lparr>file_map := []\<rparr>)"
  using assms
proof (induction m arbitrary: e)
  case (Cons kp m)
  obtain k p where kp: "kp = (k, p)" by (cases kp)
  let ?e = "e\<lparr>file_map := kp # m\<rparr>"
  have "map_of (file_map ?e) k = Some p" by (simp add: kp)
  from env_inv_lookup [OF Cons.prems this] obtain i f where i: "p = Some i" "heap e i = Some f" by auto
  have ok: "object_ok (next_object e) i (Some f) (Suc (map_refs i m + count_list (handles e) i))"
    using env_inv_object [OF Cons.prems, of i] i by (simp add: kp map_refs_def)
  let ?e1 = "e\<lparr>heap := (heap e)(i := FileState_Unref f)\<rparr>"
  have un: "env_unref p e = Some ?e1"
    using ok i by (simp add: env_unref_def object_ok_def)
  have "object_ok (next_object e) j (heap e j) (map_refs j m + count_list (handles e) j)" if "j \<noteq> i" for j
    using env_inv_object [OF Cons.prems refl, of j] that i by (simp add: kp map_refs_def)
  then have "env_inv (?e1\<lparr>file_map := m\<rparr>)"
    using Cons.prems object_ok_Unref [OF ok] by (auto simp: env_inv_def kp sorted_map_def)
  from Cons.IH [OF this] un show ?case by (simp add: kp)
qed simp

lemma delete_InMemoryEnv_inv: "env_inv e \<Longrightarrow> \<exists>e'. delete_InMemoryEnv e = Some e' \<and> env_inv e'"
  using unref_all_inv [of "file_map e" e] by (auto simp: delete_InMemoryEnv_def)

text \<open>
  C15. Reference counting is exact. On a file system whose names, open files and reference
  counts agree, every call that follows a pointer to a file (opening, removing, renaming and
  asking for the size of a name, reading, skipping, appending and closing of an open file, and
  the destructor of the environment), other than appending to a missing file and renaming a file
  onto itself, runs without a null pointer, a deleted file object or a negative reference count,
  and leaves names, open files and reference counts in agreement.
\<close>

theorem mem_env_safe:
  assumes "env_inv e" "mem_op_ok op e"
  shows "\<exists>e'. mem_exec op e = Some e' \<and> env_inv e'"
proof (cases op)
  case (OpenSequential k)
  then show ?thesis
    using assms open_existing_inv [OF assms(1), of k]
    by (cases "map_of (file_map e) k") (auto simp: NewSequentialFile_def)
next
  case (OpenRandomAccess k)
  then show ?thesis
    using assms open_existing_inv [OF assms(1), of k]
    by (cases "map_of (file_map e) k") (auto simp: NewRandomAccessFile_def)
next
  case (OpenWritable k)
  then show ?thesis using NewWritableFile_inv [OF assms(1), of k] by auto
next
  case (OpenAppendable k)
  then obtain p where p: "map_of (file_map e) k = Some p" using assms by (auto simp: FileExists_def)
  then obtain i f where "p = Some i" using env_inv_lookup [OF assms(1) p] by metis
  then show ?thesis
    using OpenAppendable p open_existing_inv [OF assms(1) p]
    by (auto simp: NewAppendableFile_def fm_index_def)
next
  case (AppendTo i data)
  then show ?thesis using handle_append_inv [OF assms(1)] assms(2) by fastforce
next
  case (CloseFile i)
  then show ?thesis using close_handle_inv [OF assms(1)] assms(2) by fastforce
next
  case (Remove k)
  then show ?thesis
    using RemoveFileInternal_inv [OF assms(1), of k] assms(1)
    by (cases "map_of (file_map e) k") (auto simp: RemoveFile_def)
next
  case (Rename src target)
  then show ?thesis using RenameFile_inv [OF assms(1)] assms(2) by fastforce
next
  case (SizeOf k)
  then show ?thesis using GetFileSize_inv [OF assms(1), of k] assms(1) by auto
next
  case DeleteEnv
  then show ?thesis using delete_InMemoryEnv_inv [OF assms(1)] by simp
next
  case (ReadFrom i pos n)
  then show ?thesis using handle_reads_inv(1) [OF assms(1)] assms by auto
next
  case (SkipIn i pos n)
  then show ?thesis using handle_reads_inv(2) [OF assms(1)] assms by auto
next
  case (ReadAt i offset n)
  then show ?thesis using handle_reads_inv(3) [OF assms(1)] assms by auto
qed

definition empty_env :: InMemoryEnv where
  "empty_env = \<lparr>file_map = [], heap = Map.empty, next_object = 0, handles = []\<rparr>"

lemma empty_env_inv: "env_inv empty_env"
  by (simp add: env_inv_def empty_env_def sorted_map_def map_refs_def object_ok_def)

text \<open>The bytes a name stands for.\<close>

definition contents_of :: "InMemoryEnv \<Rightarrow> bytes \<Rightarrow> bytes option" where
  "contents_of e k =
     (case map_of (file_map e) k of
        Some (Some i) \<Rightarrow> map_option fs_contents (heap e i)
      | _ \<Rightarrow> None)"

text \<open>
  C29. Renaming moves the contents. On a consistent file system, renaming an existing file to a
  different name succeeds: the new name has the contents the old one had, the old name is
  gone, and no other name changes.
\<close>

theorem rename_moves:
  assumes "env_inv e" "FileExists src e" "src \<noteq> target"
  shows "\<exists>e'. RenameFile src target e = Some (OK, e') \<and> env_inv e' \<and>
    contents_of e' target = contents_of e src \<and> \<not> FileExists src e' \<and>
    (\<forall>k. k \<noteq> src \<and> k \<noteq> target \<longrightarrow> map_of (file_map e') k = map_of (file_map e) k)"
proof -
  obtain p where p: "map_of (file_map e) src = Some p" using assms(2) by (auto simp: FileExists_def)
  obtain i f where i: "p = Some i" "heap e i = Some f" using env_inv_lookup [OF assms(1) p] .
  obtain e1 where e1: "RemoveFileInternal target e = Some e1" "env_inv e1"
      "file_map e1 = fm_erase target (file_map e)"
    using RemoveFileInternal_inv [OF assms(1)] by blast
  have src: "map_of (file_map e1) src = Some p"
    using p assms(3) by (simp add: e1(3) fm_erase_map_of)
  obtain f1 where f1: "heap e1 i = Some f1" using env_inv_lookup [OF e1(2) src] i by auto
  have "fs_contents f1 = fs_contents f"
    using e1(1) f1 i(2)
    by (auto simp: RemoveFileInternal_def env_unref_def FileState_Unref_def Let_def fs_contents_def
        split: option.splits if_splits)
  moreover have "sorted_map (file_map e1)" using e1(2) by (simp add: env_inv_def)
  moreover obtain e' where "RenameFile src target e = Some (OK, e')" "env_inv e'"
      "e' = e1\<lparr>file_map := fm_erase src (fm_insert target p (file_map e1))\<rparr>"
    using RenameFile_inv [OF assms(1, 3)] p src e1(1) by (auto simp: RenameFile_def fm_index_def)
  ultimately show ?thesis
    using p i f1 assms(3)
    by (auto simp: contents_of_def FileExists_def fm_simps e1(3))
qed

definition one_file_env :: InMemoryEnv where
  "one_file_env = snd (snd (the (NewWritableFile (str ''a'') empty_env)))"

lemma one_file_env_eq:
  "one_file_env = \<lparr>file_map = [(str ''a'', Some 0)], heap = [0 \<mapsto> \<lparr>fs_refs = 2, fs_blocks = [], fs_size = 0\<rparr>],
     next_object = 1, handles = [0]\<rparr>"
  by (simp add: one_file_env_def NewWritableFile_def empty_env_def new_object_def env_ref_def
      open_handle_def FileState_Ref_def new_FileState_def)

lemma one_file_env_inv: "env_inv one_file_env" "FileExists (str ''a'') one_file_env"
proof -
  show "env_inv one_file_env"
    using NewWritableFile_inv [OF empty_env_inv, of "str ''a''"] by (auto simp: one_file_env_def)
  show "FileExists (str ''a'') one_file_env"
    by (simp add: FileExists_def one_file_env_eq)
qed

theorem mem_env_safe_witness:
  "(\<exists>e'. mem_exec (OpenWritable (str ''a'')) empty_env = Some e' \<and> env_inv e') \<and>
   (\<exists>e'. mem_exec (ReadFrom 0 0 10) one_file_env = Some e' \<and> env_inv e') \<and>
   (\<exists>e'. mem_exec DeleteEnv one_file_env = Some e' \<and> env_inv e')"
  using mem_env_safe [OF empty_env_inv, of "OpenWritable (str ''a'')"]
    mem_env_safe [OF one_file_env_inv(1), of "ReadFrom 0 0 10"] mem_env_safe [OF one_file_env_inv(1), of DeleteEnv]
  by (simp add: one_file_env_eq)

theorem rename_moves_witness:
  "env_inv one_file_env \<and> FileExists (str ''a'') one_file_env \<and> str ''a'' \<noteq> str ''b'' \<and>
    (\<exists>e'. RenameFile (str ''a'') (str ''b'') one_file_env = Some (OK, e') \<and> env_inv e' \<and>
      contents_of e' (str ''b'') = contents_of one_file_env (str ''a'') \<and> \<not> FileExists (str ''a'') e')"
  using rename_moves [OF one_file_env_inv, of "str ''b''"] one_file_env_inv by (auto simp: str_def)

text \<open>
  C32. The two excluded calls misbehave. Opening a missing file for appending succeeds but binds
  its name to a null pointer: the file exists, yet opening it for reading, asking for its
  size and removing it each dereference that pointer. Renaming an existing file onto itself
  succeeds and deletes the file.
\<close>

theorem append_and_self_rename_defects:
  assumes "env_inv e"
  shows "(\<not> FileExists k e \<longrightarrow>
      (\<exists>i e'. NewAppendableFile k e = Some (OK, Some i, e') \<and> FileExists k e' \<and>
        NewSequentialFile k e' = None \<and> GetFileSize k e' = None \<and> RemoveFile k e' = None)) \<and>
    (FileExists k e \<longrightarrow> (\<exists>e'. RenameFile k k e = Some (OK, e') \<and> \<not> FileExists k e'))"
proof (intro conjI impI)
  show "\<exists>i e'. NewAppendableFile k e = Some (OK, Some i, e') \<and> FileExists k e' \<and>
      NewSequentialFile k e' = None \<and> GetFileSize k e' = None \<and> RemoveFile k e' = None"
    if "\<not> FileExists k e"
    using assms that by (auto simp: NewAppendableFile_def FileExists_def fm_index_def new_object_def env_ref_def
        open_handle_def NewSequentialFile_def GetFileSize_def RemoveFile_def RemoveFileInternal_def
        env_unref_def env_inv_def fm_simps)
  show "\<exists>e'. RenameFile k k e = Some (OK, e') \<and> \<not> FileExists k e'"
    if "FileExists k e"
    using that RemoveFileInternal_inv [OF assms, of k]
    by (auto simp: RenameFile_def FileExists_def fm_erase_map_of split: prod.splits)
qed

theorem append_and_self_rename_defects_witness:
  "(\<exists>i e'. NewAppendableFile (str ''a'') empty_env = Some (OK, Some i, e') \<and>
      NewSequentialFile (str ''a'') e' = None) \<and>
   (\<exists>e'. RenameFile (str ''a'') (str ''a'') one_file_env = Some (OK, e') \<and> \<not> FileExists (str ''a'') e')"
  using append_and_self_rename_defects [OF empty_env_inv, of "str ''a''"]
    append_and_self_rename_defects [OF one_file_env_inv(1), of "str ''a''"] one_file_env_inv(2)
  by (auto simp: FileExists_def empty_env_def)

end
