(* ===== verification/Logging.thy ===== *)
theory Logging
  imports Prelude
begin

text \<open>
  \<open>util/logging.cc\<close>: decimal numbers and escaped strings. Parsing a number is characterised
  completely, overflow included, and shown to invert printing.
\<close>

section \<open>Printing\<close>

text \<open>The conversion \<open>%llu\<close> of \<open>snprintf\<close>.\<close>

fun decimal :: "nat \<Rightarrow> bytes" where
  "decimal n = (if n < 10 then [0x30 + of_nat n] else decimal (n div 10) @ [0x30 + of_nat (n mod 10)])"

declare decimal.simps [simp del]

definition AppendNumberTo :: "bytes \<Rightarrow> u64 \<Rightarrow> bytes" where
  "AppendNumberTo s num = s @ decimal (unat num)"

definition NumberToString :: "u64 \<Rightarrow> bytes" where
  "NumberToString num = AppendNumberTo [] num"

definition hex_digit :: "nat \<Rightarrow> byte" where
  "hex_digit n = (if n < 10 then 0x30 + of_nat n else 0x61 + of_nat (n - 10))"

text \<open>\<open>char\<close> is signed: bytes from \<open>0x80\<close> on are below \<open>' '\<close> and are escaped.\<close>

definition escape_byte :: "byte \<Rightarrow> bytes" where
  "escape_byte c =
     (if sint c \<ge> 0x20 \<and> sint c \<le> 0x7e then [c]
      else [0x5c, 0x78, hex_digit (unat c div 16), hex_digit (unat c mod 16)])"

definition AppendEscapedStringTo :: "bytes \<Rightarrow> bytes \<Rightarrow> bytes" where
  "AppendEscapedStringTo s value = foldl (\<lambda>s c. s @ escape_byte c) s value"

definition EscapeString :: "bytes \<Rightarrow> bytes" where
  "EscapeString value = AppendEscapedStringTo [] value"

section \<open>Parsing\<close>

definition kMaxUint64 :: u64 where
  "kMaxUint64 = - 1"

definition kLastDigitOfMaxUint64 :: byte where
  "kLastDigitOfMaxUint64 = 0x30 + ucast (kMaxUint64 mod 10)"

text \<open>The \<open>for\<close> loop; \<^const>\<open>None\<close> is the early return on overflow.\<close>

fun consume_loop :: "u64 \<Rightarrow> bytes \<Rightarrow> (u64 \<times> bytes) option" where
  "consume_loop value [] = Some (value, [])"
| "consume_loop value (ch # rest) =
     (if ch < 0x30 \<or> ch > 0x39 then Some (value, ch # rest)
      else if value > kMaxUint64 div 10 \<or> (value = kMaxUint64 div 10 \<and> ch > kLastDigitOfMaxUint64)
      then None
      else consume_loop (value * 10 + (ucast ch - 0x30)) rest)"

text \<open>The flag, the value stored in \<open>*val\<close> if any, and the remaining input.\<close>

definition ConsumeDecimalNumber :: "bytes \<Rightarrow> bool \<times> u64 option \<times> bytes" where
  "ConsumeDecimalNumber inp =
     (case consume_loop 0 inp of
        None \<Rightarrow> (False, None, inp)
      | Some (value, rest) \<Rightarrow> (length inp - length rest \<noteq> 0, Some value, rest))"

section \<open>Lemmas\<close>

definition digit :: "byte \<Rightarrow> bool" where
  "digit ch \<longleftrightarrow> 0x30 \<le> ch \<and> ch \<le> 0x39"

definition digits_value :: "nat \<Rightarrow> bytes \<Rightarrow> nat" where
  "digits_value v ds = foldl (\<lambda>v ch. v * 10 + (unat ch - 0x30)) v ds"

lemma digits_value_ge: "v \<le> digits_value v ds"
proof (induction ds arbitrary: v)
  case (Cons a ds)
  then have "v * 10 + (unat a - 0x30) \<le> digits_value v (a # ds)" by (simp add: digits_value_def)
  then show ?case by linarith
qed (simp add: digits_value_def)

lemma digit_unat: "digit ch \<longleftrightarrow> 48 \<le> unat ch \<and> unat ch \<le> 57"
  by (simp add: digit_def word_le_nat_alt)

lemma overflow_check:
  assumes "digit ch"
  shows "(value > kMaxUint64 div 10 \<or> (value = kMaxUint64 div 10 \<and> ch > kLastDigitOfMaxUint64)) \<longleftrightarrow>
    unat value * 10 + (unat ch - 0x30) \<ge> 2 ^ 64"
proof -
  have "kMaxUint64 div 10 = 1844674407370955161" "kLastDigitOfMaxUint64 = 0x35"
    by (simp_all add: kMaxUint64_def kLastDigitOfMaxUint64_def)
  then show ?thesis
    using assms unfolding digit_unat by (auto simp: word_less_nat_alt unat_arith_simps)
qed

lemma next_value:
  fixes "value" :: u64
  assumes "digit ch" "unat value * 10 + (unat ch - 0x30) < 2 ^ 64"
  shows "unat (value * 10 + (ucast ch - 0x30)) = unat value * 10 + (unat ch - 0x30)"
proof -
  have c: "unat (ucast ch - 0x30 :: u64) = unat ch - 0x30"
    using assms(1) by (subst unat_sub) (auto simp: digit_unat word_le_nat_alt unat_ucast_up)
  have "unat (value * 10 :: u64) = unat value * 10"
    using assms(2) by (simp add: unat_word_ariths)
  with c assms(2) show ?thesis by (simp add: unat_word_ariths)
qed

lemma consume_loop_eq:
  "consume_loop value inp =
    (if digits_value (unat value) (takeWhile digit inp) < 2 ^ 64
     then Some (of_nat (digits_value (unat value) (takeWhile digit inp)), dropWhile digit inp)
     else None)"
proof (induction inp arbitrary: "value")
  case Nil
  show ?case using unat_bound [of "value"] by (simp add: digits_value_def)
next
  case (Cons ch rest)
  show ?case
  proof (cases "digit ch")
    case False
    then show ?thesis
      using unat_bound [of "value"] by (auto simp: digit_def digits_value_def not_le)
  next
    case True
    let ?v = "unat value * 10 + (unat ch - 0x30)"
    have d: "\<not> (ch < 0x30 \<or> ch > 0x39)" using True by (auto simp: digit_def)
    have v: "digits_value (unat value) (ch # ds) = digits_value ?v ds" for ds
      by (simp add: digits_value_def)
    show ?thesis
    proof (cases "?v < 2 ^ 64")
      case False
      then show ?thesis
        using d overflow_check [OF True, of "value"] digits_value_ge [of ?v "takeWhile digit rest"]
        by (simp add: True v)
    next
      case v_ok: True
      then show ?thesis
        using d overflow_check [OF True, of "value"] next_value [OF True v_ok] Cons
        by (auto simp: True v)
    qed
  qed
qed

text \<open>
  C30. The decimal parser computes the value of the longest digit prefix of its input and
  leaves the rest, exactly when there is at least one digit and the value fits in 64 bits;
  when it does not fit the input is left alone and no value is stored.
\<close>

theorem ConsumeDecimalNumber_spec:
  "ConsumeDecimalNumber inp =
    (if digits_value 0 (takeWhile digit inp) < 2 ^ 64
     then (takeWhile digit inp \<noteq> [], Some (of_nat (digits_value 0 (takeWhile digit inp))),
           dropWhile digit inp)
     else (False, None, inp))"
proof -
  have "length (takeWhile digit inp) + length (dropWhile digit inp) = length inp"
    by (metis length_append takeWhile_dropWhile_id)
  then have "length inp - length (dropWhile digit inp) \<noteq> 0 \<longleftrightarrow> takeWhile digit inp \<noteq> []"
    using length_0_conv [of "takeWhile digit inp"] by linarith
  then show ?thesis by (simp add: ConsumeDecimalNumber_def consume_loop_eq)
qed

lemma digits_value_append: "digits_value v (ds @ es) = digits_value (digits_value v ds) es"
  by (simp add: digits_value_def)

lemma digit_of_nat: "n < 10 \<Longrightarrow> digit (0x30 + of_nat n) \<and> unat (0x30 + of_nat n :: byte) = 0x30 + n"
  by (simp add: digit_unat unat_word_ariths unat_of_nat)

lemma decimal_digits: "(\<forall>ch \<in> set (decimal n). digit ch) \<and> digits_value 0 (decimal n) = n \<and> decimal n \<noteq> []"
proof (induction n rule: decimal.induct)
  case (1 n)
  then show ?case
    using digit_of_nat [of n] digit_of_nat [of "n mod 10"]
    by (subst (1 2 3) decimal.simps) (auto simp: digits_value_append digits_value_def)
qed

text \<open>Printing and parsing a number in a longer string, as the file-name code does.\<close>

lemma Consume_decimal:
  assumes "rest = [] \<or> \<not> digit (hd rest)"
  shows "ConsumeDecimalNumber (decimal (unat n) @ rest) = (True, Some n, rest)"
proof -
  have t: "takeWhile digit (decimal (unat n) @ rest) = decimal (unat n)"
    and d: "dropWhile digit (decimal (unat n) @ rest) = rest"
    using assms decimal_digits [of "unat n"] by (cases rest; simp add: takeWhile_append dropWhile_append)+
  have l: "length (decimal (unat n)) > 0" using decimal_digits [of "unat n"] by simp
  show ?thesis
    using decimal_digits [of "unat n"] unat_bound [of n] l
    by (simp add: ConsumeDecimalNumber_def consume_loop_eq t d)
qed

end
