(* ===== verification/Log.thy ===== *)
theory Log
  imports Crc32c MemEnv Logging
begin

text \<open>
  \<open>db/log_format.h\<close>, \<open>db/log_writer.cc\<close> and \<open>db/log_reader.cc\<close>: the write-ahead log. The
  writer splits records into fragments that fit the 32 KiB blocks of the log; the reader
  joins them again. The lemmas show that a log is read back as the records written, that a
  truncated log yields the records that are complete, and that reading always ends.
\<close>

section \<open>Format\<close>

datatype RecordType = kZeroType | kFullType | kFirstType | kMiddleType | kLastType

fun type_code :: "RecordType \<Rightarrow> nat" where
  "type_code kZeroType = 0"
| "type_code kFullType = 1"
| "type_code kFirstType = 2"
| "type_code kMiddleType = 3"
| "type_code kLastType = 4"

definition kMaxRecordType :: nat where
  "kMaxRecordType = type_code kLastType"

definition kBlockSize :: nat where
  "kBlockSize = 32768"

definition kHeaderSize :: nat where
  "kHeaderSize = 4 + 2 + 1"

section \<open>Writer\<close>

record 'w log_Writer =
  dest :: 'w
  block_offset :: nat
  type_crc :: "u32 list"

definition InitTypeCrc :: "u32 list" where
  "InitTypeCrc = map (\<lambda>i. crc32c_Value [of_nat i]) [0..<kMaxRecordType + 1]"

definition new_Writer :: "'w \<Rightarrow> 'w log_Writer" where
  "new_Writer d = \<lparr>dest = d, block_offset = 0, type_crc = InitTypeCrc\<rparr>"

definition new_Writer_at :: "'w \<Rightarrow> u64 \<Rightarrow> 'w log_Writer" where
  "new_Writer_at d dest_length =
     \<lparr>dest = d, block_offset = unat (dest_length mod of_nat kBlockSize), type_crc = InitTypeCrc\<rparr>"

definition EmitPhysicalRecord ::
  "'w WritableFile \<Rightarrow> 'w log_Writer \<Rightarrow> RecordType \<Rightarrow> bytes \<Rightarrow> Status \<times> 'w log_Writer" where
  "EmitPhysicalRecord W w t ptr =
     (let len = length ptr;
          crc = crc32c_Extend (type_crc w ! type_code t) ptr;
          crc = Mask crc;
          buf = EncodeFixed32 crc @ [of_nat (len mod 256), of_nat (len div 256), of_nat (type_code t)];
          (s, d) = WAppend W (dest w) buf;
          (s, d) =
            (if ok s then
               (let (s, d) = WAppend W d ptr
                in if ok s then WFlush W d else (s, d))
             else (s, d))
      in (s, w\<lparr>dest := d, block_offset := block_offset w + (kHeaderSize + len)\<rparr>))"

text \<open>The head of the \<open>do\<close> loop: leave a block with no room for another header.\<close>

definition switch_block :: "'w WritableFile \<Rightarrow> 'w log_Writer \<Rightarrow> 'w log_Writer" where
  "switch_block W w =
     (let leftover = kBlockSize - block_offset w
      in if leftover < kHeaderSize then
           (let d = (if leftover > 0 then snd (WAppend W (dest w) (replicate leftover 0)) else dest w)
            in w\<lparr>dest := d, block_offset := 0\<rparr>)
         else w)"

lemma EmitPhysicalRecord_offset:
  "block_offset (snd (EmitPhysicalRecord W w t ptr)) = block_offset w + (kHeaderSize + length ptr)"
  by (simp add: EmitPhysicalRecord_def Let_def split: prod.splits)

function AddRecord_loop ::
  "'w WritableFile \<Rightarrow> 'w log_Writer \<Rightarrow> bool \<Rightarrow> bytes \<Rightarrow> Status \<times> 'w log_Writer" where
  "AddRecord_loop W w begin ptr =
     (let w = switch_block W w;
          left = length ptr;
          avail = kBlockSize - block_offset w - kHeaderSize;
          fragment_length = (if left < avail then left else avail);
          end = (left = fragment_length);
          type = (if begin \<and> end then kFullType else if begin then kFirstType
                  else if end then kLastType else kMiddleType);
          (s, w) = EmitPhysicalRecord W w type (take fragment_length ptr)
      in if ok s \<and> left - fragment_length > 0
         then AddRecord_loop W w False (drop fragment_length ptr)
         else (s, w))"
  by pat_completeness auto
termination
proof (relation "measures [\<lambda>(W, w, begin, ptr). length ptr,
    \<lambda>(W, w, begin, ptr). if kBlockSize - block_offset w < kHeaderSize then 0 else 1]", goal_cases)
  case (2 W w b ptr x left avail frag e t p s w')
  have off: "block_offset w' = block_offset x + (kHeaderSize + length (take frag ptr))"
    using EmitPhysicalRecord_offset [of W x t "take frag ptr"] 2(7, 8) by (metis snd_conv)
  show ?case
  proof (cases "frag = 0")
    case True
    with 2(3, 4, 9) have full: "kBlockSize - block_offset x - kHeaderSize = 0" "0 < length ptr"
      unfolding 2(2) by (auto split: if_splits)
    then have "x = w \<and> \<not> kBlockSize - block_offset w < kHeaderSize"
      unfolding 2(1) by (auto simp: switch_block_def kBlockSize_def kHeaderSize_def Let_def split: if_splits)
    with full True off show ?thesis
      by (simp add: kBlockSize_def kHeaderSize_def)
  next
    case False
    then have "length ptr - frag < length ptr" using 2(2, 9) by linarith
    then show ?thesis by simp
  qed
qed simp

definition AddRecord :: "'w WritableFile \<Rightarrow> 'w log_Writer \<Rightarrow> bytes \<Rightarrow> Status \<times> 'w log_Writer" where
  "AddRecord W w data = AddRecord_loop W w True data"

declare AddRecord_loop.simps [simp del]

section \<open>Reader\<close>

definition kEof :: u32 where
  "kEof = of_nat kMaxRecordType + 1"

definition kBadRecord :: u32 where
  "kBadRecord = of_nat kMaxRecordType + 2"

text \<open>
  \<open>reporter\<close> says whether there is a \<open>Reporter\<close>; \<open>reports\<close> collects the calls of its
  \<open>Corruption\<close> method.
\<close>

record 'f log_Reader =
  rd_file :: 'f
  reporter :: bool
  reports :: "(nat \<times> Status) list"
  checksum :: bool
  buffer :: bytes
  eof :: bool
  last_record_offset :: u64
  end_of_buffer_offset :: u64
  initial_offset :: u64
  resyncing :: bool

definition new_Reader :: "'f \<Rightarrow> bool \<Rightarrow> bool \<Rightarrow> u64 \<Rightarrow> 'f log_Reader" where
  "new_Reader f rep ck off =
     \<lparr>rd_file = f, reporter = rep, reports = [], checksum = ck, buffer = [], eof = False,
      last_record_offset = 0, end_of_buffer_offset = 0, initial_offset = off, resyncing = (off > 0)\<rparr>"

definition ReportDrop :: "u64 \<Rightarrow> Status \<Rightarrow> 'f log_Reader \<Rightarrow> 'f log_Reader" where
  "ReportDrop n reason r =
     (if reporter r \<and> end_of_buffer_offset r - of_nat (length (buffer r)) - n \<ge> initial_offset r
      then r\<lparr>reports := reports r @ [(unat n, reason)]\<rparr> else r)"

definition ReportCorruption :: "nat \<Rightarrow> bytes \<Rightarrow> 'f log_Reader \<Rightarrow> 'f log_Reader" where
  "ReportCorruption n reason r = ReportDrop (of_nat n) (Corruption reason []) r"

definition SkipToInitialBlock :: "'f SequentialFile \<Rightarrow> 'f log_Reader \<Rightarrow> bool \<times> 'f log_Reader" where
  "SkipToInitialBlock F r =
     (let offset_in_block = unat (initial_offset r mod of_nat kBlockSize);
          block_start_location = initial_offset r - of_nat offset_in_block;
          block_start_location =
            (if offset_in_block > kBlockSize - 6 then block_start_location + of_nat kBlockSize
             else block_start_location);
          r = r\<lparr>end_of_buffer_offset := block_start_location\<rparr>
      in if block_start_location > 0 then
           (let (s, f) = SeqSkip F (rd_file r) (unat block_start_location);
                r = r\<lparr>rd_file := f\<rparr>
            in if \<not> ok s then (False, ReportDrop block_start_location s r) else (True, r))
         else (True, r))"

text \<open>
  The fields of a record header and its checksums. \<open>header[6]\<close> is a \<open>char\<close> converted to
  \<open>unsigned int\<close>, hence sign-extended.
\<close>

definition header_length :: "bytes \<Rightarrow> nat" where
  "header_length header =
     (let a = ucast (header ! 4) AND (0xff :: u32);
          b = ucast (header ! 5) AND (0xff :: u32)
      in unat (a OR push_bit 8 b))"

definition header_type :: "bytes \<Rightarrow> u32" where
  "header_type header = scast (header ! 6)"

definition header_crc_ok :: "bytes \<Rightarrow> nat \<Rightarrow> bool" where
  "header_crc_ok header len =
     (let expected_crc = Unmask (DecodeFixed32 header);
          actual_crc = crc32c_Value (take (1 + len) (drop 6 header))
      in actual_crc = expected_crc)"

text \<open>
  \<open>ReadPhysicalRecord\<close> returns the record type and what it stores in \<open>*result\<close>, if anything.
\<close>

function ReadPhysicalRecord ::
  "'f SequentialFile \<Rightarrow> 'f log_Reader \<Rightarrow> u32 \<times> bytes option \<times> 'f log_Reader" where
  "ReadPhysicalRecord F r =
     (if length (buffer r) < kHeaderSize then
        (if \<not> eof r then
           (let (status, data, f) = SeqRead F (rd_file r) kBlockSize;
                r = r\<lparr>rd_file := f, buffer := data,
                      end_of_buffer_offset := end_of_buffer_offset r + of_nat (length data)\<rparr>
            in if \<not> ok status then
                 (let r = ReportDrop (of_nat kBlockSize) status (r\<lparr>buffer := []\<rparr>)
                  in (kEof, None, r\<lparr>eof := True\<rparr>))
               else ReadPhysicalRecord F
                 (if length data < kBlockSize then r\<lparr>eof := True\<rparr> else r))
         else (kEof, None, r\<lparr>buffer := []\<rparr>))
      else
        (let header = buffer r;
             type = header_type header;
             len = header_length header
         in if kHeaderSize + len > length (buffer r) then
              (let drop_size = length (buffer r);
                   r = r\<lparr>buffer := []\<rparr>
               in if \<not> eof r
                  then (kBadRecord, None, ReportCorruption drop_size (str ''bad record length'') r)
                  else (kEof, None, r))
            else if type = of_nat (type_code kZeroType) \<and> len = 0 then
              (kBadRecord, None, r\<lparr>buffer := []\<rparr>)
            else if checksum r \<and> \<not> header_crc_ok header len then
              (let drop_size = length (buffer r)
               in (kBadRecord, None,
                   ReportCorruption drop_size (str ''checksum mismatch'') (r\<lparr>buffer := []\<rparr>)))
            else
              (let r = r\<lparr>buffer := drop (kHeaderSize + len) (buffer r)\<rparr>
               in if end_of_buffer_offset r - of_nat (length (buffer r)) - of_nat kHeaderSize - of_nat len
                     < initial_offset r
                  then (kBadRecord, Some [], r)
                  else (type, Some (take len (drop kHeaderSize header)), r))))"
  by pat_completeness auto
termination
  by (relation "measure (\<lambda>(F, r). if length (buffer r) < kHeaderSize then if eof r then 1 else 2 else 0)")
    (auto simp: kHeaderSize_def kBlockSize_def)

declare ReadPhysicalRecord.simps [simp del]

text \<open>
  The loop of \<open>ReadRecord\<close>; \<open>fragment\<close> keeps its value when \<open>ReadPhysicalRecord\<close> does not
  set it. The result is the returned flag, the record and the reader.
\<close>

partial_function (option) ReadRecord_loop ::
  "'f SequentialFile \<Rightarrow> bool \<Rightarrow> u64 \<Rightarrow> bytes \<Rightarrow> bytes \<Rightarrow> 'f log_Reader \<Rightarrow> (bool \<times> bytes \<times> 'f log_Reader) option" where
  "ReadRecord_loop F in_fragmented_record prospective_record_offset scratch fragment r =
     (let (record_type, frag, r) = ReadPhysicalRecord F r;
          fragment = (case frag of Some x \<Rightarrow> x | None \<Rightarrow> fragment);
          physical_record_offset = end_of_buffer_offset r - of_nat (length (buffer r))
            - of_nat kHeaderSize - of_nat (length fragment)
      in if resyncing r \<and> record_type = of_nat (type_code kMiddleType) then
           ReadRecord_loop F in_fragmented_record prospective_record_offset scratch fragment r
         else if resyncing r \<and> record_type = of_nat (type_code kLastType) then
           ReadRecord_loop F in_fragmented_record prospective_record_offset scratch fragment
             (r\<lparr>resyncing := False\<rparr>)
         else
           (let r = r\<lparr>resyncing := False\<rparr>
            in if record_type = of_nat (type_code kFullType) then
                 (let r = (if in_fragmented_record \<and> scratch \<noteq> []
                           then ReportCorruption (length scratch) (str ''partial record without end(1)'') r
                           else r)
                  in Some (True, fragment, r\<lparr>last_record_offset := physical_record_offset\<rparr>))
               else if record_type = of_nat (type_code kFirstType) then
                 (let r = (if in_fragmented_record \<and> scratch \<noteq> []
                           then ReportCorruption (length scratch) (str ''partial record without end(2)'') r
                           else r)
                  in ReadRecord_loop F True physical_record_offset fragment fragment r)
               else if record_type = of_nat (type_code kMiddleType) then
                 (if \<not> in_fragmented_record then
                    ReadRecord_loop F in_fragmented_record prospective_record_offset scratch fragment
                      (ReportCorruption (length fragment) (str ''missing start of fragmented record(1)'') r)
                  else ReadRecord_loop F in_fragmented_record prospective_record_offset
                    (scratch @ fragment) fragment r)
               else if record_type = of_nat (type_code kLastType) then
                 (if \<not> in_fragmented_record then
                    ReadRecord_loop F in_fragmented_record prospective_record_offset scratch fragment
                      (ReportCorruption (length fragment) (str ''missing start of fragmented record(2)'') r)
                  else Some (True, scratch @ fragment,
                    r\<lparr>last_record_offset := prospective_record_offset\<rparr>))
               else if record_type = kEof then Some (False, [], r)
               else if record_type = kBadRecord then
                 (if in_fragmented_record then
                    ReadRecord_loop F False prospective_record_offset [] fragment
                      (ReportCorruption (length scratch) (str ''error in middle of record'') r)
                  else ReadRecord_loop F in_fragmented_record prospective_record_offset scratch fragment r)
               else
                 ReadRecord_loop F False prospective_record_offset [] fragment
                   (ReportCorruption (length fragment + (if in_fragmented_record then length scratch else 0))
                      (str ''unknown record type '' @ decimal (unat record_type)) r)))"

definition ReadRecord :: "'f SequentialFile \<Rightarrow> 'f log_Reader \<Rightarrow> (bool \<times> bytes \<times> 'f log_Reader) option" where
  "ReadRecord F r =
     (let (go_on, r) = (if last_record_offset r < initial_offset r then SkipToInitialBlock F r else (True, r))
      in if \<not> go_on then Some (False, [], r)
         else ReadRecord_loop F False 0 [] [] r)"

section \<open>What the writer appends\<close>

definition record_header :: "RecordType \<Rightarrow> bytes \<Rightarrow> bytes" where
  "record_header t d =
     EncodeFixed32 (Mask (crc32c_Value (of_nat (type_code t) # d))) @
     [of_nat (length d mod 256), of_nat (length d div 256), of_nat (type_code t)]"

lemma InitTypeCrc_nth: "InitTypeCrc ! type_code t = crc32c_Value [of_nat (type_code t)]"
  by (cases t) (simp_all add: InitTypeCrc_def kMaxRecordType_def nth_append)

text \<open>A fragment that does not end its record uses up data, or the last seven bytes of a block.\<close>

lemma fragment_progress:
  assumes "k' = (if kBlockSize - k < kHeaderSize then 0 else k)"
    and "n = min (length d) (kBlockSize - k' - kHeaderSize)" "length d \<noteq> n"
  shows "length d - n < length d \<or>
    (n = 0 \<and> kBlockSize - (k' + (kHeaderSize + n)) < kHeaderSize \<and> \<not> kBlockSize - k < kHeaderSize)"
proof (cases "n = 0")
  case True
  with assms(2, 3) have "kBlockSize - k' - kHeaderSize = 0" by (simp add: min_def split: if_splits)
  with True assms(1) show ?thesis by (simp add: kBlockSize_def kHeaderSize_def split: if_splits)
next
  case False
  with assms(2, 3) show ?thesis by simp
qed

text \<open>
  The bytes of one record appended at a block offset and the offset behind them, as a
  function of the record alone.
\<close>

function log_record :: "nat \<Rightarrow> bool \<Rightarrow> bytes \<Rightarrow> bytes \<times> nat" where
  "log_record k begin d =
     (let leftover = kBlockSize - k;
          pad = (if leftover < kHeaderSize then replicate leftover 0 else []);
          k = (if leftover < kHeaderSize then 0 else k);
          n = min (length d) (kBlockSize - k - kHeaderSize);
          end = (length d = n);
          type = (if begin \<and> end then kFullType else if begin then kFirstType
                  else if end then kLastType else kMiddleType);
          (more, k') = (if end then ([], k + (kHeaderSize + n))
                        else log_record (k + (kHeaderSize + n)) False (drop n d))
      in (pad @ record_header type (take n d) @ take n d @ more, k'))"
  by pat_completeness auto
termination
proof (relation "measures [\<lambda>(k, begin, d). length d,
    \<lambda>(k, begin, d). if kBlockSize - k < kHeaderSize then 0 else 1]", goal_cases)
  case (2 k b d l pad k1 n e t)
  then show ?case
    using fragment_progress [of k1 k n d] by auto
qed simp

declare log_record.simps [simp del]

fun log_records :: "nat \<Rightarrow> bytes list \<Rightarrow> bytes \<times> nat" where
  "log_records k [] = ([], k)"
| "log_records k (d # ds) =
     (let (b, k) = log_record k True d; (bs, k) = log_records k ds in (b @ bs, k))"

fun add_records :: "'w WritableFile \<Rightarrow> 'w log_Writer \<Rightarrow> bytes list \<Rightarrow> Status \<times> 'w log_Writer" where
  "add_records W w [] = (OK, w)"
| "add_records W w (d # ds) =
     (let (s, w) = AddRecord W w d in if ok s then add_records W w ds else (s, w))"

context writable_file
begin

lemma emit_written:
  assumes "inv (dest w)" "type_crc w = InitTypeCrc" "length ptr < 65536"
  obtains w' where "EmitPhysicalRecord W w t ptr = (OK, w')" "inv (dest w')"
    "written (dest w') = written (dest w) @ record_header t ptr @ ptr"
    "block_offset w' = block_offset w + (kHeaderSize + length ptr)" "type_crc w' = InitTypeCrc"
proof -
  have crc: "crc32c_Extend (InitTypeCrc ! type_code t) ptr = crc32c_Value (of_nat (type_code t) # ptr)"
    using crc32c_Value_append [of "[of_nat (type_code t)]" ptr] by (simp add: InitTypeCrc_nth)
  let ?h = "record_header t ptr"
  obtain s1 d1 where 1: "WAppend W (dest w) ?h = (s1, d1)" by fastforce
  obtain s2 d2 where 2: "WAppend W d1 ptr = (s2, d2)" by fastforce
  obtain s3 d3 where 3: "WFlush W d2 = (s3, d3)" by fastforce
  have a: "s1 = OK" "written d1 = written (dest w) @ ?h" "inv d1" using w_append [OF assms(1) 1] by auto
  have b: "s2 = OK" "written d2 = written d1 @ ptr" "inv d2" using w_append [OF a(3) 2] by auto
  have c: "s3 = OK" "written d3 = written d2" "inv d3" using w_flush [OF b(3) 3] by auto
  show thesis
    by (rule that [of "w\<lparr>dest := d3, block_offset := block_offset w + (kHeaderSize + length ptr)\<rparr>"])
      (use 1 2 3 a b c assms in \<open>simp_all add: EmitPhysicalRecord_def Let_def crc record_header_def\<close>)
qed

lemma switch_written:
  assumes "inv (dest w)" "type_crc w = InitTypeCrc" "switch_block W w = w'"
  shows "inv (dest w') \<and> type_crc w' = InitTypeCrc \<and>
    written (dest w') = written (dest w) @
      (if kBlockSize - block_offset w < kHeaderSize then replicate (kBlockSize - block_offset w) 0 else []) \<and>
    block_offset w' = (if kBlockSize - block_offset w < kHeaderSize then 0 else block_offset w)"
proof -
  obtain s d where "WAppend W (dest w) (replicate (kBlockSize - block_offset w) 0) = (s, d)" by fastforce
  with assms w_append [OF assms(1) this] show ?thesis
    by (auto simp: switch_block_def Let_def)
qed

lemma AddRecord_loop_written:
  assumes "inv (dest w)" "type_crc w = InitTypeCrc"
  shows "\<exists>w'. AddRecord_loop W w b ptr = (OK, w') \<and> inv (dest w') \<and> type_crc w' = InitTypeCrc \<and>
    written (dest w') = written (dest w) @ fst (log_record (block_offset w) b ptr) \<and>
    block_offset w' = snd (log_record (block_offset w) b ptr)"
  using assms
proof (induction "block_offset w" b ptr arbitrary: w rule: log_record.induct)
  case (1 b ptr)
  define w1 where "w1 = switch_block W w"
  let ?sw = "kBlockSize - block_offset w < kHeaderSize"
  let ?k = "if ?sw then 0 else block_offset w"
  let ?pad = "if ?sw then replicate (kBlockSize - block_offset w) 0 else ([] :: bytes)"
  have w1: "inv (dest w1)" "type_crc w1 = InitTypeCrc" "written (dest w1) = written (dest w) @ ?pad"
    "block_offset w1 = ?k"
    using switch_written [OF "1.prems" w1_def [symmetric]] by simp_all
  define n where "n = min (length ptr) (kBlockSize - ?k - kHeaderSize)"
  define e where "e = (length ptr = n)"
  define t where "t = (if b \<and> e then kFullType else if b then kFirstType else if e then kLastType else kMiddleType)"
  have n: "(if length ptr < kBlockSize - block_offset w1 - kHeaderSize then length ptr
      else kBlockSize - block_offset w1 - kHeaderSize) = n" "n \<le> length ptr" "n < 65536"
    by (auto simp: n_def w1(4) kBlockSize_def)
  obtain w2 where w2: "EmitPhysicalRecord W w1 t (take n ptr) = (OK, w2)" "inv (dest w2)"
    "written (dest w2) = written (dest w1) @ record_header t (take n ptr) @ take n ptr"
    "block_offset w2 = ?k + (kHeaderSize + n)" "type_crc w2 = InitTypeCrc"
    by (rule emit_written [OF w1(1, 2), of "take n ptr" t]) (use n(2, 3) w1(4) in \<open>simp_all add: min_absorb2\<close>)
  have step: "AddRecord_loop W w b ptr =
     (if e then (OK, w2) else AddRecord_loop W w2 False (drop n ptr))"
    using n(2) unfolding AddRecord_loop.simps [of W w b ptr] Let_def w1_def [symmetric] n(1)
      e_def [symmetric] t_def [symmetric] w2(1) prod.case by (simp add: e_def)
  have spec: "log_record (block_offset w) b ptr =
     (let (more, k') = (if e then ([], ?k + (kHeaderSize + n)) else log_record (?k + (kHeaderSize + n)) False (drop n ptr))
      in (?pad @ record_header t (take n ptr) @ take n ptr @ more, k'))"
    unfolding log_record.simps [of "block_offset w" b ptr] Let_def n_def [symmetric] e_def [symmetric]
      t_def [symmetric] by (rule refl)
  show ?case
  proof (cases e)
    case True
    then show ?thesis using w1 w2 step spec by simp
  next
    case False
    have "\<exists>w'. AddRecord_loop W w2 False (drop n ptr) = (OK, w') \<and> inv (dest w') \<and> type_crc w' = InitTypeCrc \<and>
      written (dest w') = written (dest w2) @ fst (log_record (block_offset w2) False (drop n ptr)) \<and>
      block_offset w' = snd (log_record (block_offset w2) False (drop n ptr))"
      by (rule "1.hyps" [OF refl refl refl n_def e_def t_def False _ w2(2) w2(5)])
        (simp add: w2(4))
    then show ?thesis using False w1 w2 step spec by (auto simp: split_beta)
  qed
qed

lemma add_records_written:
  assumes "inv (dest w)" "type_crc w = InitTypeCrc"
  shows "\<exists>w'. add_records W w ds = (OK, w') \<and> inv (dest w') \<and> type_crc w' = InitTypeCrc \<and>
    written (dest w') = written (dest w) @ fst (log_records (block_offset w) ds) \<and>
    block_offset w' = snd (log_records (block_offset w) ds)"
  using assms
proof (induction ds arbitrary: w)
  case (Cons d ds)
  then obtain w1 where w1: "AddRecord W w d = (OK, w1)" "inv (dest w1)" "type_crc w1 = InitTypeCrc"
    "written (dest w1) = written (dest w) @ fst (log_record (block_offset w) True d)"
    "block_offset w1 = snd (log_record (block_offset w) True d)"
    using AddRecord_loop_written [of w True d] by (auto simp: AddRecord_def)
  then show ?case using Cons.IH [OF w1(2, 3)] by (auto simp: split_beta)
qed simp

end

section \<open>What the reader does with it\<close>

lemma length_record_header [simp]: "length (record_header t d) = kHeaderSize"
  by (simp add: record_header_def kHeaderSize_def)

lemma word_of_two_bytes:
  assumes "n < 65536"
  shows "unat ((ucast (of_nat (n mod 256) :: byte) AND 0xff) OR
    push_bit 8 (ucast (of_nat (n div 256) :: byte) AND (0xff :: u32))) = n"
proof -
  have n: "n mod 256 = take_bit 8 n" "n div 256 = drop_bit 8 n"
    using take_bit_eq_mod [of 8 n] drop_bit_eq_div [of 8 n] by simp_all
  have s: "i < 16" if "bit n i" for i
    using that assms small_nat_bit [of n 16 i] by simp
  have m: "bit (65280 :: int) i \<longleftrightarrow> 8 \<le> i \<and> i < 16" for i
    using bit_push_bit_iff [of 8 "255 :: int" i] by (auto simp: bit_255)
  have "((ucast (of_nat (n mod 256) :: byte) AND 0xff) OR
    push_bit 8 (ucast (of_nat (n div 256) :: byte) AND (0xff :: u32))) = of_nat n"
    unfolding n by (intro bit_word_eqI) (auto simp: bit_simps bit_255 bit_of_nat_iff m dest: s)
  then show ?thesis using assms by (simp add: unat_of_nat)
qed

lemma header_fields:
  assumes "length d < 65536"
  shows "header_length (record_header t d @ x) = length d"
    and "header_type (record_header t d @ x) = of_nat (type_code t)"
    and "header_crc_ok (record_header t d @ d @ x) (length d)"
proof -
  show "header_length (record_header t d @ x) = length d"
    using word_of_two_bytes [OF assms] by (simp add: header_length_def record_header_def nth_append)
  show "header_type (record_header t d @ x) = of_nat (type_code t)"
    by (cases t) (simp_all add: header_type_def record_header_def nth_append)
  have "take (1 + length d) (drop 6 (record_header t d @ d @ x)) = of_nat (type_code t) # d"
    by (simp add: record_header_def)
  moreover have "Unmask (DecodeFixed32 (record_header t d @ d @ x)) = crc32c_Value (of_nat (type_code t) # d)"
    by (simp add: record_header_def DecodeFixed32_Encode Mask_Unmask)
  ultimately show "header_crc_ok (record_header t d @ d @ x) (length d)"
    by (simp add: header_crc_ok_def)
qed

definition reader_at ::
  "('f \<Rightarrow> bytes) \<Rightarrow> ('f \<Rightarrow> bool) \<Rightarrow> nat \<Rightarrow> bytes \<Rightarrow> 'f log_Reader \<Rightarrow> bool" where
  "reader_at unread I k rem r \<longleftrightarrow>
     I (rd_file r) \<and> k \<le> kBlockSize \<and> buffer r = take (kBlockSize - k) rem \<and>
     unread (rd_file r) = drop (kBlockSize - k) rem \<and> eof r = (k + length rem < kBlockSize) \<and>
     initial_offset r = 0 \<and> \<not> resyncing r"

context sequential_file
begin

lemma read_switch:
  assumes "reader_at unread inv k rem r" "kBlockSize - k < kHeaderSize" "kBlockSize - k \<le> length rem"
  obtains r' where "ReadPhysicalRecord F r = ReadPhysicalRecord F r'" "reports r' = reports r"
    "reader_at unread inv 0 (drop (kBlockSize - k) rem) r'"
proof -
  let ?rem = "drop (kBlockSize - k) rem"
  obtain s data f where rd: "SeqRead F (rd_file r) kBlockSize = (s, data, f)" by (metis prod_cases3)
  have f: "s = OK" "data = take kBlockSize ?rem" "unread f = drop kBlockSize ?rem" "inv f"
    using seq_read [OF _ rd] assms(1) by (auto simp: reader_at_def)
  let ?r = "r\<lparr>rd_file := f, buffer := data,
      end_of_buffer_offset := end_of_buffer_offset r + of_nat (length data)\<rparr>"
  let ?r' = "if length data < kBlockSize then ?r\<lparr>eof := True\<rparr> else ?r"
  have "\<not> eof r" "length (buffer r) < kHeaderSize" using assms by (auto simp: reader_at_def)
  then have "ReadPhysicalRecord F r = ReadPhysicalRecord F ?r'"
    by (subst ReadPhysicalRecord.simps) (simp add: rd f(1))
  moreover have "reader_at unread inv 0 ?rem ?r'"
    using assms f by (auto simp: reader_at_def)
  ultimately show thesis by (intro that [of ?r']) auto
qed

lemma read_record:
  assumes "reader_at unread inv k (record_header t d @ d @ rest) r" "t \<noteq> kZeroType"
    and "k + (kHeaderSize + length d) \<le> kBlockSize"
  obtains r' where "ReadPhysicalRecord F r = (of_nat (type_code t), Some d, r')" "reports r' = reports r"
    "reader_at unread inv (k + (kHeaderSize + length d)) rest r'"
proof -
  let ?n = "kHeaderSize + length d"
  define x where "x = take (kBlockSize - k - ?n) rest"
  have buf: "buffer r = record_header t d @ d @ x"
    using assms(1, 3) by (simp add: reader_at_def x_def add.assoc)
  have len: "length d < 65536" using assms(3) by (simp add: kBlockSize_def)
  have i: "initial_offset r = 0" using assms(1) by (simp add: reader_at_def)
  have t: "(of_nat (type_code t) :: u32) \<noteq> 0" using assms(2) by (cases t) auto
  let ?r = "r\<lparr>buffer := x\<rparr>"
  have "ReadPhysicalRecord F r = (of_nat (type_code t), Some d, ?r)"
    by (subst ReadPhysicalRecord.simps) (simp add: buf i t header_fields [OF len] Let_def)
  moreover have "reader_at unread inv (k + ?n) rest ?r"
    using assms(1, 3) by (auto simp: reader_at_def x_def add.assoc)
  ultimately show thesis by (intro that [of ?r]) auto
qed

lemma read_eof:
  assumes "reader_at unread inv k rem r" "eof r" "length rem < kHeaderSize"
  shows "\<exists>r'. ReadPhysicalRecord F r = (kEof, None, r') \<and> reports r' = reports r \<and> \<not> resyncing r'"
  using assms by (subst ReadPhysicalRecord.simps) (auto simp: reader_at_def)

lemma read_truncated:
  assumes "reader_at unread inv k (take m (record_header t d @ d)) r" "m < kHeaderSize + length d"
    and "k + (kHeaderSize + length d) \<le> kBlockSize"
  shows "\<exists>r'. ReadPhysicalRecord F r = (kEof, None, r') \<and> reports r' = reports r \<and> \<not> resyncing r'"
proof (cases "m < kHeaderSize")
  case True
  then show ?thesis using assms read_eof [OF assms(1)] by (auto simp: reader_at_def)
next
  case False
  have "length (take m (record_header t d @ d)) = m" using assms(2) by simp
  then have eof: "eof r" using assms unfolding reader_at_def by linarith
  have sync: "\<not> resyncing r" using assms(1) by (simp add: reader_at_def)
  have len: "length d < 65536" using assms(3) by (simp add: kBlockSize_def)
  have buf: "buffer r = record_header t d @ take (m - kHeaderSize) d"
  proof -
    have "kHeaderSize \<le> m" "m \<le> kBlockSize - k" using assms(2, 3) False by linarith+
    then show ?thesis using assms(1) by (simp add: reader_at_def min_absorb1)
  qed
  show ?thesis
  proof -
    have "m - kHeaderSize < length d" using assms(2) False by linarith
    then show ?thesis
      using sync by (subst ReadPhysicalRecord.simps) (simp add: buf eof header_fields [OF len] Let_def)
  qed
qed

end

text \<open>The fragments of a record, one rule per way a record continues.\<close>

inductive fragments :: "nat \<Rightarrow> bool \<Rightarrow> bytes \<Rightarrow> bytes \<Rightarrow> nat \<Rightarrow> bool" where
  switch: "kBlockSize - k < kHeaderSize \<Longrightarrow> k \<le> kBlockSize \<Longrightarrow> fragments 0 b d bs k' \<Longrightarrow>
    fragments k b d (replicate (kBlockSize - k) 0 @ bs) k'"
| final: "k + (kHeaderSize + length d) \<le> kBlockSize \<Longrightarrow>
    fragments k b d (record_header (if b then kFullType else kLastType) d @ d) (k + (kHeaderSize + length d))"
| more: "k + (kHeaderSize + length d1) \<le> kBlockSize \<Longrightarrow>
    fragments (k + (kHeaderSize + length d1)) False d2 bs k' \<Longrightarrow>
    fragments k b (d1 @ d2) (record_header (if b then kFirstType else kMiddleType) d1 @ d1 @ bs) k'"

lemma log_record_fragments:
  "k \<le> kBlockSize \<Longrightarrow> fragments k b d (fst (log_record k b d)) (snd (log_record k b d))"
proof (induction k b d rule: log_record.induct)
  case (1 k b d)
  let ?sw = "kBlockSize - k < kHeaderSize"
  define k1 where "k1 = (if ?sw then 0 else k)"
  define n where "n = min (length d) (kBlockSize - k1 - kHeaderSize)"
  define e where "e = (length d = n)"
  define t where "t = (if b \<and> e then kFullType else if b then kFirstType else if e then kLastType else kMiddleType)"
  define more where "more = (if e then ([], k1 + (kHeaderSize + n)) else log_record (k1 + (kHeaderSize + n)) False (drop n d))"
  have n: "n \<le> length d" "k1 + (kHeaderSize + n) \<le> kBlockSize"
    using "1.prems" by (auto simp: n_def k1_def kBlockSize_def kHeaderSize_def)
  have "fragments k1 b d (record_header t (take n d) @ take n d @ fst more) (snd more)"
  proof (cases e)
    case True
    then show ?thesis using final [of k1 d b] n by (cases b) (simp_all add: e_def t_def more_def)
  next
    case False
    have "fragments (k1 + (kHeaderSize + n)) False (drop n d) (fst more) (snd more)"
      using "1.IH" [OF refl refl k1_def n_def e_def t_def False n(2)] False by (simp add: more_def)
    with False show ?thesis
      using fragments.more [of k1 "take n d" "drop n d" "fst more" "snd more" b] n
      by (cases b) (simp_all add: t_def min_absorb2)
  qed
  moreover have "log_record k b d =
    ((if ?sw then replicate (kBlockSize - k) 0 else []) @ record_header t (take n d) @ take n d @ fst more, snd more)"
    unfolding log_record.simps [of k b d] Let_def k1_def [symmetric] n_def [symmetric] e_def [symmetric]
      t_def [symmetric] more_def [symmetric] by (simp add: split_beta)
  ultimately show ?case
    using fragments.switch [of k b d] "1.prems" by (auto simp: k1_def split: if_splits)
qed

lemma ReadRecord_loop_cong:
  "ReadPhysicalRecord F r = ReadPhysicalRecord F r' \<Longrightarrow>
     ReadRecord_loop F i p s f r = ReadRecord_loop F i p s f r'"
  by (subst (1 2) ReadRecord_loop.simps) simp

lemma ReadRecord_loop_eof:
  "ReadPhysicalRecord F r = (kEof, None, r') \<Longrightarrow> \<not> resyncing r' \<Longrightarrow>
     ReadRecord_loop F i p s f r = Some (False, [], r'\<lparr>resyncing := False\<rparr>)"
  by (subst ReadRecord_loop.simps) (simp add: kEof_def kMaxRecordType_def)

context sequential_file
begin

lemma read_fragments:
  "fragments k b d bs k' \<Longrightarrow> reader_at unread inv k (bs @ rest) r \<Longrightarrow> (b \<Longrightarrow> s = []) \<Longrightarrow>
   \<exists>r'. ReadRecord_loop F (\<not> b) p s f r = Some (True, s @ d, r') \<and>
     reports r' = reports r \<and> reader_at unread inv k' rest r'"
proof (induction arbitrary: r s p f rule: fragments.induct)
  case (switch k b d bs k')
  obtain r1 where r1: "ReadPhysicalRecord F r = ReadPhysicalRecord F r1" "reports r1 = reports r"
    "reader_at unread inv 0 (bs @ rest) r1"
    using read_switch [OF switch.prems(1) switch.hyps(1)] by auto
  show ?case
    using switch.IH [OF r1(3) switch.prems(2)] ReadRecord_loop_cong [OF r1(1)] r1(2) by simp
next
  case (final k d b)
  let ?t = "if b then kFullType else kLastType"
  obtain r1 where r1: "ReadPhysicalRecord F r = (of_nat (type_code ?t), Some d, r1)" "reports r1 = reports r"
    "reader_at unread inv (k + (kHeaderSize + length d)) rest r1"
    by (rule read_record [of k ?t d rest r]) (use final in simp_all)
  then show ?case
    using final.prems(2) by (subst ReadRecord_loop.simps) (auto simp: reader_at_def Let_def)
next
  case (more k d1 d2 bs k' b)
  let ?t = "if b then kFirstType else kMiddleType"
  obtain r1 where r1: "ReadPhysicalRecord F r = (of_nat (type_code ?t), Some d1, r1)" "reports r1 = reports r"
    "reader_at unread inv (k + (kHeaderSize + length d1)) (bs @ rest) r1"
    by (rule read_record [of k ?t d1 "bs @ rest" r]) (use more in simp_all)
  have sync: "r1\<lparr>resyncing := False\<rparr> = r1" "\<not> resyncing r1" using r1(3) by (simp_all add: reader_at_def)
  show ?case
    using more.prems(2) more.IH [OF r1(3), of "s @ d1"] r1
    by (subst ReadRecord_loop.simps) (auto simp: Let_def sync)
qed

lemma read_fragments_truncated:
  "fragments k b d bs k' \<Longrightarrow> reader_at unread inv k (take m bs) r \<Longrightarrow> m < length bs \<Longrightarrow> (b \<Longrightarrow> s = []) \<Longrightarrow>
   \<exists>r'. ReadRecord_loop F (\<not> b) p s f r = Some (False, [], r') \<and> reports r' = reports r"
proof (induction arbitrary: r s p f m rule: fragments.induct)
  case (switch k b d bs k')
  show ?case
  proof (cases "m < kBlockSize - k")
    case True
    then have len: "length (take m (replicate (kBlockSize - k) (0 :: byte) @ bs)) = m" by simp
    then have "eof r" using True switch.prems(1) unfolding reader_at_def by linarith
    then show ?thesis
      using read_eof [OF switch.prems(1)] len True switch.hyps(1) ReadRecord_loop_eof by fastforce
  next
    case False
    then obtain r1 where r1: "ReadPhysicalRecord F r = ReadPhysicalRecord F r1" "reports r1 = reports r"
      "reader_at unread inv 0 (take (m - (kBlockSize - k)) bs) r1"
      using read_switch [OF switch.prems(1) switch.hyps(1)] by (auto simp: drop_take)
    have "m - (kBlockSize - k) < length bs" using switch.prems(2) False by simp
    then show ?thesis
      using switch.IH [OF r1(3) _ switch.prems(3)] ReadRecord_loop_cong [OF r1(1)] r1(2) by simp
  qed
next
  case (final k d b)
  then show ?case
    using read_truncated [of k m "if b then kFullType else kLastType" d r] ReadRecord_loop_eof by fastforce
next
  case (more k d1 d2 bs k' b)
  let ?t = "if b then kFirstType else kMiddleType"
  show ?case
  proof (cases "m < kHeaderSize + length d1")
    case True
    then have "take m (record_header ?t d1 @ d1 @ bs) = take m (record_header ?t d1 @ d1)" by simp
    then show ?thesis
      using read_truncated [of k m ?t d1 r] more True ReadRecord_loop_eof by fastforce
  next
    case False
    then have t: "take m (record_header ?t d1 @ d1 @ bs) =
        record_header ?t d1 @ d1 @ take (m - (kHeaderSize + length d1)) bs" by simp
    obtain r1 where r1: "ReadPhysicalRecord F r = (of_nat (type_code ?t), Some d1, r1)" "reports r1 = reports r"
      "reader_at unread inv (k + (kHeaderSize + length d1)) (take (m - (kHeaderSize + length d1)) bs) r1"
      by (rule read_record [of k ?t d1 "take (m - (kHeaderSize + length d1)) bs" r])
        (use more.prems(1) more.hyps(1) in \<open>simp_all only: t\<close>, simp_all)
    have sync: "r1\<lparr>resyncing := False\<rparr> = r1" "\<not> resyncing r1" using r1(3) by (simp_all add: reader_at_def)
    have "m - (kHeaderSize + length d1) < length bs" using more.prems(2) False by simp
    then show ?thesis
      using more.prems(3) more.IH [OF r1(3), of "s @ d1"] r1
      by (subst ReadRecord_loop.simps) (auto simp: Let_def sync)
  qed
qed

end

text \<open>Reading a log to its end, as recovery does.\<close>

partial_function (option) read_all ::
  "'f SequentialFile \<Rightarrow> 'f log_Reader \<Rightarrow> (bytes list \<times> 'f log_Reader) option" where
  "read_all F r =
     Option.bind (ReadRecord F r) (\<lambda>(found, record, r).
       if found then Option.bind (read_all F r) (\<lambda>(records, r). Some (record # records, r))
       else Some ([], r))"

text \<open>The bytes and the unread part of the file a reader still has to look at.\<close>

definition reader_size :: "('f \<Rightarrow> bytes) \<Rightarrow> 'f log_Reader \<Rightarrow> nat" where
  "reader_size unread r = length (buffer r) + length (unread (rd_file r))"

lemma ReportCorruption_simps [simp]:
  "rd_file (ReportCorruption n m r) = rd_file r" "buffer (ReportCorruption n m r) = buffer r"
  "initial_offset (ReportCorruption n m r) = initial_offset r"
  by (simp_all add: ReportCorruption_def ReportDrop_def)

context sequential_file
begin

lemma read_none_left:
  assumes "reader_at unread inv k [] r"
  shows "\<exists>r'. ReadRecord_loop F i p s f r = Some (False, [], r') \<and> reports r' = reports r"
proof (cases "eof r")
  case True
  then show ?thesis
    using read_eof [OF assms True] ReadRecord_loop_eof by (fastforce simp: kHeaderSize_def)
next
  case False
  with assms have k: "kBlockSize - k = 0" by (simp add: reader_at_def)
  obtain r1 where r1: "ReadPhysicalRecord F r = ReadPhysicalRecord F r1" "reports r1 = reports r"
    "reader_at unread inv 0 [] r1"
    using read_switch [OF assms] k by (auto simp: kHeaderSize_def)
  have "eof r1" using r1(3) by (simp add: reader_at_def kBlockSize_def)
  then show ?thesis
    using read_eof [OF r1(3)] r1(2) ReadRecord_loop_cong [OF r1(1)] ReadRecord_loop_eof
    by (fastforce simp: kHeaderSize_def)
qed

lemma ReadRecord_at: "reader_at unread inv k rem r \<Longrightarrow> ReadRecord F r = ReadRecord_loop F False 0 [] [] r"
  by (simp add: ReadRecord_def reader_at_def)

lemma read_all_truncated:
  "reader_at unread inv k (take n (fst (log_records k ds))) r \<Longrightarrow>
   \<exists>r' j. read_all F r = Some (take j ds, r') \<and> reports r' = reports r \<and> j \<le> length ds \<and>
     (\<forall>i \<le> length ds. i \<le> j \<longleftrightarrow> length (fst (log_records k (take i ds))) \<le> n)"
proof (induction ds arbitrary: k r n)
  case Nil
  then show ?case
    using read_none_left [of k r False 0 "[]" "[]"] ReadRecord_at [of k "[]" r]
    by (auto simp: read_all.simps)
next
  case (Cons d ds)
  obtain b k1 where b: "log_record k True d = (b, k1)" by fastforce
  have k: "k \<le> kBlockSize" using Cons.prems by (simp add: reader_at_def)
  have f: "fragments k True d b k1" using log_record_fragments [OF k, of True d] by (simp add: b)
  note rr = ReadRecord_at [OF Cons.prems]
  show ?case
  proof (cases "length b \<le> n")
    case True
    have "take n (fst (log_records k (d # ds))) = b @ take (n - length b) (fst (log_records k1 ds))"
      using True by (simp add: b split_beta)
    then obtain r1 where r1: "ReadRecord F r = Some (True, d, r1)" "reports r1 = reports r"
      "reader_at unread inv k1 (take (n - length b) (fst (log_records k1 ds))) r1"
      using read_fragments [OF f, of _ r "[]" 0 "[]"] Cons.prems rr by fastforce
    obtain r' j where j: "read_all F r1 = Some (take j ds, r')" "reports r' = reports r1" "j \<le> length ds"
      "\<forall>i \<le> length ds. i \<le> j \<longleftrightarrow> length (fst (log_records k1 (take i ds))) \<le> n - length b"
      using Cons.IH [OF r1(3)] by blast
    have "i \<le> Suc j \<longleftrightarrow> length (fst (log_records k (take i (d # ds)))) \<le> n" if "i \<le> Suc (length ds)" for i
      using that True j(4) by (cases i) (auto simp: b split_beta)
    moreover have "read_all F r = Some (take (Suc j) (d # ds), r')"
      using r1(1) j(1) by (subst read_all.simps) simp
    ultimately show ?thesis
      using j r1(2) by (intro exI [of _ r'] exI [of _ "Suc j"]) auto
  next
    case False
    then have "take n (fst (log_records k (d # ds))) = take n b" by (simp add: b split_beta)
    then obtain r1 where r1: "ReadRecord F r = Some (False, [], r1)" "reports r1 = reports r"
      using read_fragments_truncated [OF f, of n r "[]" 0 "[]"] Cons.prems rr False by fastforce
    have "i \<le> 0 \<longleftrightarrow> length (fst (log_records k (take i (d # ds)))) \<le> n" for i
      using False by (cases i) (auto simp: b split_beta)
    then show ?thesis
      using r1 by (intro exI [of _ r1] exI [of _ 0]) (auto simp: read_all.simps)
  qed
qed

lemma reader_at_new:
  "inv f \<Longrightarrow> reader_at unread inv kBlockSize (unread f) (new_Reader f rep ck 0)"
  by (simp add: reader_at_def new_Reader_def)

lemma parse_progress:
  assumes "inv (rd_file r)" "ReadPhysicalRecord F r = (t, frag, r')" "\<not> length (buffer r) < kHeaderSize \<or> eof r"
  shows "inv (rd_file r') \<and> initial_offset r' = initial_offset r \<and>
    (t = kEof \<or> reader_size unread r' < reader_size unread r)"
proof (cases "length (buffer r) < kHeaderSize")
  case True
  then show ?thesis
    using assms by (subst (asm) ReadPhysicalRecord.simps) auto
next
  case False
  moreover have "0 < kHeaderSize" by (simp add: kHeaderSize_def)
  ultimately show ?thesis
    using assms(1, 2) by (subst (asm) ReadPhysicalRecord.simps)
      (auto simp: Let_def reader_size_def split: if_splits)
qed

lemma physical_progress:
  assumes "inv (rd_file r)" "ReadPhysicalRecord F r = (t, frag, r')"
  shows "inv (rd_file r') \<and> initial_offset r' = initial_offset r \<and>
    (t = kEof \<or> reader_size unread r' < reader_size unread r)"
proof (cases "length (buffer r) < kHeaderSize \<and> \<not> eof r")
  case True
  obtain s data f where rd: "SeqRead F (rd_file r) kBlockSize = (s, data, f)" by (metis prod_cases3)
  have f: "s = OK" "data = take kBlockSize (unread (rd_file r))" "unread f = drop kBlockSize (unread (rd_file r))" "inv f"
    using seq_read [OF assms(1) rd] by auto
  let ?r = "r\<lparr>rd_file := f, buffer := data,
      end_of_buffer_offset := end_of_buffer_offset r + of_nat (length data)\<rparr>"
  let ?r1 = "if length data < kBlockSize then ?r\<lparr>eof := True\<rparr> else ?r"
  have "ReadPhysicalRecord F ?r1 = (t, frag, r')"
    using True assms(2) by (subst (asm) ReadPhysicalRecord.simps) (simp add: rd f(1) Let_def)
  moreover have "\<not> length (buffer ?r1) < kHeaderSize \<or> eof ?r1"
    by (simp add: kHeaderSize_def kBlockSize_def)
  moreover have "reader_size unread ?r1 \<le> reader_size unread r"
    using f by (simp add: reader_size_def)
  ultimately show ?thesis
    using parse_progress [of ?r1 t frag r'] f(4) by (auto split: if_splits)
next
  case False
  then show ?thesis using parse_progress [OF assms] by blast
qed

lemma ReadRecord_loop_total:
  "inv (rd_file r) \<Longrightarrow>
   \<exists>found record r'. ReadRecord_loop F i p s f r = Some (found, record, r') \<and> inv (rd_file r') \<and>
     (found \<longrightarrow> reader_size unread r' < reader_size unread r)"
proof (induction "reader_size unread r" arbitrary: i p s f r rule: less_induct)
  case less
  obtain t frag r1 where r1: "ReadPhysicalRecord F r = (t, frag, r1)" by (metis prod_cases3)
  note pp = physical_progress [OF less.prems r1]
  define Q where "Q x \<longleftrightarrow> (\<exists>found record r'. x = Some (found, record, r') \<and> inv (rd_file r') \<and>
     (found \<longrightarrow> reader_size unread r' < reader_size unread r))" for x :: "(bool \<times> bytes \<times> 'f log_Reader) option"
  have again: "Q (ReadRecord_loop F i p s f r2)"
    if "reader_size unread r2 = reader_size unread r1" "rd_file r2 = rd_file r1" "t \<noteq> kEof" for i p s f r2
    using less.hyps [of r2 i p s f] pp that unfolding Q_def by fastforce
  have return: "Q (Some (found, record, r2))"
    if "reader_size unread r2 = reader_size unread r1" "rd_file r2 = rd_file r1" "found \<longrightarrow> t \<noteq> kEof" for found "record" r2
    using pp that unfolding Q_def by fastforce
  have "Q (ReadRecord_loop F i p s f r)"
    by (subst ReadRecord_loop.simps)
      (simp add: r1 Let_def reader_size_def kEof_def kMaxRecordType_def again return)
  then show ?case by (simp add: Q_def)
qed

lemma ReadRecord_total:
  assumes "inv (rd_file r)"
  shows "\<exists>found record r'. ReadRecord F r = Some (found, record, r') \<and> inv (rd_file r') \<and>
     (found \<longrightarrow> reader_size unread r' < reader_size unread r)"
proof -
  have "inv (rd_file (snd (SkipToInitialBlock F r))) \<and>
      reader_size unread (snd (SkipToInitialBlock F r)) \<le> reader_size unread r"
    using seq_skip [OF assms] assms
    by (auto simp: SkipToInitialBlock_def Let_def reader_size_def ReportDrop_def split: prod.splits)
  then show ?thesis
    using ReadRecord_loop_total [OF assms, of False 0 "[]" "[]"]
      ReadRecord_loop_total [of "snd (SkipToInitialBlock F r)" False 0 "[]" "[]"] assms
    by (fastforce simp: ReadRecord_def split: prod.splits)
qed

lemma read_all_total: "inv (rd_file r) \<Longrightarrow> \<exists>records r'. read_all F r = Some (records, r')"
proof (induction "reader_size unread r" arbitrary: r rule: less_induct)
  case less
  obtain found d r1 where r1: "ReadRecord F r = Some (found, d, r1)" "inv (rd_file r1)"
    "found \<longrightarrow> reader_size unread r1 < reader_size unread r"
    using ReadRecord_total [OF less.prems] by blast
  then show ?case
    using less.hyps [of r1] by (subst read_all.simps) auto
qed

end

section \<open>Properties\<close>

text \<open>A writer at the end of a block writes what a writer at the start of the next one writes.\<close>

lemma log_record_block_end: "log_record kBlockSize b d = log_record 0 b d"
  by (subst (1 2) log_record.simps) (simp add: kBlockSize_def kHeaderSize_def)

lemma log_records_block_end: "fst (log_records kBlockSize ds) = fst (log_records 0 ds)"
  by (cases ds) (simp_all add: log_record_block_end)

text \<open>A sequential file opened on an in-memory file with the given contents.\<close>

definition mem_file :: "bytes \<Rightarrow> MemSequentialFile" where
  "mem_file contents = \<lparr>ms_file = FileState_Append_loop new_FileState contents, ms_pos = 0\<rparr>"

lemma mem_file_unread [simp]: "ms_unread (mem_file c) = c" "ms_inv (mem_file c)"
  using FileState_Append_loop_contents [OF fs_inv_new(1), of c]
  by (simp_all add: mem_file_def ms_unread_def ms_inv_def)

lemma new_log_written:
  obtains w where "add_records WritableFileImpl (new_Writer new_FileState) ds = (OK, w)"
    "fs_contents (dest w) = fst (log_records 0 ds)" "fs_inv (dest w)"
  using mem_writable.add_records_written [of "new_Writer new_FileState" ds] by (auto simp: new_Writer_def)

text \<open>
  C1. A log is read back as the records that were written: after adding any sequence of
  records of any lengths to a new log, reading the file from the start returns exactly these
  records in order, with or without checksum verification, and reports no corruption.
\<close>

theorem log_roundtrip:
  "\<exists>w r. add_records WritableFileImpl (new_Writer new_FileState) ds = (OK, w) \<and>
     read_all SequentialFileImpl (new_Reader \<lparr>ms_file = dest w, ms_pos = 0\<rparr> rep ck 0) = Some (ds, r) \<and>
     reports r = []"
proof -
  obtain w where w: "add_records WritableFileImpl (new_Writer new_FileState) ds = (OK, w)"
    "fs_contents (dest w) = fst (log_records 0 ds)" "fs_inv (dest w)"
    by (rule new_log_written)
  let ?f = "\<lparr>ms_file = dest w, ms_pos = 0\<rparr>" and ?n = "length (fst (log_records 0 ds))"
  have "reader_at ms_unread ms_inv kBlockSize (take ?n (fst (log_records kBlockSize ds))) (new_Reader ?f rep ck 0)"
    using mem_sequential.reader_at_new [of ?f rep ck] w(2, 3)
    by (simp add: ms_unread_def ms_inv_def log_records_block_end)
  from mem_sequential.read_all_truncated [OF this] obtain r j where
    "read_all SequentialFileImpl (new_Reader ?f rep ck 0) = Some (take j ds, r)"
    "reports r = []" "length ds \<le> j"
    by (force simp: log_records_block_end new_Reader_def)
  with w(1) show ?thesis by auto
qed

text \<open>
  C10. A log that lost its tail in a crash yields the records that were written completely:
  reading a file that holds only the first \<open>n\<close> bytes of a log returns the longest prefix of
  the records whose bytes all lie within these \<open>n\<close>, and the torn tail is not reported as a
  corruption.
\<close>

theorem log_torn_tail:
  "\<exists>w r j. add_records WritableFileImpl (new_Writer new_FileState) ds = (OK, w) \<and>
     read_all SequentialFileImpl (new_Reader (mem_file (take n (fs_contents (dest w)))) rep ck 0)
       = Some (take j ds, r) \<and> reports r = [] \<and> j \<le> length ds \<and>
     length (fs_contents (dest (snd (add_records WritableFileImpl (new_Writer new_FileState) (take j ds))))) \<le> n \<and>
     (j < length ds \<longrightarrow>
       n < length (fs_contents (dest (snd (add_records WritableFileImpl (new_Writer new_FileState) (take (j + 1) ds))))))"
proof -
  obtain w where w: "add_records WritableFileImpl (new_Writer new_FileState) ds = (OK, w)"
    "fs_contents (dest w) = fst (log_records 0 ds)"
    by (rule new_log_written)
  let ?r = "new_Reader (mem_file (take n (fst (log_records 0 ds)))) rep ck 0"
  have at: "reader_at ms_unread ms_inv kBlockSize (take n (fst (log_records kBlockSize ds))) ?r"
    using mem_sequential.reader_at_new [of "mem_file (take n (fst (log_records 0 ds)))" rep ck]
    by (simp add: log_records_block_end)
  obtain r j where j: "read_all SequentialFileImpl ?r = Some (take j ds, r)" "reports r = []" "j \<le> length ds"
    "\<forall>i \<le> length ds. i \<le> j \<longleftrightarrow> length (fst (log_records 0 (take i ds))) \<le> n"
    using mem_sequential.read_all_truncated [OF at] by (auto simp: log_records_block_end new_Reader_def)
  have c: "fs_contents (dest (snd (add_records WritableFileImpl (new_Writer new_FileState) xs))) =
      fst (log_records 0 xs)" for xs
    by (rule new_log_written [of xs]) simp
  have "length (fst (log_records 0 (take j ds))) \<le> n" using j(3, 4) by blast
  moreover have "j < length ds \<longrightarrow> n < length (fst (log_records 0 (take (j + 1) ds)))"
    using spec [OF j(4), of "j + 1"] by auto
  ultimately show ?thesis
    using w j(1, 2, 3) c by (intro exI [of _ w] exI [of _ r] exI [of _ j]) simp
qed

theorem log_torn_tail_witness:
  "\<exists>w r j. add_records WritableFileImpl (new_Writer new_FileState) [[1], [2, 3]] = (OK, w) \<and>
     read_all SequentialFileImpl (new_Reader (mem_file (take 10 (fs_contents (dest w)))) True True 0)
       = Some (take j [[1], [2, 3]], r) \<and> reports r = []"
  using log_torn_tail [of "[[1], [2, 3]]" 10 True True] by blast

text \<open>
  C18. Reading always ends, whatever the file holds: for arbitrary file contents, any initial
  offset and any settings, each read returns and the end of the log is reported after
  finitely many records.
\<close>

theorem log_reader_terminates:
  "\<exists>records r. read_all SequentialFileImpl (new_Reader (mem_file contents) rep ck offset) = Some (records, r)"
  by (rule mem_sequential.read_all_total) (simp add: new_Reader_def)

end
