(* ===== verification/Bloom.thy ===== *)
theory Bloom
  imports Coding
begin

text \<open>
  \<open>util/hash.cc\<close>, \<open>include/leveldb/filter_policy.h\<close> and \<open>util/bloom.cc\<close>: the hash
  function, the \<open>FilterPolicy\<close> interface with its contract (a filter never rejects a key
  it was built from), and the built-in Bloom filter, which is shown to fulfil it.
\<close>

section \<open>Hash\<close>

function Hash_loop :: "u32 \<Rightarrow> bytes \<Rightarrow> u32 \<times> bytes" where
  "Hash_loop h data =
     (if 4 \<le> length data then
        (let w = DecodeFixed32 data;
             h = h + w;
             h = h * 0xc6a4a793;
             h = h XOR drop_bit 16 h
         in Hash_loop h (drop 4 data))
      else (h, data))"
  by pat_completeness auto
termination
  by (relation "measure (\<lambda>(h, data). length data)") auto

definition Hash :: "bytes \<Rightarrow> u32 \<Rightarrow> u32" where
  "Hash data seed =
     (let m = 0xc6a4a793;
          r = 24;
          h = seed XOR (of_nat (length data) * m);
          (h, data) = Hash_loop h data;
          h = (if length data = 3 then h + push_bit 16 (ucast (data ! 2)) else h);
          h = (if length data = 3 \<or> length data = 2 then h + push_bit 8 (ucast (data ! 1)) else h)
      in if length data = 3 \<or> length data = 2 \<or> length data = 1
         then (let h = h + ucast (data ! 0); h = h * m in h XOR drop_bit r h)
         else h)"

declare Hash_loop.simps [simp del]

section \<open>The filter-policy interface\<close>

record FilterPolicy =
  PolicyName :: bytes
  CreateFilter :: "bytes list \<Rightarrow> bytes \<Rightarrow> bytes"
  KeyMayMatch :: "bytes \<Rightarrow> bytes \<Rightarrow> bool"

text \<open>
  The contract: \<open>CreateFilter\<close> appends to its destination and a key of the list passed to
  it always matches the filter it appended.
\<close>

locale filter_policy =
  fixes p :: FilterPolicy
    and dom :: "bytes \<Rightarrow> bool"
  assumes create_append: "list_all dom keys \<Longrightarrow> CreateFilter p keys dst = dst @ CreateFilter p keys []"
    and may_match: "list_all dom keys \<Longrightarrow> key \<in> set keys \<Longrightarrow> KeyMayMatch p key (CreateFilter p keys [])"
begin

lemma may_match_suffix:
  "list_all dom keys \<Longrightarrow> key \<in> set keys \<Longrightarrow>
   KeyMayMatch p key (drop (length dst) (CreateFilter p keys dst))"
  by (subst create_append) (simp_all add: may_match)

end

section \<open>The Bloom filter\<close>

definition BloomHash :: "bytes \<Rightarrow> u32" where
  "BloomHash key = Hash key 0xbc9f1d34"

text \<open>
  The number of probes. \<open>bits_per_key * 0.69\<close> is rounded down; below the clamp at 30 the
  product is never within rounding distance of an integer.
\<close>

definition BloomFilterPolicy_k :: "nat \<Rightarrow> nat" where
  "BloomFilterPolicy_k bits_per_key =
     (let k = bits_per_key * 69 div 100;
          k = (if k < 1 then 1 else k)
      in if k > 30 then 30 else k)"

fun bloom_set_probes :: "nat \<Rightarrow> u32 \<Rightarrow> nat \<Rightarrow> u32 \<Rightarrow> bytes \<Rightarrow> bytes" where
  "bloom_set_probes bits delta 0 h arr = arr"
| "bloom_set_probes bits delta (Suc j) h arr =
     (let bitpos = unat h mod bits
      in bloom_set_probes bits delta j (h + delta)
           (arr[bitpos div 8 := arr ! (bitpos div 8) OR push_bit (bitpos mod 8) 1]))"

fun bloom_check_probes :: "nat \<Rightarrow> u32 \<Rightarrow> nat \<Rightarrow> u32 \<Rightarrow> bytes \<Rightarrow> bool" where
  "bloom_check_probes bits delta 0 h arr = True"
| "bloom_check_probes bits delta (Suc j) h arr =
     (let bitpos = unat h mod bits
      in if arr ! (bitpos div 8) AND push_bit (bitpos mod 8) 1 = 0 then False
         else bloom_check_probes bits delta j (h + delta) arr)"

definition bloom_delta :: "u32 \<Rightarrow> u32" where
  "bloom_delta h = drop_bit 17 h OR push_bit 15 h"

definition bloom_add :: "nat \<Rightarrow> nat \<Rightarrow> bytes \<Rightarrow> bytes \<Rightarrow> bytes" where
  "bloom_add k bits arr key =
     (let h = BloomHash key in bloom_set_probes bits (bloom_delta h) k h arr)"

definition BloomCreateFilter :: "nat \<Rightarrow> bytes list \<Rightarrow> bytes \<Rightarrow> bytes" where
  "BloomCreateFilter bits_per_key keys dst =
     (let k = BloomFilterPolicy_k bits_per_key;
          bits = length keys * bits_per_key;
          bits = (if bits < 64 then 64 else bits);
          byte_count = (bits + 7) div 8;
          bits = byte_count * 8;
          arr = foldl (bloom_add k bits) (replicate byte_count 0) keys
      in dst @ arr @ [of_nat k])"

text \<open>\<open>size_t k = array[len - 1]\<close> reads a (signed) \<open>char\<close>, so the byte is sign-extended.\<close>

definition BloomKeyMayMatch :: "bytes \<Rightarrow> bytes \<Rightarrow> bool" where
  "BloomKeyMayMatch key bloom_filter =
     (let len = length bloom_filter
      in if len < 2 then False
         else
           (let bits = (len - 1) * 8;
                k = unat (scast (bloom_filter ! (len - 1)) :: u64)
            in if k > 30 then True
               else (let h = BloomHash key
                     in bloom_check_probes bits (bloom_delta h) k h bloom_filter)))"

definition NewBloomFilterPolicy :: "nat \<Rightarrow> FilterPolicy" where
  "NewBloomFilterPolicy bits_per_key =
     \<lparr>PolicyName = str ''leveldb.BuiltinBloomFilter2'',
      CreateFilter = BloomCreateFilter bits_per_key,
      KeyMayMatch = BloomKeyMayMatch\<rparr>"

section \<open>No false negatives\<close>

definition probe_set :: "bytes \<Rightarrow> nat \<Rightarrow> bool" where
  "probe_set arr i \<longleftrightarrow> bit (arr ! (i div 8)) (i mod 8)"

lemma length_bloom_set_probes [simp]: "length (bloom_set_probes bits delta k h arr) = length arr"
  by (induction bits delta k h arr rule: bloom_set_probes.induct) (simp_all add: Let_def)

lemma bloom_check_probes_iff:
  "bloom_check_probes bits delta k h arr \<longleftrightarrow>
   (\<forall>j<k. probe_set arr (unat (h + of_nat j * delta) mod bits))"
proof (induction bits delta k h arr rule: bloom_check_probes.induct)
  case (2 bits delta k h arr)
  have "(\<forall>j<Suc k. probe_set arr (unat (h + of_nat j * delta) mod bits)) \<longleftrightarrow>
     probe_set arr (unat h mod bits) \<and>
     (\<forall>j<k. probe_set arr (unat (h + delta + of_nat j * delta) mod bits))"
    by (subst All_less_Suc2) (simp add: algebra_simps)
  then show ?case using 2 by (simp add: Let_def and_exp_eq_0_iff_not_bit probe_set_def)
qed simp

lemma probe_set_update:
  assumes "i < 8 * length arr" "b < 8 * length arr"
  shows "probe_set (arr[i div 8 := arr ! (i div 8) OR 2 ^ (i mod 8)]) b \<longleftrightarrow>
    b = i \<or> probe_set arr b"
proof (cases "b div 8 = i div 8")
  case True
  have "b = i \<longleftrightarrow> b mod 8 = i mod 8" using True by (metis div_mult_mod_eq)
  moreover have "i div 8 < length arr" using assms by linarith
  ultimately show ?thesis using True by (auto simp: probe_set_def bit_simps bit_exp_iff)
next
  case False
  then show ?thesis by (auto simp: probe_set_def)
qed

lemma bloom_set_probes_iff:
  assumes "8 * length arr = bits" "0 < bits" "b < bits"
  shows "probe_set (bloom_set_probes bits delta k h arr) b \<longleftrightarrow>
    probe_set arr b \<or> (\<exists>j<k. b = unat (h + of_nat j * delta) mod bits)"
  using assms
proof (induction bits delta k h arr rule: bloom_set_probes.induct)
  case (2 bits delta k h arr)
  have "(\<exists>j<Suc k. b = unat (h + of_nat j * delta) mod bits) \<longleftrightarrow>
     b = unat h mod bits \<or> (\<exists>j<k. b = unat (h + delta + of_nat j * delta) mod bits)"
    by (subst Ex_less_Suc2) (simp add: algebra_simps)
  moreover have "unat h mod bits < 8 * length arr" using 2 by simp
  ultimately show ?case using 2 by (auto simp: Let_def probe_set_update)
qed simp

lemma length_bloom_add [simp]: "length (bloom_add k bits arr key) = length arr"
  by (simp add: bloom_add_def Let_def)

lemma length_bloom_adds [simp]: "length (foldl (bloom_add k bits) arr keys) = length arr"
  by (induction keys arbitrary: arr) simp_all

lemma bloom_adds_keep:
  "8 * length arr = bits \<Longrightarrow> 0 < bits \<Longrightarrow> b < bits \<Longrightarrow> probe_set arr b \<Longrightarrow>
   probe_set (foldl (bloom_add k bits) arr keys) b"
proof (induction keys arbitrary: arr)
  case (Cons x keys)
  then have "probe_set (bloom_add k bits arr x) b"
    by (simp add: bloom_add_def Let_def bloom_set_probes_iff)
  with Cons show ?case by simp
qed simp

lemma bloom_adds_check:
  assumes "8 * length arr = bits" "0 < bits" "key \<in> set keys"
  shows "bloom_check_probes bits (bloom_delta (BloomHash key)) k (BloomHash key)
           (foldl (bloom_add k bits) arr keys)"
  using assms
proof (induction keys arbitrary: arr)
  case (Cons x keys)
  show ?case
  proof (cases "key = x")
    case True
    have "probe_set (bloom_add k bits arr key) (unat (BloomHash key + of_nat j * bloom_delta (BloomHash key)) mod bits)"
      if "j < k" for j
      using that Cons.prems by (auto simp: bloom_add_def Let_def bloom_set_probes_iff)
    then show ?thesis
      using True Cons.prems by (simp add: bloom_check_probes_iff bloom_adds_keep)
  next
    case False
    with Cons show ?thesis by simp
  qed
qed simp

lemma bloom_check_append:
  "8 * length arr = bits \<Longrightarrow> 0 < bits \<Longrightarrow>
   bloom_check_probes bits delta k h (arr @ rest) = bloom_check_probes bits delta k h arr"
  by (simp add: bloom_check_probes_iff probe_set_def nth_append less_mult_imp_div_less mult.commute)

lemma probes_byte: "k \<le> 30 \<Longrightarrow> unat (scast (of_nat k :: byte) :: u64) = k"
proof -
  assume "k \<le> 30"
  then have "k \<in> set [0..<31]" by simp
  then show ?thesis by (auto simp: upt_rec)
qed

interpretation bloom: filter_policy "NewBloomFilterPolicy bits_per_key" "\<lambda>_. True" for bits_per_key
proof unfold_locales
  fix keys dst key
  show "CreateFilter (NewBloomFilterPolicy bits_per_key) keys dst
      = dst @ CreateFilter (NewBloomFilterPolicy bits_per_key) keys []"
    by (simp add: NewBloomFilterPolicy_def BloomCreateFilter_def Let_def)
  assume key: "key \<in> set keys"
  define k where "k = BloomFilterPolicy_k bits_per_key"
  define m where "m = ((if length keys * bits_per_key < 64 then 64 else length keys * bits_per_key) + 7) div 8"
  define arr where "arr = foldl (bloom_add k (m * 8)) (replicate m 0) keys"
  have f: "CreateFilter (NewBloomFilterPolicy bits_per_key) keys [] = arr @ [of_nat k]"
    by (simp add: NewBloomFilterPolicy_def BloomCreateFilter_def Let_def arr_def m_def k_def)
  have k: "k \<le> 30" by (simp add: k_def BloomFilterPolicy_k_def Let_def)
  have m: "0 < m" "length arr = m" by (auto simp: m_def arr_def)
  have "bloom_check_probes (m * 8) (bloom_delta (BloomHash key)) k (BloomHash key) arr"
    unfolding arr_def using key m(1) by (intro bloom_adds_check) auto
  then have "bloom_check_probes (m * 8) (bloom_delta (BloomHash key)) k (BloomHash key) (arr @ [of_nat k])"
    using m by (subst bloom_check_append) auto
  then show "KeyMayMatch (NewBloomFilterPolicy bits_per_key) key
      (CreateFilter (NewBloomFilterPolicy bits_per_key) keys [])"
    unfolding f using m k
    by (simp add: NewBloomFilterPolicy_def BloomKeyMayMatch_def Let_def nth_append probes_byte)
qed

section \<open>Properties\<close>

text \<open>
  C11: a Bloom filter has no false negatives: whatever the number of bits per key, every
  key of the list a filter was built from matches that filter, also when the filter was
  appended after other data.
\<close>

theorem bloom_no_false_negative:
  assumes "key \<in> set keys"
  shows "BloomKeyMayMatch key (drop (length dst) (BloomCreateFilter bits_per_key keys dst))"
  using bloom.may_match_suffix [of keys key bits_per_key dst] assms
  by (simp add: NewBloomFilterPolicy_def list_all_iff)

theorem bloom_no_false_negative_witness:
  "BloomKeyMayMatch [0x61] (drop (length [0x07 :: byte]) (BloomCreateFilter 10 [[0x62], [0x61]] [0x07]))"
  using bloom_no_false_negative [of "[0x61]" "[[0x62], [0x61]]" "[0x07]" 10] by simp

end
