(* ===== verification/DbFormat.thy ===== *)
theory DbFormat
  imports Coding Comparator Bloom
begin

text \<open>
  \<open>db/dbformat.h\<close> and \<open>db/dbformat.cc\<close>: internal keys (a user key followed by a packed
  sequence number and value type), their order, lookup keys and the filter policy on
  internal keys. The internal comparator is a comparator whenever its user comparator is.
\<close>

section \<open>Value types and sequence numbers\<close>

datatype ValueType = kTypeDeletion | kTypeValue

fun value_type_num :: "ValueType \<Rightarrow> u64" where
  "value_type_num kTypeDeletion = 0"
| "value_type_num kTypeValue = 1"

definition kValueTypeForSeek :: ValueType where
  "kValueTypeForSeek = kTypeValue"

definition kMaxSequenceNumber :: u64 where
  "kMaxSequenceNumber = push_bit 56 1 - 1"

instantiation ValueType :: linorder
begin

definition less_eq_ValueType :: "ValueType \<Rightarrow> ValueType \<Rightarrow> bool" where
  "less_eq_ValueType a b \<longleftrightarrow> value_type_num a \<le> value_type_num b"

definition less_ValueType :: "ValueType \<Rightarrow> ValueType \<Rightarrow> bool" where
  "less_ValueType a b \<longleftrightarrow> value_type_num a < value_type_num b"

instance
proof
  fix x y :: ValueType
  show "x \<le> y \<Longrightarrow> y \<le> x \<Longrightarrow> x = y"
    by (cases x; cases y) (auto simp: less_eq_ValueType_def)
qed (auto simp: less_eq_ValueType_def less_ValueType_def)

end

section \<open>Internal keys\<close>

record ParsedInternalKey =
  user_key :: bytes
  sequence :: u64
  vtype :: ValueType

definition InternalKeyEncodingLength :: "ParsedInternalKey \<Rightarrow> nat" where
  "InternalKeyEncodingLength key = length (user_key key) + 8"

definition PackSequenceAndType :: "u64 \<Rightarrow> ValueType \<Rightarrow> u64" where
  "PackSequenceAndType seq t = push_bit 8 seq OR value_type_num t"

definition AppendInternalKey :: "bytes \<Rightarrow> ParsedInternalKey \<Rightarrow> bytes" where
  "AppendInternalKey result key =
     PutFixed64 (result @ user_key key) (PackSequenceAndType (sequence key) (vtype key))"

definition ParseInternalKey :: "bytes \<Rightarrow> ParsedInternalKey option" where
  "ParseInternalKey internal_key =
     (let n = length internal_key in
      if n < 8 then None
      else
        (let num = DecodeFixed64 (drop (n - 8) internal_key);
             c = (ucast (num AND 0xff) :: byte)
         in if c \<le> 1
            then Some \<lparr>user_key = take (n - 8) internal_key, sequence = drop_bit 8 num,
                       vtype = (if c = 0 then kTypeDeletion else kTypeValue)\<rparr>
            else None))"

definition ExtractUserKey :: "bytes \<Rightarrow> bytes" where
  "ExtractUserKey internal_key = take (length internal_key - 8) internal_key"

text \<open>\<open>class InternalKey\<close> wraps the encoded string \<open>rep_\<close>; its empty value is invalid.\<close>

definition InternalKey :: "bytes \<Rightarrow> u64 \<Rightarrow> ValueType \<Rightarrow> bytes" where
  "InternalKey ukey s t = AppendInternalKey [] \<lparr>user_key = ukey, sequence = s, vtype = t\<rparr>"

definition InternalKey_DecodeFrom :: "bytes \<Rightarrow> bytes \<times> bool" where
  "InternalKey_DecodeFrom s = (s, s \<noteq> [])"

section \<open>The internal comparator and filter policy\<close>

definition internal_trailer :: "bytes \<Rightarrow> u64" where
  "internal_trailer k = DecodeFixed64 (drop (length k - 8) k)"

definition InternalCompare :: "Comparator \<Rightarrow> bytes \<Rightarrow> bytes \<Rightarrow> int" where
  "InternalCompare user_comparator akey bkey =
     (let r = Compare user_comparator (ExtractUserKey akey) (ExtractUserKey bkey)
      in if r = 0
         then (let anum = internal_trailer akey; bnum = internal_trailer bkey
               in if anum > bnum then - 1 else if anum < bnum then 1 else r)
         else r)"

definition InternalFindShortestSeparator :: "Comparator \<Rightarrow> bytes \<Rightarrow> bytes \<Rightarrow> bytes" where
  "InternalFindShortestSeparator user_comparator start limit =
     (let user_start = ExtractUserKey start;
          user_limit = ExtractUserKey limit;
          tmp = FindShortestSeparator user_comparator user_start user_limit
      in if length tmp < length user_start \<and> Compare user_comparator user_start tmp < 0
         then PutFixed64 tmp (PackSequenceAndType kMaxSequenceNumber kValueTypeForSeek)
         else start)"

definition InternalFindShortSuccessor :: "Comparator \<Rightarrow> bytes \<Rightarrow> bytes" where
  "InternalFindShortSuccessor user_comparator key =
     (let ukey = ExtractUserKey key;
          tmp = FindShortSuccessor user_comparator ukey
      in if length tmp < length ukey \<and> Compare user_comparator ukey tmp < 0
         then PutFixed64 tmp (PackSequenceAndType kMaxSequenceNumber kValueTypeForSeek)
         else key)"

definition InternalKeyComparator :: "Comparator \<Rightarrow> Comparator" where
  "InternalKeyComparator c =
     \<lparr>Name = str ''leveldb.InternalKeyComparator'',
      Compare = InternalCompare c,
      FindShortestSeparator = InternalFindShortestSeparator c,
      FindShortSuccessor = InternalFindShortSuccessor c\<rparr>"

definition InternalFilterPolicy :: "FilterPolicy \<Rightarrow> FilterPolicy" where
  "InternalFilterPolicy user_policy =
     \<lparr>PolicyName = PolicyName user_policy,
      CreateFilter = (\<lambda>keys dst. CreateFilter user_policy (map ExtractUserKey keys) dst),
      KeyMayMatch = (\<lambda>key f. KeyMayMatch user_policy (ExtractUserKey key) f)\<rparr>"

section \<open>Lookup keys\<close>

text \<open>The buffer from \<open>start_\<close> to \<open>end_\<close>, and \<open>kstart_ - start_\<close>.\<close>

record LookupKeyRep =
  lk_start :: bytes
  lk_kstart :: nat

definition LookupKey :: "bytes \<Rightarrow> u64 \<Rightarrow> LookupKeyRep" where
  "LookupKey ukey s =
     (let usize = length ukey;
          dst = EncodeVarint32 (of_nat (usize + 8))
      in \<lparr>lk_start = dst @ ukey @ EncodeFixed64 (PackSequenceAndType s kValueTypeForSeek),
          lk_kstart = length dst\<rparr>)"

definition memtable_key :: "LookupKeyRep \<Rightarrow> bytes" where
  "memtable_key lk = lk_start lk"

definition internal_key :: "LookupKeyRep \<Rightarrow> bytes" where
  "internal_key lk = drop (lk_kstart lk) (lk_start lk)"

definition lookup_user_key :: "LookupKeyRep \<Rightarrow> bytes" where
  "lookup_user_key lk = take (length (lk_start lk) - lk_kstart lk - 8) (drop (lk_kstart lk) (lk_start lk))"

section \<open>Encoding and parsing\<close>

lemma AppendInternalKey_eq:
  "AppendInternalKey r k = r @ user_key k @ EncodeFixed64 (PackSequenceAndType (sequence k) (vtype k))"
  by (simp add: AppendInternalKey_def PutFixed64_def)

lemma length_AppendInternalKey: "length (AppendInternalKey [] k) = InternalKeyEncodingLength k"
  by (simp add: AppendInternalKey_eq InternalKeyEncodingLength_def)

lemma ExtractUserKey_append [simp]: "ExtractUserKey (u @ EncodeFixed64 n) = u"
  by (simp add: ExtractUserKey_def)

lemma internal_trailer_append [simp]: "internal_trailer (u @ EncodeFixed64 n) = n"
  using DecodeFixed64_Encode [of n "[]"] by (simp add: internal_trailer_def)

lemma Pack_seq: "seq \<le> kMaxSequenceNumber \<Longrightarrow> drop_bit 8 (PackSequenceAndType seq t) = seq"
proof -
  assume "seq \<le> kMaxSequenceNumber"
  then have "unat seq < 2 ^ 56" by (simp add: kMaxSequenceNumber_def word_le_nat_alt)
  then have small: "bit seq n \<Longrightarrow> n < 56" for n by (rule small_word_bit)
  show ?thesis
  proof (rule bit_word_eqI)
    fix n
    show "bit (drop_bit 8 (PackSequenceAndType seq t)) n = bit seq n"
      using small [of n] by (cases t) (auto simp: PackSequenceAndType_def bit_simps)
  qed
qed

lemma Pack_type: "PackSequenceAndType seq t AND 0xff = value_type_num t"
  by (rule bit_word_eqI, cases t) (auto simp: PackSequenceAndType_def bit_simps)

lemma ParseInternalKey_Append [roundtrip]:
  "sequence k \<le> kMaxSequenceNumber \<Longrightarrow> ParseInternalKey (AppendInternalKey [] k) = Some k"
  using DecodeFixed64_Encode [of "PackSequenceAndType (sequence k) (vtype k)" "[]"]
  by (cases "vtype k")
    (simp_all add: ParseInternalKey_def AppendInternalKey_eq Let_def Pack_seq Pack_type)

section \<open>The order of internal keys\<close>

lemma unat_Pack:
  assumes "seq \<le> kMaxSequenceNumber"
  shows "unat (PackSequenceAndType seq t) = 256 * unat seq + (case t of kTypeDeletion \<Rightarrow> 0 | kTypeValue \<Rightarrow> 1)"
proof -
  have b: "unat seq < 2 ^ 56" using assms by (simp add: kMaxSequenceNumber_def word_le_nat_alt)
  have "push_bit 8 seq AND value_type_num t = 0"
    by (rule bit_word_eqI, cases t) (auto simp: bit_simps)
  then have "PackSequenceAndType seq t = push_bit 8 seq + value_type_num t"
    by (simp add: PackSequenceAndType_def disjunctive_add_eq_or)
  also have "unat \<dots> = unat (push_bit 8 seq) + unat (value_type_num t)"
    using b by (cases t) (simp_all add: unat_word_ariths unsigned_push_bit_eq push_bit_eq_mult take_bit_nat_eq_self)
  also have "unat (push_bit 8 seq) = 256 * unat seq"
    using b by (simp add: push_bit_eq_mult unat_word_ariths)
  finally show ?thesis by (cases t) simp_all
qed

lemma Pack_less:
  assumes "s \<le> kMaxSequenceNumber" "s' \<le> kMaxSequenceNumber"
  shows "PackSequenceAndType s t < PackSequenceAndType s' t' \<longleftrightarrow> s < s' \<or> s = s' \<and> t < t'"
  using assms
  by (cases t; cases t')
    (auto simp: word_less_nat_alt unat_Pack less_ValueType_def word_unat_eq_iff)

section \<open>Internal keys are ordered by a comparator\<close>

locale user_comparator = comparator

context user_comparator
begin

lemma InternalCompare_neg:
  assumes "dom (ExtractUserKey a)" "dom (ExtractUserKey b)"
  shows "InternalCompare c a b < 0 \<longleftrightarrow>
    Compare c (ExtractUserKey a) (ExtractUserKey b) < 0 \<or>
    Compare c (ExtractUserKey a) (ExtractUserKey b) = 0 \<and> internal_trailer b < internal_trailer a"
  by (auto simp: InternalCompare_def Let_def)

lemma InternalCompare_pos:
  assumes "dom (ExtractUserKey a)" "dom (ExtractUserKey b)"
  shows "0 < InternalCompare c a b \<longleftrightarrow>
    0 < Compare c (ExtractUserKey a) (ExtractUserKey b) \<or>
    Compare c (ExtractUserKey a) (ExtractUserKey b) = 0 \<and> internal_trailer a < internal_trailer b"
  by (auto simp: InternalCompare_def Let_def)

lemma InternalCompare_trans:
  assumes "dom (ExtractUserKey a)" "dom (ExtractUserKey b)" "dom (ExtractUserKey d)"
    and "InternalCompare c a b \<le> 0" "InternalCompare c b d \<le> 0"
  shows "InternalCompare c a d \<le> 0"
proof -
  let ?a = "ExtractUserKey a" and ?b = "ExtractUserKey b" and ?d = "ExtractUserKey d"
  have le: "Compare c ?a ?b \<le> 0" "Compare c ?b ?d \<le> 0"
    using assms InternalCompare_pos [of a b] InternalCompare_pos [of b d] by force+
  then have "Compare c ?a ?d \<le> 0" using assms compare_trans by blast
  moreover have "\<not> internal_trailer a < internal_trailer d" if eq: "Compare c ?a ?d = 0"
  proof -
    have "Compare c ?a ?b < 0 \<Longrightarrow> Compare c ?a ?d < 0" "Compare c ?b ?d < 0 \<Longrightarrow> Compare c ?a ?d < 0"
      using le assms less_le_trans [of ?a ?b ?d] le_less_trans [of ?a ?b ?d] by blast+
    with eq have "\<not> Compare c ?a ?b < 0" "\<not> Compare c ?b ?d < 0" by linarith+
    then have "Compare c ?a ?b = 0" "Compare c ?b ?d = 0" using le by linarith+
    then show ?thesis
      using assms InternalCompare_pos [of a b] InternalCompare_pos [of b d] by force
  qed
  ultimately show ?thesis
    using InternalCompare_pos [of a d] assms by force
qed

lemma tagged_key:
  "ExtractUserKey (PutFixed64 u n) = u" "internal_trailer (PutFixed64 u n) = n" "8 \<le> length (PutFixed64 u n)"
  by (simp_all add: PutFixed64_def)

lemma InternalFindShortestSeparator_cases:
  assumes "dom (ExtractUserKey a)" "dom (ExtractUserKey b)"
  shows "InternalFindShortestSeparator c a b = a \<or>
    Compare c (ExtractUserKey a) (ExtractUserKey b) < 0 \<and>
    Compare c (ExtractUserKey a) (ExtractUserKey (InternalFindShortestSeparator c a b)) < 0 \<and>
    Compare c (ExtractUserKey (InternalFindShortestSeparator c a b)) (ExtractUserKey b) < 0 \<and>
    dom (ExtractUserKey (InternalFindShortestSeparator c a b)) \<and>
    8 \<le> length (InternalFindShortestSeparator c a b)"
  using separator_less [OF assms] separator_dom [OF assms] separator_idle [OF assms]
  by (cases "Compare c (ExtractUserKey a) (ExtractUserKey b) < 0")
    (auto simp: InternalFindShortestSeparator_def Let_def tagged_key)

lemma InternalFindShortSuccessor_cases:
  assumes "dom (ExtractUserKey a)"
  shows "InternalFindShortSuccessor c a = a \<or>
    Compare c (ExtractUserKey a) (ExtractUserKey (InternalFindShortSuccessor c a)) < 0 \<and>
    dom (ExtractUserKey (InternalFindShortSuccessor c a)) \<and>
    8 \<le> length (InternalFindShortSuccessor c a)"
  using successor_dom [OF assms]
  by (auto simp: InternalFindShortSuccessor_def Let_def tagged_key)

end

sublocale user_comparator \<subseteq> internal: comparator "InternalKeyComparator c"
  "\<lambda>k. 8 \<le> length k \<and> dom (ExtractUserKey k)"
proof unfold_locales
  fix x y z
  assume x: "8 \<le> length x \<and> dom (ExtractUserKey x)"
  show "Compare (InternalKeyComparator c) x x = 0"
    using x by (simp add: InternalKeyComparator_def InternalCompare_def compare_refl Let_def)
  show "8 \<le> length (FindShortSuccessor (InternalKeyComparator c) x) \<and>
      dom (ExtractUserKey (FindShortSuccessor (InternalKeyComparator c) x))"
    using x InternalFindShortSuccessor_cases [of x] by (auto simp: InternalKeyComparator_def)
  show "Compare (InternalKeyComparator c) x (FindShortSuccessor (InternalKeyComparator c) x) \<le> 0"
    using x InternalFindShortSuccessor_cases [of x]
    by (auto simp: InternalKeyComparator_def InternalCompare_def compare_refl Let_def)
  assume y: "8 \<le> length y \<and> dom (ExtractUserKey y)"
  show "Compare (InternalKeyComparator c) x y < 0 \<longleftrightarrow> 0 < Compare (InternalKeyComparator c) y x"
    using x y compare_sign compare_0_sym
    by (simp add: InternalKeyComparator_def InternalCompare_neg InternalCompare_pos)
  show "8 \<le> length (FindShortestSeparator (InternalKeyComparator c) x y) \<and>
      dom (ExtractUserKey (FindShortestSeparator (InternalKeyComparator c) x y))"
    using x y InternalFindShortestSeparator_cases [of x y]
    by (auto simp: InternalKeyComparator_def)
  show "FindShortestSeparator (InternalKeyComparator c) x y = x"
    if "\<not> Compare (InternalKeyComparator c) x y < 0"
    using x y that InternalFindShortestSeparator_cases [of x y]
    by (auto simp: InternalKeyComparator_def InternalCompare_neg)
  show "Compare (InternalKeyComparator c) x (FindShortestSeparator (InternalKeyComparator c) x y) \<le> 0"
    using x y InternalFindShortestSeparator_cases [of x y]
    by (auto simp: InternalKeyComparator_def InternalCompare_def compare_refl Let_def)
  show "Compare (InternalKeyComparator c) (FindShortestSeparator (InternalKeyComparator c) x y) y < 0"
    if "Compare (InternalKeyComparator c) x y < 0"
    using x y that InternalFindShortestSeparator_cases [of x y]
    by (auto simp: InternalKeyComparator_def InternalCompare_neg)
  assume z: "8 \<le> length z \<and> dom (ExtractUserKey z)"
  show "Compare (InternalKeyComparator c) x z \<le> 0"
    if "Compare (InternalKeyComparator c) x y \<le> 0" "Compare (InternalKeyComparator c) y z \<le> 0"
    using x y z that InternalCompare_trans [of x y z] by (simp add: InternalKeyComparator_def)
qed

interpretation bytewise_db: user_comparator BytewiseComparator "\<lambda>_. True"
  by (rule user_comparator.intro) (rule bytewise.comparator_axioms)

text \<open>
  The lookup key of a user key at a snapshot: its parts, and that exactly the entries of
  that user key with a sequence number at most the snapshot's are not before it.
\<close>

lemma LookupKey_parts [simp]:
  "internal_key (LookupKey u s) = InternalKey u s kValueTypeForSeek"
  "lookup_user_key (LookupKey u s) = u"
  "memtable_key (LookupKey u s) =
     EncodeVarint32 (of_nat (length u + 8)) @ InternalKey u s kValueTypeForSeek"
  by (simp_all add: internal_key_def lookup_user_key_def memtable_key_def LookupKey_def Let_def
      InternalKey_def AppendInternalKey_eq)

lemma InternalKey_parts [simp]:
  "ExtractUserKey (InternalKey u s t) = u"
  "internal_trailer (InternalKey u s t) = PackSequenceAndType s t"
  "8 \<le> length (InternalKey u s t)"
  "length (InternalKey u s t) = length u + 8"
  by (simp_all add: InternalKey_def AppendInternalKey_eq)

context user_comparator
begin

lemma InternalKey_less:
  assumes "dom u" "dom v" "s \<le> kMaxSequenceNumber" "s' \<le> kMaxSequenceNumber"
  shows "Compare (InternalKeyComparator c) (InternalKey u s t) (InternalKey v s' t') < 0 \<longleftrightarrow>
    Compare c u v < 0 \<or> Compare c u v = 0 \<and> (s' < s \<or> s' = s \<and> t' < t)"
  using assms by (simp add: InternalKeyComparator_def InternalCompare_neg Pack_less)

lemma lookup_key_le:
  assumes "dom u" "dom v" "s \<le> kMaxSequenceNumber" "s' \<le> kMaxSequenceNumber"
  shows "Compare (InternalKeyComparator c) (internal_key (LookupKey u s)) (InternalKey v s' t) \<le> 0 \<longleftrightarrow>
    Compare c u v < 0 \<or> Compare c u v = 0 \<and> s' \<le> s"
proof -
  have "Compare (InternalKeyComparator c) (InternalKey u s kTypeValue) (InternalKey v s' t) \<le> 0 \<longleftrightarrow>
      \<not> Compare (InternalKeyComparator c) (InternalKey v s' t) (InternalKey u s kTypeValue) < 0"
    using assms internal.not_less [of "InternalKey v s' t" "InternalKey u s kTypeValue"] by simp
  also have "\<dots> \<longleftrightarrow> \<not> (Compare c v u < 0 \<or> Compare c v u = 0 \<and> s < s')"
    using assms by (cases t) (auto simp: InternalKey_less less_ValueType_def)
  also have "\<dots> \<longleftrightarrow> Compare c u v < 0 \<or> Compare c u v = 0 \<and> s' \<le> s"
    using assms compare_sign [of v u] compare_sign [of u v] compare_0_sym [of u v] by auto
  finally show ?thesis by (simp add: kValueTypeForSeek_def)
qed

end

text \<open>A filter policy on user keys gives one on internal keys.\<close>

locale user_filter_policy = filter_policy

sublocale user_filter_policy \<subseteq> internal: filter_policy "InternalFilterPolicy p"
  "\<lambda>k. dom (ExtractUserKey k)"
proof unfold_locales
  fix keys dst key
  assume "list_all (\<lambda>k. dom (ExtractUserKey k)) keys"
  then have d: "list_all dom (map ExtractUserKey keys)" by (simp add: list.pred_map comp_def)
  show "CreateFilter (InternalFilterPolicy p) keys dst = dst @ CreateFilter (InternalFilterPolicy p) keys []"
    using create_append [OF d, of dst] by (simp add: InternalFilterPolicy_def)
  assume "key \<in> set keys"
  then show "KeyMayMatch (InternalFilterPolicy p) key (CreateFilter (InternalFilterPolicy p) keys [])"
    using may_match [OF d] by (simp add: InternalFilterPolicy_def)
qed

interpretation bloom_db: user_filter_policy "NewBloomFilterPolicy bits_per_key" "\<lambda>_. True" for bits_per_key
  by (rule user_filter_policy.intro) (rule bloom.filter_policy_axioms)

section \<open>Properties\<close>

text \<open>
  C27: parsing an encoded internal key returns its user key, sequence number and type, for
  every sequence number the format can hold.
\<close>

theorem internal_key_roundtrip:
  assumes "s \<le> kMaxSequenceNumber"
  shows "ParseInternalKey (InternalKey u s t) = Some \<lparr>user_key = u, sequence = s, vtype = t\<rparr>"
  using assms ParseInternalKey_Append [of "\<lparr>user_key = u, sequence = s, vtype = t\<rparr>"]
  by (simp add: InternalKey_def)

theorem internal_key_roundtrip_witness:
  "ParseInternalKey (InternalKey [0x61] 5 kTypeDeletion) = Some \<lparr>user_key = [0x61], sequence = 5, vtype = kTypeDeletion\<rparr>"
  using internal_key_roundtrip [of 5 "[0x61]" kTypeDeletion] by (simp add: kMaxSequenceNumber_def)

text \<open>
  C13: internal keys are sorted by increasing user key, then by decreasing sequence number,
  then by decreasing type.
\<close>

theorem internal_key_order:
  assumes "s \<le> kMaxSequenceNumber" "s' \<le> kMaxSequenceNumber"
  shows "Compare (InternalKeyComparator BytewiseComparator) (InternalKey u s t) (InternalKey v s' t') < 0 \<longleftrightarrow>
    Slice_compare u v < 0 \<or> u = v \<and> (s' < s \<or> s' = s \<and> t' < t)"
  using assms bytewise_db.InternalKey_less [where u = u and v = v and s = s and s' = s' and t = t and t' = t']
  by (simp add: BytewiseComparator_def Slice_compare_0)

theorem internal_key_order_witness:
  "Compare (InternalKeyComparator BytewiseComparator) (InternalKey [0x61] 9 kTypeValue)
     (InternalKey [0x61] 5 kTypeDeletion) < 0"
  using internal_key_order [of 9 5 "[0x61]" kTypeValue "[0x61]" kTypeDeletion]
  by (simp add: kMaxSequenceNumber_def)

text \<open>
  C16: index separators are sound: the separator computed between two internal keys in
  order is at least the first and strictly less than the second, and the short successor of
  a key is at least that key.
\<close>

theorem internal_separator:
  assumes "8 \<le> length start" "8 \<le> length limit"
    and "Compare (InternalKeyComparator BytewiseComparator) start limit < 0"
  shows "Compare (InternalKeyComparator BytewiseComparator) start
      (InternalFindShortestSeparator BytewiseComparator start limit) \<le> 0 \<and>
    Compare (InternalKeyComparator BytewiseComparator)
      (InternalFindShortestSeparator BytewiseComparator start limit) limit < 0 \<and>
    Compare (InternalKeyComparator BytewiseComparator) start
      (InternalFindShortSuccessor BytewiseComparator start) \<le> 0"
  using assms bytewise_db.internal.separator_ge [of start limit]
    bytewise_db.internal.separator_less [of start limit] bytewise_db.internal.successor_ge [of start]
  by (simp add: InternalKeyComparator_def)

theorem internal_separator_witness:
  "Compare (InternalKeyComparator BytewiseComparator)
     (InternalFindShortestSeparator BytewiseComparator
        (InternalKey [0x61, 0x61, 0x61] 5 kTypeValue) (InternalKey [0x63] 7 kTypeValue))
     (InternalKey [0x63] 7 kTypeValue) < 0"
proof -
  have "Compare (InternalKeyComparator BytewiseComparator)
      (InternalKey [0x61, 0x61, 0x61] 5 kTypeValue) (InternalKey [0x63] 7 kTypeValue) < 0"
    by (simp add: InternalKeyComparator_def InternalCompare_def BytewiseComparator_def Let_def)
  from internal_separator [OF _ _ this] show ?thesis by simp
qed

text \<open>
  C17: among the entries of its user key, a lookup key sorts before or at exactly those a read
  at its snapshot may see, the ones with a sequence number of at most the snapshot's. It also
  sorts before every entry of a larger user key and after every entry of a smaller one.
\<close>

theorem lookup_key_visibility:
  assumes "s \<le> kMaxSequenceNumber" "s' \<le> kMaxSequenceNumber"
  shows "Compare (InternalKeyComparator BytewiseComparator) (internal_key (LookupKey u s)) (InternalKey v s' t) \<le> 0
    \<longleftrightarrow> Slice_compare u v < 0 \<or> u = v \<and> s' \<le> s"
  using assms bytewise_db.lookup_key_le [where u = u and v = v and s = s and s' = s' and t = t]
  by (simp add: BytewiseComparator_def Slice_compare_0)

theorem lookup_key_visibility_witness:
  "Compare (InternalKeyComparator BytewiseComparator) (internal_key (LookupKey [0x61] 5)) (InternalKey [0x61] 3 kTypeValue) \<le> 0"
  using lookup_key_visibility [of 5 3 "[0x61]" "[0x61]" kTypeValue] by (simp add: kMaxSequenceNumber_def)

end
