(* ===== verification/Rand.thy ===== *)
theory Rand
  imports Prelude
begin

text \<open>
  \<open>util/random.h\<close>: the multiplicative congruential generator behind the skip list heights.
  The shift-and-add reduction is shown to compute the modulus for every seed the
  constructor allows.
\<close>

definition new_Random :: "u32 \<Rightarrow> u32" where
  "new_Random s =
     (let seed = s AND 0x7fffffff
      in if seed = 0 \<or> seed = 2147483647 then 1 else seed)"

definition Random_Next :: "u32 \<Rightarrow> u32 \<times> u32" where
  "Random_Next seed =
     (let M = 2147483647 :: u32;
          A = 16807 :: u64;
          product = ucast seed * A;
          seed = (ucast (drop_bit 31 product + (product AND ucast M)) :: u32);
          seed = (if seed > M then seed - M else seed)
      in (seed, seed))"

definition Random_Uniform :: "u32 \<Rightarrow> u32 \<Rightarrow> u32 \<times> u32" where
  "Random_Uniform n seed = (let (r, seed) = Random_Next seed in (r mod n, seed))"

definition OneIn :: "u32 \<Rightarrow> u32 \<Rightarrow> bool \<times> u32" where
  "OneIn n seed = (let (r, seed) = Random_Next seed in (r mod n = 0, seed))"

definition Skewed :: "u32 \<Rightarrow> u32 \<Rightarrow> u32 \<times> u32" where
  "Skewed max_log seed =
     (let (b, seed) = Random_Uniform (max_log + 1) seed
      in Random_Uniform (push_bit (unat b) 1) seed)"

lemma Random_range: "1 \<le> unat (new_Random s) \<and> unat (new_Random s) < 2147483647"
proof -
  let ?x = "s AND 0x7fffffff"
  have "?x = take_bit 31 s" by (simp add: take_bit_eq_mask mask_numeral)
  then have "unat ?x < 2 ^ 31"
    using take_bit_nat_less_exp [of 31 "unat s"] by (simp add: unsigned_take_bit_eq)
  moreover have "unat ?x \<noteq> 0" if "?x \<noteq> 0" using that by (simp add: unat_eq_0)
  moreover have "unat ?x \<noteq> 2147483647" if "?x \<noteq> 2147483647" using that by (simp add: word_unat_eq_iff)
  ultimately show ?thesis by (auto simp: new_Random_def Let_def)
qed

text \<open>
  C28. One step of the generator is multiplication by 16807 modulo the prime \<open>2\<^sup>3\<^sup>1 - 1\<close>, and
  seeds stay strictly between 0 and the modulus: the sequence never gets stuck at either.
\<close>

theorem Random_Next_is_mod:
  assumes "1 \<le> unat seed" "unat seed < 2147483647"
  shows "unat (fst (Random_Next seed)) = (unat seed * 16807) mod 2147483647 \<and>
    snd (Random_Next seed) = fst (Random_Next seed) \<and>
    1 \<le> unat (fst (Random_Next seed)) \<and> unat (fst (Random_Next seed)) < 2147483647"
proof -
  let ?M = "2147483647 :: nat" and ?p = "unat seed * 16807"
  define hi lo where "hi = ?p div 2 ^ 31" and "lo = ?p mod 2 ^ 31"
  have p: "?p = hi * ?M + (hi + lo)" unfolding hi_def lo_def
    using div_mult_mod_eq [of ?p "2 ^ 31"] by simp
  have "?p < 2 ^ 31 * 16807" using assms(2) by simp
  then have hi: "hi < 16807" unfolding hi_def by (simp add: less_mult_imp_div_less mult.commute)
  have lo: "lo < 2 ^ 31" unfolding lo_def by simp
  have "coprime ?M 16807" by (simp add: coprime_iff_gcd_eq_1 gcd_nat.simps)
  moreover have "\<not> ?M dvd unat seed" using assms by (auto dest: dvd_imp_le)
  ultimately have "\<not> ?M dvd ?p" using coprime_dvd_mult_left_iff by blast
  then have m: "?p mod ?M \<noteq> 0" by (simp add: mod_eq_0_iff_dvd)
  have r: "?p mod ?M = (hi + lo) mod ?M" by (subst p) (rule mod_mult_self3)
  define w where "w = (ucast seed * 16807 :: u64)"
  have "unat (ucast seed :: u64) = unat seed" by (rule unat_ucast_up) simp
  then have w: "unat w = ?p" using assms(2) by (simp add: unat_word_ariths w_def)
  have "w AND ucast (2147483647 :: u32) = take_bit 31 w" by (simp add: take_bit_eq_mask mask_numeral)
  then have l: "unat (w AND ucast (2147483647 :: u32)) = lo"
    by (simp add: take_bit_eq_mod unat_mod_distrib w lo_def)
  have h: "unat (drop_bit 31 w) = hi"
    by (simp add: drop_bit_eq_div unat_div_distrib w hi_def)
  have sum: "unat (ucast (drop_bit 31 w + (w AND ucast (2147483647 :: u32))) :: u32) = hi + lo"
    using hi lo by (simp only: unsigned_ucast_eq unat_word_ariths l h) (simp add: take_bit_nat_eq_self)
  show ?thesis
  proof (cases "hi + lo > ?M")
    case True
    then have "(hi + lo) mod ?M = hi + lo - ?M" using hi lo by (subst mod_if) simp
    moreover have "1 \<le> hi + lo - ?M" "hi + lo - ?M < ?M" using True hi lo by simp_all
    ultimately show ?thesis
      using True sum r m hi lo by (simp add: Random_Next_def Let_def w_def [symmetric] word_less_nat_alt unat_sub word_le_nat_alt)
  next
    case False
    then have "hi + lo \<noteq> ?M" using m r by auto
    then show ?thesis
      using False sum r m by (auto simp: Random_Next_def Let_def w_def [symmetric] word_less_nat_alt)
  qed
qed

theorem Random_Next_is_mod_witness:
  "1 \<le> unat (new_Random 0xdeadbeef) \<and> unat (new_Random 0xdeadbeef) < 2147483647 \<and>
    unat (fst (Random_Next (new_Random 0xdeadbeef))) = (unat (new_Random 0xdeadbeef) * 16807) mod 2147483647"
  using Random_Next_is_mod [of "new_Random 0xdeadbeef"] Random_range [of "0xdeadbeef"] by blast

end
