(* ===== verification/SkipList.thy ===== *)
theory SkipList
  imports Comparator Rand "HOL-Library.Monad_Syntax"
begin

text \<open>
  \<open>db/skiplist.h\<close>: the skip list under the memtable, with its nodes in an explicit heap.
  The list at every level is shown to be the nodes of that height in key order; searches,
  iteration and insertion are specified by the sorted list of keys, and a reader that runs
  between the single stores of an insertion is shown to return a correct result.
\<close>

section \<open>Nodes\<close>

text \<open>
  A pointer is an address, \<^const>\<open>None\<close> being \<open>nullptr\<close>; \<open>head_\<close> is at address 0. An access
  through a dangling pointer or beyond the height of a node makes an operation return
  \<^const>\<open>None\<close>. The links of a new node are stored before anything can reach them; the
  model starts them as null.
\<close>

record 'k Node =
  node_key :: 'k
  node_next :: "nat option list"

record 'k SkipList =
  sl_nodes :: "nat \<rightharpoonup> 'k Node"
  sl_max_height :: nat
  sl_rnd :: u32
  sl_fresh :: nat

definition kMaxHeight :: nat where
  "kMaxHeight = 12"

definition Node_Next :: "'k SkipList \<Rightarrow> nat \<Rightarrow> nat \<Rightarrow> nat option option" where
  "Node_Next s x n =
     do { nd \<leftarrow> sl_nodes s x;
          if n < length (node_next nd) then Some (node_next nd ! n) else None }"

definition Node_SetNext :: "'k SkipList \<Rightarrow> nat \<Rightarrow> nat \<Rightarrow> nat option \<Rightarrow> 'k SkipList option" where
  "Node_SetNext s x n p =
     do { nd \<leftarrow> sl_nodes s x;
          if n < length (node_next nd)
          then Some (s\<lparr>sl_nodes := (sl_nodes s)(x \<mapsto> nd\<lparr>node_next := (node_next nd)[n := p]\<rparr>)\<rparr>)
          else None }"

definition NewNode :: "'k \<Rightarrow> nat \<Rightarrow> 'k SkipList \<Rightarrow> nat \<times> 'k SkipList" where
  "NewNode k height s =
     (let x = sl_fresh s
      in (x, s\<lparr>sl_nodes := (sl_nodes s)(x \<mapsto> \<lparr>node_key = k, node_next = replicate height None\<rparr>),
               sl_fresh := x + 1\<rparr>))"

definition new_SkipList :: "'k \<Rightarrow> 'k SkipList" where
  "new_SkipList k0 =
     \<lparr>sl_nodes = [0 \<mapsto> \<lparr>node_key = k0, node_next = replicate kMaxHeight None\<rparr>],
      sl_max_height = 1, sl_rnd = new_Random 0xdeadbeef, sl_fresh = 1\<rparr>"

function RandomHeight_loop :: "nat \<Rightarrow> u32 \<Rightarrow> nat \<times> u32" where
  "RandomHeight_loop height rnd =
     (if height < kMaxHeight then
        (let (b, rnd) = OneIn 4 rnd
         in if b then RandomHeight_loop (height + 1) rnd else (height, rnd))
      else (height, rnd))"
  by pat_completeness auto
termination
  by (relation "measure (\<lambda>(height, rnd). kMaxHeight - height)") auto

declare RandomHeight_loop.simps [simp del]

definition RandomHeight :: "'k SkipList \<Rightarrow> nat \<times> 'k SkipList" where
  "RandomHeight s = (let (height, rnd) = RandomHeight_loop 1 (sl_rnd s) in (height, s\<lparr>sl_rnd := rnd\<rparr>))"

section \<open>Searching\<close>

definition KeyIsAfterNode :: "('k \<Rightarrow> 'k \<Rightarrow> int) \<Rightarrow> 'k SkipList \<Rightarrow> 'k \<Rightarrow> nat option \<Rightarrow> bool option" where
  "KeyIsAfterNode cmp s key n =
     (case n of
        None \<Rightarrow> Some False
      | Some a \<Rightarrow> do { nd \<leftarrow> sl_nodes s a; Some (cmp (node_key nd) key < 0) })"

text \<open>\<open>prev == nullptr\<close> is the empty array, on which the stores do nothing.\<close>

partial_function (option) FindGreaterOrEqual_loop ::
  "('k \<Rightarrow> 'k \<Rightarrow> int) \<Rightarrow> 'k SkipList \<Rightarrow> 'k \<Rightarrow> nat list \<Rightarrow> nat \<Rightarrow> nat \<Rightarrow> (nat option \<times> nat list) option" where
  "FindGreaterOrEqual_loop cmp s key prev x level =
     do { n \<leftarrow> Node_Next s x level;
          after \<leftarrow> KeyIsAfterNode cmp s key n;
          if after then FindGreaterOrEqual_loop cmp s key prev (the n) level
          else
            (let prev = prev[level := x]
             in if level = 0 then Some (n, prev)
                else FindGreaterOrEqual_loop cmp s key prev x (level - 1)) }"

definition FindGreaterOrEqual ::
  "('k \<Rightarrow> 'k \<Rightarrow> int) \<Rightarrow> 'k SkipList \<Rightarrow> 'k \<Rightarrow> nat list \<Rightarrow> (nat option \<times> nat list) option" where
  "FindGreaterOrEqual cmp s key prev =
     FindGreaterOrEqual_loop cmp s key prev 0 (sl_max_height s - 1)"

partial_function (option) FindLessThan_loop ::
  "('k \<Rightarrow> 'k \<Rightarrow> int) \<Rightarrow> 'k SkipList \<Rightarrow> 'k \<Rightarrow> nat \<Rightarrow> nat \<Rightarrow> nat option" where
  "FindLessThan_loop cmp s key x level =
     do { n \<leftarrow> Node_Next s x level;
          stop \<leftarrow> (case n of None \<Rightarrow> Some True
                   | Some a \<Rightarrow> do { nd \<leftarrow> sl_nodes s a; Some (cmp (node_key nd) key \<ge> 0) });
          if stop then
            (if level = 0 then Some x else FindLessThan_loop cmp s key x (level - 1))
          else FindLessThan_loop cmp s key (the n) level }"

definition FindLessThan :: "('k \<Rightarrow> 'k \<Rightarrow> int) \<Rightarrow> 'k SkipList \<Rightarrow> 'k \<Rightarrow> nat option" where
  "FindLessThan cmp s key = FindLessThan_loop cmp s key 0 (sl_max_height s - 1)"

partial_function (option) FindLast_loop :: "'k SkipList \<Rightarrow> nat \<Rightarrow> nat \<Rightarrow> nat option" where
  "FindLast_loop s x level =
     do { n \<leftarrow> Node_Next s x level;
          (case n of
             None \<Rightarrow> if level = 0 then Some x else FindLast_loop s x (level - 1)
           | Some a \<Rightarrow> FindLast_loop s a level) }"

definition FindLast :: "'k SkipList \<Rightarrow> nat option" where
  "FindLast s = FindLast_loop s 0 (sl_max_height s - 1)"

definition Contains :: "('k \<Rightarrow> 'k \<Rightarrow> int) \<Rightarrow> 'k SkipList \<Rightarrow> 'k \<Rightarrow> bool option" where
  "Contains cmp s key =
     do { (x, prev) \<leftarrow> FindGreaterOrEqual cmp s key [];
          (case x of
             None \<Rightarrow> Some False
           | Some a \<Rightarrow> do { nd \<leftarrow> sl_nodes s a; Some (cmp key (node_key nd) = 0) }) }"

section \<open>Iteration\<close>

text \<open>An iterator is the pointer \<open>node_\<close>.\<close>

definition iter_Valid :: "nat option \<Rightarrow> bool" where
  "iter_Valid node = (node \<noteq> None)"

definition iter_key :: "'k SkipList \<Rightarrow> nat option \<Rightarrow> 'k option" where
  "iter_key s node = do { a \<leftarrow> node; nd \<leftarrow> sl_nodes s a; Some (node_key nd) }"

definition iter_Next :: "'k SkipList \<Rightarrow> nat option \<Rightarrow> nat option option" where
  "iter_Next s node = do { a \<leftarrow> node; Node_Next s a 0 }"

definition iter_Prev :: "('k \<Rightarrow> 'k \<Rightarrow> int) \<Rightarrow> 'k SkipList \<Rightarrow> nat option \<Rightarrow> nat option option" where
  "iter_Prev cmp s node =
     do { k \<leftarrow> iter_key s node;
          x \<leftarrow> FindLessThan cmp s k;
          Some (if x = 0 then None else Some x) }"

definition iter_Seek :: "('k \<Rightarrow> 'k \<Rightarrow> int) \<Rightarrow> 'k SkipList \<Rightarrow> 'k \<Rightarrow> nat option option" where
  "iter_Seek cmp s target = do { (x, prev) \<leftarrow> FindGreaterOrEqual cmp s target []; Some x }"

definition iter_SeekToFirst :: "'k SkipList \<Rightarrow> nat option option" where
  "iter_SeekToFirst s = Node_Next s 0 0"

definition iter_SeekToLast :: "'k SkipList \<Rightarrow> nat option option" where
  "iter_SeekToLast s = do { x \<leftarrow> FindLast s; Some (if x = 0 then None else Some x) }"

section \<open>Insertion\<close>

text \<open>One round of the \<open>for\<close> loop: the two stores at level \<open>i\<close>.\<close>

definition link_level :: "nat \<Rightarrow> nat list \<Rightarrow> nat \<Rightarrow> 'k SkipList \<Rightarrow> 'k SkipList option" where
  "link_level x prev i s =
     do { n \<leftarrow> Node_Next s (prev ! i) i;
          s \<leftarrow> Node_SetNext s x i n;
          Node_SetNext s (prev ! i) i (Some x) }"

fun link_levels :: "nat \<Rightarrow> nat list \<Rightarrow> nat list \<Rightarrow> 'k SkipList \<Rightarrow> 'k SkipList option" where
  "link_levels x prev [] s = Some s"
| "link_levels x prev (i # levels) s = do { s \<leftarrow> link_level x prev i s; link_levels x prev levels s }"

text \<open>
  The part of \<open>Insert\<close> before the links: the predecessors, the assertion that the key is new, the
  height and the new node. The array \<open>prev\<close> is not initialized; its entries start as an address
  at which there is no node before or after the allocation, so that following an entry that was
  never set fails.
\<close>

definition Insert_prepare ::
  "('k \<Rightarrow> 'k \<Rightarrow> int) \<Rightarrow> 'k \<Rightarrow> 'k SkipList \<Rightarrow> (nat \<times> nat list \<times> nat \<times> 'k SkipList) option" where
  "Insert_prepare cmp key s =
     do { (n, prev) \<leftarrow> FindGreaterOrEqual cmp s key (replicate kMaxHeight (Suc (sl_fresh s)));
          duplicate \<leftarrow> (case n of None \<Rightarrow> Some False | Some a \<Rightarrow> do { nd \<leftarrow> sl_nodes s a; Some (cmp key (node_key nd) = 0) });
          if duplicate then None else
          let (height, s) = RandomHeight s;
              (prev, s) =
                (if height > sl_max_height s
                 then (foldl (\<lambda>prev i. prev[i := 0]) prev [sl_max_height s..<height],
                       s\<lparr>sl_max_height := height\<rparr>)
                 else (prev, s));
              (x, s) = NewNode key height s
          in Some (x, prev, height, s) }"

definition Insert :: "('k \<Rightarrow> 'k \<Rightarrow> int) \<Rightarrow> 'k \<Rightarrow> 'k SkipList \<Rightarrow> 'k SkipList option" where
  "Insert cmp key s =
     do { (x, prev, height, s) \<leftarrow> Insert_prepare cmp key s;
          link_levels x prev [0..<height] s }"

section \<open>The lists at every level\<close>

abbreviation key_of :: "'k SkipList \<Rightarrow> nat \<Rightarrow> 'k" where
  "key_of s a \<equiv> node_key (the (sl_nodes s a))"

abbreviation next_of :: "'k SkipList \<Rightarrow> nat \<Rightarrow> nat \<Rightarrow> nat option" where
  "next_of s a l \<equiv> node_next (the (sl_nodes s a)) ! l"

text \<open>
  \<open>h a\<close> is the number of levels at which the node \<open>a\<close> is linked. Along the nodes \<open>xs\<close>, the
  link of a node at a level is the next node that is linked at that level.
\<close>

fun links :: "'k SkipList \<Rightarrow> (nat \<Rightarrow> nat) \<Rightarrow> nat list \<Rightarrow> bool" where
  "links s h [] = True"
| "links s h (y # ys) = ((\<forall>l < h y. next_of s y l = find (\<lambda>a. l < h a) ys) \<and> links s h ys)"

definition sl_shape ::
  "('k \<Rightarrow> 'k \<Rightarrow> int) \<Rightarrow> ('k \<Rightarrow> bool) \<Rightarrow> 'k SkipList \<Rightarrow> nat list \<Rightarrow> (nat \<Rightarrow> nat) \<Rightarrow> bool" where
  "sl_shape cmp D s ns h \<longleftrightarrow>
     distinct (0 # ns) \<and> (\<forall>a \<in> set (0 # ns). a < sl_fresh s) \<and>
     1 \<le> sl_max_height s \<and> sl_max_height s \<le> kMaxHeight \<and> h 0 = kMaxHeight \<and>
     (\<forall>a \<in> set (0 # ns). \<exists>nd. sl_nodes s a = Some nd \<and> h a \<le> length (node_next nd)) \<and>
     (\<forall>a \<in> set ns. h a \<le> sl_max_height s \<and> D (key_of s a)) \<and>
     sorted_wrt (\<lambda>a b. cmp (key_of s a) (key_of s b) < 0) ns \<and>
     links s h (0 # ns)"

definition sl_inv ::
  "('k \<Rightarrow> 'k \<Rightarrow> int) \<Rightarrow> ('k \<Rightarrow> bool) \<Rightarrow> 'k SkipList \<Rightarrow> nat list \<Rightarrow> (nat \<Rightarrow> nat) \<Rightarrow> bool" where
  "sl_inv cmp D s ns h \<longleftrightarrow> sl_shape cmp D s ns h \<and> (\<forall>a \<in> set (0 # ns). 0 < h a)"

lemma links_tail: "links s h (pre @ ys) \<Longrightarrow> links s h ys"
  by (induction pre) auto

lemma links_at: "links s h (pre @ x # post) \<Longrightarrow> l < h x \<Longrightarrow> next_of s x l = find (\<lambda>a. l < h a) post"
  by (drule links_tail) simp

lemma find_skip: "(\<forall>a \<in> set xs. \<not> P a) \<Longrightarrow> find P (xs @ ys) = find P ys"
  by (induction xs) auto

lemma find_hit: "find P (xs @ y # ys) = find P (xs @ y # zs)" if "P y"
  using that by (induction xs) auto

lemma find_append: "b \<in> set xs \<Longrightarrow> P b \<Longrightarrow> \<exists>a \<in> set xs. find P (xs @ ys) = Some a"
  by (induction xs) auto

lemma find_split:
  "find P xs = Some a \<Longrightarrow> \<exists>ys zs. xs = ys @ a # zs \<and> P a \<and> (\<forall>y \<in> set ys. \<not> P y)"
proof (induction xs)
  case (Cons x xs)
  show ?case
  proof (cases "P x")
    case True
    with Cons.prems show ?thesis by (intro exI [of _ "[]"] exI [of _ xs]) auto
  next
    case False
    with Cons obtain ys zs where "xs = ys @ a # zs" "P a" "\<forall>y \<in> set ys. \<not> P y" by auto
    with False show ?thesis by (intro exI [of _ "x # ys"] exI [of _ zs]) auto
  qed
qed simp

text \<open>
  One step of a search for the end of the nodes that satisfy \<open>P\<close>: either it moves on to
  another such node, or the current node is the last one linked at the current level.
\<close>

lemma search_step:
  assumes "links s h (0 # ns)" "0 # ns = pre @ x # post" "\<forall>a \<in> set (pre @ [x]). a = 0 \<or> P a"
    and "l < h x" "\<forall>a \<in> set ns. 0 < h a" "sorted_wrt (\<lambda>a b. P b \<longrightarrow> P a) ns" "0 \<notin> set ns"
  shows "(\<exists>a p1 p2. next_of s x l = Some a \<and> P a \<and> post = p1 @ a # p2 \<and> l < h a \<and>
      0 # ns = (pre @ x # p1) @ a # p2 \<and> (\<forall>b \<in> set ((pre @ x # p1) @ [a]). b = 0 \<or> P b)) \<or>
    ((\<forall>a. next_of s x l = Some a \<longrightarrow> \<not> P a \<and> a \<in> set ns) \<and>
      x = last (filter (\<lambda>a. l < h a) (0 # takeWhile P ns)) \<and>
      (l = 0 \<longrightarrow> next_of s x l = (case dropWhile P ns of [] \<Rightarrow> None | b # _ \<Rightarrow> Some b)))"
proof -
  have nx: "next_of s x l = find (\<lambda>a. l < h a) post" using links_at assms(1, 2, 4) by metis
  have sub: "set post \<subseteq> set ns" using assms(2) by (cases pre) auto
  show ?thesis
  proof (cases "\<exists>a. next_of s x l = Some a \<and> P a")
    case True
    then obtain a p1 p2 where a: "next_of s x l = Some a" "P a" "post = p1 @ a # p2" "l < h a"
      using nx find_split by metis
    have "P b" if "b \<in> set p1" for b
      using assms(2, 6) a(2, 3) that by (cases pre) (auto simp: sorted_wrt_append)
    with a assms(2, 3) show ?thesis
      by (intro disjI1 exI [of _ a] exI [of _ p1] exI [of _ p2]) auto
  next
    case False
    have t: "0 # takeWhile P ns = pre @ x # takeWhile P post" "dropWhile P ns = dropWhile P post"
    proof -
      consider "pre = []" "x = 0" "post = ns" | pre' where "pre = 0 # pre'" "ns = pre' @ x # post"
        using assms(2) by (cases pre) auto
      then have "0 # takeWhile P ns = pre @ x # takeWhile P post \<and> dropWhile P ns = dropWhile P post"
      proof cases
        case 2
        then have "\<forall>a \<in> set (pre' @ [x]). P a" using assms(3, 7) by auto
        with 2 show ?thesis by simp
      qed simp
      then show "0 # takeWhile P ns = pre @ x # takeWhile P post" "dropWhile P ns = dropWhile P post"
        by simp_all
    qed
    have out: "\<not> l < h b" if b: "b \<in> set (takeWhile P post)" for b
    proof
      assume "l < h b"
      then obtain a where "a \<in> set (takeWhile P post)" "find (\<lambda>a. l < h a) post = Some a"
        using find_append [OF b, of "\<lambda>a. l < h a" "dropWhile P post"] by auto
      then show False using False nx set_takeWhileD by metis
    qed
    have "filter (\<lambda>a. l < h a) (takeWhile P post) = []" using out by (auto simp: filter_empty_conv)
    then have x: "x = last (filter (\<lambda>a. l < h a) (0 # takeWhile P ns))"
      using assms(4) by (simp only: t(1) filter_append filter.simps) simp
    have "takeWhile P post = []" if "l = 0"
    proof (rule ccontr)
      assume "takeWhile P post \<noteq> []"
      then have "hd (takeWhile P post) \<in> set (takeWhile P post)" by simp
      moreover from this have "hd (takeWhile P post) \<in> set ns" using sub set_takeWhileD by fastforce
      ultimately show False using out assms(5) that by blast
    qed
    then have d: "dropWhile P ns = post" if "l = 0"
      using that t(2) takeWhile_dropWhile_id [of P post] by simp
    have "next_of s x l = (case post of [] \<Rightarrow> None | b # _ \<Rightarrow> Some b)" if "l = 0"
      using that nx assms(5) sub by (cases post) auto
    then have "l = 0 \<longrightarrow> next_of s x l = (case dropWhile P ns of [] \<Rightarrow> None | b # _ \<Rightarrow> Some b)"
      using d by presburger
    moreover have "a \<in> set ns" if "next_of s x l = Some a" for a
      using that nx sub find_split by fastforce
    ultimately show ?thesis using False x by blast
  qed
qed

section \<open>Searches\<close>

lemma sl_inv_node:
  "sl_inv cmp D s ns h \<Longrightarrow> a \<in> set (0 # ns) \<Longrightarrow> l < h a \<Longrightarrow> Node_Next s a l = Some (next_of s a l)"
  by (force simp: sl_inv_def sl_shape_def Node_Next_def)

lemma sl_inv_key: "sl_inv cmp D s ns h \<Longrightarrow> a \<in> set ns \<Longrightarrow> \<exists>nd. sl_nodes s a = Some nd"
  by (force simp: sl_inv_def sl_shape_def)

lemma KeyIsAfterNode_eq:
  "sl_inv cmp D s ns h \<Longrightarrow> a \<in> set ns \<Longrightarrow> KeyIsAfterNode cmp s key (Some a) = Some (cmp (key_of s a) key < 0)"
  by (drule (1) sl_inv_key) (auto simp: KeyIsAfterNode_def)

text \<open>
  The nodes before a key, and the last of them that is linked at a level: what \<open>prev\<close>
  holds for that level.
\<close>

definition before :: "('k \<Rightarrow> 'k \<Rightarrow> int) \<Rightarrow> 'k SkipList \<Rightarrow> 'k \<Rightarrow> nat list \<Rightarrow> nat list" where
  "before cmp s key ns = takeWhile (\<lambda>a. cmp (key_of s a) key < 0) ns"

definition not_before :: "('k \<Rightarrow> 'k \<Rightarrow> int) \<Rightarrow> 'k SkipList \<Rightarrow> 'k \<Rightarrow> nat list \<Rightarrow> nat list" where
  "not_before cmp s key ns = dropWhile (\<lambda>a. cmp (key_of s a) key < 0) ns"

definition last_linked :: "(nat \<Rightarrow> nat) \<Rightarrow> nat \<Rightarrow> nat list \<Rightarrow> nat" where
  "last_linked h l xs = last (filter (\<lambda>a. l < h a) (0 # xs))"

definition hd_option :: "'a list \<Rightarrow> 'a option" where
  "hd_option xs = (case xs of [] \<Rightarrow> None | x # _ \<Rightarrow> Some x)"

context key_order
begin

lemma sorted_before:
  assumes "sl_inv cmp dom s ns h" "dom key"
  shows "sorted_wrt (\<lambda>a b. cmp (key_of s b) key < 0 \<longrightarrow> cmp (key_of s a) key < 0) ns"
proof -
  have "sorted_wrt (\<lambda>a b. cmp (key_of s a) (key_of s b) < 0) ns" "\<forall>a \<in> set ns. dom (key_of s a)"
    using assms(1) by (auto simp: sl_inv_def sl_shape_def)
  then show ?thesis
    using assms(2) by (induction ns) (auto intro: less_trans)
qed

text \<open>The step of every search loop for a key, in terms of the sorted list of nodes.\<close>

lemma key_search_step:
  assumes "sl_inv cmp dom s ns h" "dom key" "0 # ns = pre @ x # post"
    and "\<forall>a \<in> set (pre @ [x]). a = 0 \<or> cmp (key_of s a) key < 0" "l < h x"
  shows "(\<exists>a p1 p2. next_of s x l = Some a \<and> cmp (key_of s a) key < 0 \<and> post = p1 @ a # p2 \<and> l < h a \<and>
      0 # ns = (pre @ x # p1) @ a # p2 \<and>
      (\<forall>b \<in> set ((pre @ x # p1) @ [a]). b = 0 \<or> cmp (key_of s b) key < 0)) \<or>
    ((\<forall>a. next_of s x l = Some a \<longrightarrow> \<not> cmp (key_of s a) key < 0 \<and> a \<in> set ns) \<and>
      x = last_linked h l (before cmp s key ns) \<and>
      (l = 0 \<longrightarrow> next_of s x l = hd_option (not_before cmp s key ns)))"
  unfolding last_linked_def before_def not_before_def hd_option_def
  by (rule search_step [where P = "\<lambda>a. cmp (key_of s a) key < 0" and h = h and ns = ns and l = l, OF _ assms(3, 4, 5) _ sorted_before [OF assms(1, 2)]])
    (use assms(1) in \<open>auto simp: sl_inv_def sl_shape_def\<close>)

lemma FindGreaterOrEqual_loop_spec:
  assumes "sl_inv cmp dom s ns h" "dom key" "0 # ns = pre @ x # post"
    and "\<forall>a \<in> set (pre @ [x]). a = 0 \<or> cmp (key_of s a) key < 0" "level < h x"
  shows "\<exists>prev'. FindGreaterOrEqual_loop cmp s key prev x level =
      Some (hd_option (not_before cmp s key ns), prev') \<and> length prev' = length prev \<and>
      (\<forall>l < length prev. prev' ! l = (if l \<le> level then last_linked h l (before cmp s key ns) else prev ! l))"
  using assms(3-)
proof (induction "level + length post" arbitrary: pre x post level prev rule: less_induct)
  case less
  have x: "x \<in> set (0 # ns)" using less.prems(1) by simp
  note step = FindGreaterOrEqual_loop.simps [of cmp s key prev x level] sl_inv_node [OF assms(1) x less.prems(3)]
  consider (move) a p1 p2 where "next_of s x level = Some a" "cmp (key_of s a) key < 0" "post = p1 @ a # p2"
      "level < h a" "0 # ns = (pre @ x # p1) @ a # p2"
      "\<forall>b \<in> set ((pre @ x # p1) @ [a]). b = 0 \<or> cmp (key_of s b) key < 0"
    | (down) "\<forall>a. next_of s x level = Some a \<longrightarrow> \<not> cmp (key_of s a) key < 0 \<and> a \<in> set ns"
      "x = last_linked h level (before cmp s key ns)"
      "level = 0 \<longrightarrow> next_of s x level = hd_option (not_before cmp s key ns)"
    using key_search_step [OF assms(1, 2) less.prems] by blast
  then show ?case
  proof cases
    case move
    have "a \<in> set ns" using move(5) by (cases pre) auto
    then have "FindGreaterOrEqual_loop cmp s key prev x level = FindGreaterOrEqual_loop cmp s key prev a level"
      using step KeyIsAfterNode_eq [OF assms(1)] move(1, 2) by simp
    then show ?thesis using less.hyps [OF _ move(5, 6, 4)] move(3) by simp
  next
    case down
    have "KeyIsAfterNode cmp s key (next_of s x level) = Some False"
      using down(1) KeyIsAfterNode_eq [OF assms(1)]
      by (cases "next_of s x level") (auto simp: KeyIsAfterNode_def [of _ _ _ None])
    then have loop: "FindGreaterOrEqual_loop cmp s key prev x level =
        (if level = 0 then Some (next_of s x level, prev[level := x])
         else FindGreaterOrEqual_loop cmp s key (prev[level := x]) x (level - 1))"
      using step by (simp add: Let_def)
    show ?thesis
    proof (cases "level = 0")
      case True
      then show ?thesis using loop down(2, 3) by (auto simp: nth_list_update)
    next
      case False
      have "level - 1 < h x" using less.prems(3) by linarith
      with False obtain prev' where p: "FindGreaterOrEqual_loop cmp s key (prev[level := x]) x (level - 1) =
          Some (hd_option (not_before cmp s key ns), prev')" "length prev' = length prev"
        "\<forall>l < length prev. prev' ! l = (if l \<le> level - 1 then last_linked h l (before cmp s key ns) else prev[level := x] ! l)"
        using less.hyps [of "level - 1" post pre x "prev[level := x]"] less.prems by auto
      have "prev' ! l = (if l \<le> level then last_linked h l (before cmp s key ns) else prev ! l)"
        if "l < length prev" for l
        using p(3) that down(2) False by (cases "l = level") auto
      then show ?thesis using False loop p(1, 2) by auto
    qed
  qed
qed

end

context key_order
begin

lemma FindLessThan_loop_spec:
  assumes "sl_inv cmp dom s ns h" "dom key" "0 # ns = pre @ x # post"
    and "\<forall>a \<in> set (pre @ [x]). a = 0 \<or> cmp (key_of s a) key < 0" "level < h x"
  shows "FindLessThan_loop cmp s key x level = Some (last (0 # before cmp s key ns))"
  using assms(3-)
proof (induction "level + length post" arbitrary: pre x post level rule: less_induct)
  case less
  have x: "x \<in> set (0 # ns)" using less.prems(1) by simp
  note step = FindLessThan_loop.simps [of cmp s key x level] sl_inv_node [OF assms(1) x less.prems(3)]
  have pos: "\<forall>a \<in> set ns. 0 < h a" "h 0 = kMaxHeight" using assms(1) by (auto simp: sl_inv_def sl_shape_def)
  consider (move) a p1 p2 where "next_of s x level = Some a" "cmp (key_of s a) key < 0" "post = p1 @ a # p2"
      "level < h a" "0 # ns = (pre @ x # p1) @ a # p2"
      "\<forall>b \<in> set ((pre @ x # p1) @ [a]). b = 0 \<or> cmp (key_of s b) key < 0"
    | (down) "\<forall>a. next_of s x level = Some a \<longrightarrow> \<not> cmp (key_of s a) key < 0 \<and> a \<in> set ns"
      "x = last_linked h level (before cmp s key ns)"
    using key_search_step [OF assms(1, 2) less.prems] by blast
  then show ?case
  proof cases
    case move
    have "a \<in> set ns" using move(5) by (cases pre) auto
    then obtain nd where "sl_nodes s a = Some nd" using sl_inv_key [OF assms(1)] by blast
    then have "FindLessThan_loop cmp s key x level = FindLessThan_loop cmp s key a level"
      using step move(1, 2) by simp
    then show ?thesis using less.hyps [OF _ move(5, 6, 4)] move(3) by simp
  next
    case down
    have loop: "FindLessThan_loop cmp s key x level =
        (if level = 0 then Some x else FindLessThan_loop cmp s key x (level - 1))"
    proof (cases "next_of s x level")
      case None
      then show ?thesis using step by simp
    next
      case (Some a)
      then obtain nd where "sl_nodes s a = Some nd" using sl_inv_key [OF assms(1)] down(1) by blast
      then show ?thesis using step down(1) Some by simp
    qed
    have "last_linked h 0 (before cmp s key ns) = last (0 # before cmp s key ns)"
    proof -
      have "filter (\<lambda>a. 0 < h a) (0 # before cmp s key ns) = 0 # before cmp s key ns"
        using pos set_takeWhileD by (fastforce simp: before_def kMaxHeight_def filter_id_conv)
      then show ?thesis by (simp add: last_linked_def)
    qed
    moreover have "level - 1 < h x" using less.prems(3) by linarith
    ultimately show ?thesis
      using loop down(2) less.hyps [of "level - 1" post pre x] less.prems by (cases "level = 0") simp_all
  qed
qed

end

lemma FindLast_loop_spec:
  assumes "sl_inv cmp D s ns h" "0 # ns = pre @ x # post" "level < h x"
  shows "FindLast_loop s x level = Some (last (0 # ns))"
  using assms(2-)
proof (induction "level + length post" arbitrary: pre x post level rule: less_induct)
  case less
  have x: "x \<in> set (0 # ns)" using less.prems(1) by simp
  note step = FindLast_loop.simps [of s x level] sl_inv_node [OF assms(1) x less.prems(2)]
  have links: "links s h (0 # ns)" and pos: "\<forall>a \<in> set ns. 0 < h a" using assms(1) by (auto simp: sl_inv_def sl_shape_def)
  have nx: "next_of s x level = find (\<lambda>a. level < h a) post"
    using links_at [of s h pre x post level] links less.prems by simp
  show ?case
  proof (cases "next_of s x level")
    case None
    have "level - 1 < h x" using less.prems(2) by linarith
    moreover have "post = []" if "level = 0"
    proof (rule ccontr)
      assume "post \<noteq> []"
      then have "hd post \<in> set post" "hd post \<in> set ns" using less.prems(1) by (cases pre; auto)+
      moreover have "\<forall>a \<in> set post. \<not> 0 < h a" using None nx that by (metis find_None_iff)
      ultimately show False using pos by blast
    qed
    moreover have "last (0 # ns) = x" if "post = []" using less.prems(1) that by simp
    ultimately show ?thesis
      using step None less.hyps [of "level - 1" post pre x] less.prems by (cases "level = 0") simp_all
  next
    case (Some a)
    then obtain p1 p2 where p: "post = p1 @ a # p2" "level < h a" using nx find_split by metis
    then have "FindLast_loop s a level = Some (last (0 # ns))"
      using less.hyps [of level p2 "pre @ x # p1" a] less.prems(1) by simp
    then show ?thesis using step Some by simp
  qed
qed

text \<open>The three searches from the head of the list.\<close>

context key_order
begin

lemma FindGreaterOrEqual_spec:
  assumes "sl_inv cmp dom s ns h" "dom key"
  shows "\<exists>prev'. FindGreaterOrEqual cmp s key prev = Some (hd_option (not_before cmp s key ns), prev') \<and>
    length prev' = length prev \<and>
    (\<forall>l < length prev. prev' ! l = (if l < sl_max_height s then last_linked h l (before cmp s key ns) else prev ! l))"
proof -
  have m: "sl_max_height s - 1 < h 0" "1 \<le> sl_max_height s" using assms(1) by (auto simp: sl_inv_def sl_shape_def)
  then have "l \<le> sl_max_height s - 1 \<longleftrightarrow> l < sl_max_height s" for l by linarith
  with m show ?thesis
    using FindGreaterOrEqual_loop_spec [OF assms, of "[]" 0 ns "sl_max_height s - 1" prev]
    by (simp add: FindGreaterOrEqual_def)
qed

lemma FindLessThan_spec:
  assumes "sl_inv cmp dom s ns h" "dom key"
  shows "FindLessThan cmp s key = Some (last (0 # before cmp s key ns))"
  using FindLessThan_loop_spec [OF assms, of "[]" 0 ns "sl_max_height s - 1"] assms(1)
  by (auto simp: FindLessThan_def sl_inv_def sl_shape_def)

lemma FindLast_spec: "sl_inv cmp dom s ns h \<Longrightarrow> FindLast s = Some (last (0 # ns))"
  using FindLast_loop_spec [of cmp dom s ns h "[]" 0 ns "sl_max_height s - 1"]
  by (auto simp: FindLast_def sl_inv_def sl_shape_def)

end

section \<open>Linking a node\<close>

lemma links_extend:
  assumes "links s h (w @ t)" "links s' h' t" "\<forall>y \<in> set w. h' y = h y"
    and "\<And>y l. y \<in> set w \<Longrightarrow> l < h y \<Longrightarrow> next_of s' y l = next_of s y l"
    and "\<And>w1 y w2 l. w = w1 @ y # w2 \<Longrightarrow> l < h y \<Longrightarrow>
      find (\<lambda>a. l < h' a) (w2 @ t) = find (\<lambda>a. l < h a) (w2 @ t)"
  shows "links s' h' (w @ t)"
  using assms(1, 3-)
proof (induction w)
  case Nil
  show ?case using assms(2) by simp
next
  case (Cons y w)
  have "links s' h' (w @ t)"
  proof (rule Cons.IH)
    show "find (\<lambda>a. l < h' a) (w2 @ t) = find (\<lambda>a. l < h a) (w2 @ t)"
      if "w = w1 @ z # w2" "l < h z" for w1 z w2 l
      using Cons.prems(4) [of "y # w1" z w2 l] that by simp
  qed (use Cons.prems in auto)
  moreover have "next_of s' y l = find (\<lambda>a. l < h' a) (w @ t)" if "l < h' y" for l
    using Cons.prems(1) Cons.prems(2) Cons.prems(3) [of y l] Cons.prems(4) [of "[]" y w l] that by simp
  ultimately show ?case by simp
qed

lemma last_linked_split:
  assumes "i < h 0"
  obtains u v where "0 # xs = u @ last_linked h i xs # v" "i < h (last_linked h i xs)" "\<forall>b \<in> set v. \<not> i < h b"
proof -
  have "\<exists>a \<in> set (0 # xs). i < h a" using assms by simp
  then obtain u a v where s: "0 # xs = u @ a # v" "i < h a" "\<forall>b \<in> set v. \<not> i < h b"
    using split_list_last_prop [of "0 # xs" "\<lambda>a. i < h a"] by blast
  have "filter (\<lambda>a. i < h a) v = []" using s(3) by (simp add: filter_empty_conv)
  then have "a = last_linked h i xs"
    using s(2) unfolding last_linked_def s(1) by simp
  with s show thesis by (intro that [of u v]) simp_all
qed

text \<open>
  Linking \<open>x\<close> at level \<open>i\<close> behind the last node that is linked there keeps the lists of all
  levels consistent: \<open>x\<close> is then linked at one more level.
\<close>

lemma links_link_level:
  assumes links: "links s H (u @ p # v @ x # bs)" and dist: "distinct (u @ p # v @ x # bs)"
    and H: "H x = i" "H' x = Suc i" "\<And>a. a \<noteq> x \<Longrightarrow> H' a = H a"
    and p: "i < H p" and v: "\<forall>b \<in> set v. \<not> i < H b"
    and next_p: "next_of s' p i = Some x" and next_x: "next_of s' x i = next_of s p i"
    and same: "\<And>a l. a \<noteq> p \<and> a \<noteq> x \<or> l \<noteq> i \<Longrightarrow> next_of s' a l = next_of s a l"
  shows "links s' H' (u @ p # v @ x # bs)"
proof -
  have Heq: "H' y = H y" if "y \<in> set u \<or> y = p \<or> y \<in> set v \<or> y \<in> set bs" for y
    using that dist by (intro H(3)) auto
  have agree: "find (\<lambda>a. l < H' a) ys = find (\<lambda>a. l < H a) ys" if "l \<noteq> i \<or> x \<notin> set ys" for l ys
    using that H by (intro find_cong refl) (metis less_Suc_eq)
  have tail: "links s H (p # v @ x # bs)" "links s H (v @ x # bs)" "links s H (x # bs)"
    using links_tail [of s H u "p # v @ x # bs"] links_tail [of s H "u @ p # v" "x # bs"]
      links_tail [of s H "u @ [p]" "v @ x # bs"] links by simp_all
  have "find (\<lambda>a. i < H a) (v @ x # bs) = find (\<lambda>a. i < H a) bs"
    using find_skip [of "v @ [x]" "\<lambda>a. i < H a" bs] v H(1) by auto
  then have x: "next_of s' x i = find (\<lambda>a. i < H a) bs"
    using tail(1) p next_x by simp
  have "links s H (bs @ [])" using tail(3) by simp
  then have 1: "links s' H' (bs @ [])"
    by (rule links_extend) (use dist in \<open>auto intro!: same agree Heq\<close>)
  have "next_of s' x l = find (\<lambda>a. l < H' a) bs" if "l < Suc i" for l
    using that x tail(3) H(1) same [of x l] agree [of l bs] dist by (cases "l = i") auto
  with 1 have 2: "links s' H' (x # bs)" using H(2) by simp
  have 3: "links s' H' (v @ x # bs)"
  proof (rule links_extend [OF tail(2) 2])
    show "next_of s' y l = next_of s y l" if "y \<in> set v" "l < H y" for y l
      using that dist by (intro same) auto
    show "find (\<lambda>a. l < H' a) (w2 @ x # bs) = find (\<lambda>a. l < H a) (w2 @ x # bs)"
      if "v = w1 @ y # w2" "l < H y" for w1 y w2 l
      using that v by (intro agree) auto
  qed (simp add: Heq)
  have "next_of s' p l = find (\<lambda>a. l < H' a) (v @ x # bs)" if "l < H p" for l
  proof (cases "l = i")
    case True
    have "\<forall>b \<in> set v. \<not> i < H' b" using v Heq by simp
    then show ?thesis using True find_skip [of v "\<lambda>a. l < H' a" "x # bs"] next_p H(2) by simp
  next
    case False
    then show ?thesis using that tail(1) same [of p l] agree [of l "v @ x # bs"] by simp
  qed
  with 3 have 4: "links s' H' (p # v @ x # bs)" using Heq [of p] by simp
  show ?thesis
  proof (rule links_extend [OF links 4])
    show "next_of s' y l = next_of s y l" if "y \<in> set u" "l < H y" for y l
      using that dist by (intro same) auto
    show "find (\<lambda>a. l < H' a) (w2 @ p # v @ x # bs) = find (\<lambda>a. l < H a) (w2 @ p # v @ x # bs)"
      if u: "u = w1 @ y # w2" for w1 y w2 l
    proof (cases "l = i")
      case True
      have "i < H' p" using p Heq [of p] by simp
      then have "find (\<lambda>a. l < H' a) (w2 @ p # v @ x # bs) = find (\<lambda>a. l < H' a) (w2 @ [p])"
        using True by (intro find_hit) simp
      also have "\<dots> = find (\<lambda>a. l < H a) (w2 @ [p])" using u dist by (intro agree) auto
      also have "\<dots> = find (\<lambda>a. l < H a) (w2 @ p # v @ x # bs)"
        using True p by (intro find_hit) simp
      finally show ?thesis .
    qed (use agree in blast)
  qed (simp add: Heq)
qed

text \<open>What a single store changes.\<close>

definition stored :: "'k SkipList \<Rightarrow> nat \<Rightarrow> nat \<Rightarrow> nat option \<Rightarrow> 'k SkipList \<Rightarrow> bool" where
  "stored s p i q s' \<longleftrightarrow>
     next_of s' p i = q \<and> (\<forall>a l. a \<noteq> p \<or> l \<noteq> i \<longrightarrow> next_of s' a l = next_of s a l) \<and>
     (\<forall>a. key_of s' a = key_of s a \<and> (sl_nodes s' a = None \<longleftrightarrow> sl_nodes s a = None) \<and>
        length (node_next (the (sl_nodes s' a))) = length (node_next (the (sl_nodes s a)))) \<and>
     sl_max_height s' = sl_max_height s \<and> sl_fresh s' = sl_fresh s"

lemma Node_SetNext_stored: "Node_SetNext s p i q = Some s' \<Longrightarrow> stored s p i q s'"
  by (auto simp: Node_SetNext_def stored_def nth_list_update split: if_splits Option.bind_splits)

lemma Node_SetNext_ok:
  "sl_nodes s p = Some nd \<Longrightarrow> i < length (node_next nd) \<Longrightarrow> \<exists>s'. Node_SetNext s p i q = Some s'"
  by (simp add: Node_SetNext_def)

text \<open>A node that is not linked at any level is invisible.\<close>

lemma links_hidden:
  "h x = 0 \<Longrightarrow> links s h (ys @ x # zs) \<longleftrightarrow> links s h (ys @ zs)"
proof (induction ys)
  case (Cons y ys)
  have "find P (ys @ x # zs) = find P (ys @ zs)" if "\<not> P x" for P
    using that by (induction ys) auto
  with Cons show ?case by simp
qed simp

lemma sl_shape_hidden:
  assumes "sl_shape cmp D s (as @ x # bs) h" "h x = 0" "\<forall>a \<in> set (0 # as @ bs). 0 < h a"
  shows "sl_inv cmp D s (as @ bs) h"
  using assms links_hidden [of h x s "0 # as" bs]
  by (auto simp: sl_inv_def sl_shape_def sorted_wrt_append)

text \<open>
  A store keeps the shape of the list when it keeps the links; this is the case for a store
  at a level at which the node is not linked yet.
\<close>

lemma stored_shape:
  assumes "sl_shape cmp D s ns h" "stored s p i q s'" "links s' g (0 # ns)" "g 0 = h 0"
    and "\<forall>a \<in> set (0 # ns). g a \<le> h a \<or> g a \<le> length (node_next (the (sl_nodes s a)))"
    and "\<forall>a \<in> set ns. g a \<le> h a \<or> g a \<le> sl_max_height s"
  shows "sl_shape cmp D s' ns g"
proof -
  have nodes: "\<exists>nd. sl_nodes s' a = Some nd \<and> g a \<le> length (node_next nd)" if a: "a \<in> set (0 # ns)" for a
  proof -
    have "\<exists>nd. sl_nodes s a = Some nd \<and> h a \<le> length (node_next nd)"
      using assms(1) a unfolding sl_shape_def by (elim conjE) (rule bspec)
    then obtain nd where nd: "sl_nodes s a = Some nd" "h a \<le> length (node_next nd)" by blast
    have "sl_nodes s' a \<noteq> None" "length (node_next (the (sl_nodes s' a))) = length (node_next nd)"
      using nd(1) assms(2) by (simp_all add: stored_def)
    moreover have "g a \<le> length (node_next nd)" using bspec [OF assms(5) a] nd by auto
    ultimately show ?thesis by auto
  qed
  have key: "key_of s' a = key_of s a" for a using assms(2) by (simp add: stored_def)
  have "sl_max_height s' = sl_max_height s" "sl_fresh s' = sl_fresh s" using assms(2) by (simp_all add: stored_def)
  moreover have "g a \<le> sl_max_height s \<and> D (key_of s a)" if "a \<in> set ns" for a
    using assms(1, 6) that le_trans unfolding sl_shape_def by blast
  ultimately show ?thesis
    using assms(1, 3, 4) nodes unfolding sl_shape_def key by simp
qed

lemma own_store_shape:
  assumes "sl_shape cmp D s ns h" "stored s x i q s'" "h x \<le> i"
  shows "sl_shape cmp D s' ns h"
proof (rule stored_shape [OF assms(1, 2)])
  have "links s h ((0 # ns) @ [])" using assms(1) by (simp add: sl_shape_def)
  then have "links s' h ((0 # ns) @ [])"
  proof (rule links_extend)
    show "next_of s' y l = next_of s y l" if "l < h y" for y l
      using that assms(2, 3) unfolding stored_def by (metis leD)
  qed simp_all
  then show "links s' h (0 # ns)" by simp
qed simp_all

lemma prev_store_shape:
  assumes "sl_shape cmp D s (as @ x # bs) h" "h x = i" "i < length (node_next (the (sl_nodes s x)))"
    and "p = last_linked h i as" "i < sl_max_height s" "next_of s x i = next_of s p i" "stored s p i (Some x) s'"
  shows "sl_shape cmp D s' (as @ x # bs) (h(x := Suc i))"
proof -
  have shape: "distinct (0 # as @ x # bs)" "h 0 = kMaxHeight" "sl_max_height s \<le> kMaxHeight" "links s h (0 # as @ x # bs)"
    using assms(1) by (simp_all add: sl_shape_def)
  obtain u v where uv: "0 # as = u @ p # v" "i < h p" "\<forall>b \<in> set v. \<not> i < h b"
    using last_linked_split [of i h as] shape(2, 3) assms(4, 5) by auto
  have list: "0 # as @ x # bs = u @ p # v @ x # bs" using uv(1) by simp
  have px: "p \<noteq> x" using shape(1) unfolding list by auto
  have "links s' (h(x := Suc i)) (u @ p # v @ x # bs)"
  proof (rule links_link_level [where H = h])
    show "links s h (u @ p # v @ x # bs)" "distinct (u @ p # v @ x # bs)"
      using shape unfolding list [symmetric] by simp_all
  qed (use assms(2, 6, 7) uv(2, 3) px in \<open>auto simp: stored_def\<close>)
  then show ?thesis
    using assms(3, 5) shape(1) list [symmetric] by (intro stored_shape [OF assms(1, 7)]) auto
qed

lemma sl_shape_node:
  "sl_shape cmp D s ns h \<Longrightarrow> a \<in> set (0 # ns) \<Longrightarrow> l < h a \<Longrightarrow>
     \<exists>nd. sl_nodes s a = Some nd \<and> l < length (node_next nd)"
  by (fastforce simp: sl_shape_def)

lemma last_linked_in: "i < h 0 \<Longrightarrow> last_linked h i as \<in> set (0 # as) \<and> i < h (last_linked h i as)"
  by (metis last_linked_split in_set_conv_decomp)

lemma link_level_shape:
  assumes "sl_shape cmp D s (as @ x # bs) h" "h x = i" "i < length (node_next (the (sl_nodes s x)))"
    and "prev ! i = last_linked h i as" "i < sl_max_height s"
  obtains s' where "link_level x prev i s = Some s'" "sl_shape cmp D s' (as @ x # bs) (h(x := Suc i))"
    "\<And>a. key_of s' a = key_of s a"
    "length (node_next (the (sl_nodes s' x))) = length (node_next (the (sl_nodes s x)))"
    "sl_max_height s' = sl_max_height s"
proof -
  let ?p = "last_linked h i as"
  have p: "?p \<in> set (0 # as)" "i < h ?p"
    using last_linked_in [of i h as] assms(1, 5) by (auto simp: sl_shape_def)
  then have "?p \<noteq> x" using assms(1) by (auto simp: sl_shape_def)
  obtain np where np: "sl_nodes s ?p = Some np" "i < length (node_next np)"
    using sl_shape_node [OF assms(1), of ?p i] p by auto
  have "\<exists>nd. sl_nodes s x = Some nd" using assms(1) by (auto simp: sl_shape_def)
  then obtain s1 where s1: "Node_SetNext s x i (node_next np ! i) = Some s1"
    using Node_SetNext_ok [of s x _ i] assms(3) by fastforce
  note st1 = Node_SetNext_stored [OF s1]
  have "sl_nodes s1 ?p \<noteq> None" "i < length (node_next (the (sl_nodes s1 ?p)))"
    using st1 np by (auto simp: stored_def)
  then obtain s2 where s2: "Node_SetNext s1 ?p i (Some x) = Some s2"
    using Node_SetNext_ok [of s1 ?p _ i] by fastforce
  note st2 = Node_SetNext_stored [OF s2]
  have "sl_shape cmp D s1 (as @ x # bs) h" by (rule own_store_shape [OF assms(1) st1]) (simp add: assms(2))
  then have "sl_shape cmp D s2 (as @ x # bs) (h(x := Suc i))"
    by (rule prev_store_shape) (use assms st1 st2 np \<open>?p \<noteq> x\<close> in \<open>auto simp: stored_def\<close>)
  moreover have "link_level x prev i s = Some s2"
    using np s1 s2 assms(4) by (simp add: link_level_def Node_Next_def)
  ultimately show thesis
    using st1 st2 by (intro that [of s2]) (auto simp: stored_def)
qed

lemma link_levels_shape:
  assumes "sl_shape cmp D s (as @ x # bs) h" "h x = i" "length (node_next (the (sl_nodes s x))) = height"
    and "\<forall>l < height. prev ! l = last_linked h l as" "height \<le> sl_max_height s" "i \<le> height"
  obtains s' where "link_levels x prev [i..<height] s = Some s'"
    "sl_shape cmp D s' (as @ x # bs) (h(x := height))" "\<And>a. key_of s' a = key_of s a"
proof -
  have "\<exists>s'. link_levels x prev [i..<height] s = Some s' \<and>
    sl_shape cmp D s' (as @ x # bs) (h(x := height)) \<and> (\<forall>a. key_of s' a = key_of s a)"
    using assms
  proof (induction "height - i" arbitrary: i s h)
    case 0
    then show ?case by (auto simp: fun_upd_idem)
  next
    case (Suc n)
    then have i: "i < height" by simp
    obtain s1 where s1: "link_level x prev i s = Some s1" "sl_shape cmp D s1 (as @ x # bs) (h(x := Suc i))"
      "\<And>a. key_of s1 a = key_of s a" "length (node_next (the (sl_nodes s1 x))) = height"
      "sl_max_height s1 = sl_max_height s"
      using link_level_shape [OF Suc.prems(1, 2)] Suc.prems(3-5) i by auto
    have "x \<notin> set (0 # as)" using Suc.prems(1) by (auto simp: sl_shape_def)
    then have "last_linked (h(x := Suc i)) l as = last_linked h l as" for l
      unfolding last_linked_def by (intro arg_cong [where f = last] filter_cong) auto
    then have "\<exists>s'. link_levels x prev [Suc i..<height] s1 = Some s' \<and>
      sl_shape cmp D s' (as @ x # bs) ((h(x := Suc i))(x := height)) \<and> (\<forall>a. key_of s' a = key_of s1 a)"
      using Suc.hyps(2) Suc.prems(4, 5) i s1 by (intro Suc.hyps(1)) auto
    then show ?case using s1 i by (auto simp: upt_conv_Cons)
  qed
  then show thesis using that by blast
qed

lemma RandomHeight_loop_range: "1 \<le> n \<Longrightarrow> n \<le> kMaxHeight \<Longrightarrow>
  1 \<le> fst (RandomHeight_loop n rnd) \<and> fst (RandomHeight_loop n rnd) \<le> kMaxHeight"
proof (induction n rnd rule: RandomHeight_loop.induct)
  case (1 n rnd)
  then show ?case by (subst (1 2) RandomHeight_loop.simps) (auto split: prod.splits)
qed

lemma raise_prev_length [simp]: "length (foldl (\<lambda>prev i. prev[i := 0]) prev [m..<n]) = length prev"
  by (induction n) auto

lemma raise_prev:
  "l < length prev \<Longrightarrow> foldl (\<lambda>prev i. prev[i := 0]) prev [m..<n] ! l = (if m \<le> l \<and> l < n then 0 else prev ! l)"
  by (induction n) (auto simp: nth_list_update less_Suc_eq)

lemma links_cong:
  "(\<And>a. a \<in> set xs \<Longrightarrow> g a = h a \<and> sl_nodes s' a = sl_nodes s a) \<Longrightarrow> links s h xs \<Longrightarrow> links s' g xs"
proof (induction xs)
  case (Cons y ys)
  have "find (\<lambda>a. l < g a) ys = find (\<lambda>a. l < h a) ys" for l
    using Cons.prems(1) by (intro find_cong refl) auto
  with Cons show ?case by simp
qed simp

context key_order
begin

lemma before_not_before: "before cmp s key ns @ not_before cmp s key ns = ns"
  by (simp add: before_def not_before_def)

lemma sorted_around:
  assumes "sl_inv cmp dom s ns h" "dom key" "\<forall>a \<in> set ns. cmp (key_of s a) key \<noteq> 0"
  shows "\<forall>a \<in> set (before cmp s key ns). cmp (key_of s a) key < 0"
    and "\<forall>a \<in> set (not_before cmp s key ns). cmp key (key_of s a) < 0"
proof -
  show "\<forall>a \<in> set (before cmp s key ns). cmp (key_of s a) key < 0"
    unfolding before_def by (auto dest: set_takeWhileD)
  have d: "\<forall>a \<in> set ns. dom (key_of s a)" using assms(1) by (auto simp: sl_inv_def sl_shape_def)
  have srt: "sorted_wrt (\<lambda>a b. cmp (key_of s b) key < 0 \<longrightarrow> cmp (key_of s a) key < 0) ns"
    by (rule sorted_before [OF assms(1, 2)])
  have "\<not> cmp (key_of s a) key < 0" if "a \<in> set (dropWhile (\<lambda>a. cmp (key_of s a) key < 0) ns)" for a
    using srt that by (induction ns) (auto split: if_splits)
  then show "\<forall>a \<in> set (not_before cmp s key ns). cmp key (key_of s a) < 0"
    using assms(2, 3) d not_less unfolding not_before_def by (metis less_le set_dropWhileD cmp_sign linorder_neqE_linordered_idom)
qed

lemma Insert_prepare_spec:
  assumes inv: "sl_inv cmp dom s ns h" and key: "dom key" "\<forall>a \<in> set ns. cmp (key_of s a) key \<noteq> 0"
  obtains x prev height s' where "Insert_prepare cmp key s = Some (x, prev, height, s')"
    "sl_shape cmp dom s' (before cmp s key ns @ x # not_before cmp s key ns) (h(x := 0))"
    "length (node_next (the (sl_nodes s' x))) = height" "0 < height" "height \<le> sl_max_height s'"
    "\<forall>l < height. prev ! l = last_linked (h(x := 0)) l (before cmp s key ns)"
    "key_of s' x = key" "x \<notin> set (0 # ns)" "\<forall>a \<in> set ns. key_of s' a = key_of s a"
proof -
  let ?as = "before cmp s key ns" and ?bs = "not_before cmp s key ns" and ?m = "sl_max_height s"
  note shape = inv [unfolded sl_inv_def sl_shape_def]
  obtain prev where prev: "FindGreaterOrEqual cmp s key (replicate kMaxHeight (Suc (sl_fresh s))) = Some (hd_option ?bs, prev)"
    "length prev = kMaxHeight" "\<forall>l < kMaxHeight. l < ?m \<longrightarrow> prev ! l = last_linked h l ?as"
    using FindGreaterOrEqual_spec [OF inv key(1), of "replicate kMaxHeight (Suc (sl_fresh s))"] by auto
  have new: "(case hd_option ?bs of None \<Rightarrow> Some False
      | Some a \<Rightarrow> do { nd \<leftarrow> sl_nodes s a; Some (cmp key (node_key nd) = 0) }) = Some False"
  proof (cases ?bs)
    case (Cons a bs)
    then have "a \<in> set ns" using before_not_before [of s key ns] by (metis in_set_conv_decomp)
    then obtain nd where "sl_nodes s a = Some nd" using shape by auto
    with Cons show ?thesis using sorted_around(2) [OF inv key] by (simp add: hd_option_def)
  qed (simp add: hd_option_def)
  define x where "x = sl_fresh s"
  obtain height rnd where r: "RandomHeight_loop (Suc 0) (sl_rnd s) = (height, rnd)" by fastforce
  have height: "1 \<le> height" "height \<le> kMaxHeight"
    using RandomHeight_loop_range [of 1 "sl_rnd s"] r by (auto simp: kMaxHeight_def)
  define prev' where "prev' = (if height > ?m then foldl (\<lambda>prev i. prev[i := 0]) prev [?m..<height] else prev)"
  define s' where "s' = s\<lparr>sl_nodes := (sl_nodes s)(x \<mapsto> \<lparr>node_key = key, node_next = replicate height None\<rparr>),
      sl_max_height := max ?m height, sl_rnd := rnd, sl_fresh := x + 1\<rparr>"
  have x: "x \<notin> set (0 # ns)" using shape by (auto simp: x_def)
  have "Insert_prepare cmp key s = Some (x, prev', height, s')"
    by (simp add: Insert_prepare_def prev(1) new RandomHeight_def r NewNode_def prev'_def s'_def x_def Let_def max_def)
  moreover have "last_linked h l ?as = 0" if "?m \<le> l" "l < kMaxHeight" for l
  proof -
    have "filter (\<lambda>a. l < h a) ?as = []"
      using shape that by (auto simp: before_def filter_empty_conv dest!: set_takeWhileD)
    then show ?thesis using shape that by (simp add: last_linked_def)
  qed
  then have "prev' ! l = last_linked h l ?as" if "l < height" for l
    using that prev(2, 3) height raise_prev [of l prev ?m height] by (auto simp: prev'_def)
  moreover have "last_linked (h(x := 0)) l ?as = last_linked h l ?as" for l
    unfolding last_linked_def using x
    by (intro arg_cong [where f = last] filter_cong) (auto simp: before_def dest: set_takeWhileD)
  moreover have same: "sl_nodes s' a = sl_nodes s a" if "a \<in> set (0 # ns)" for a
    using that x by (auto simp: s'_def)
  moreover have "sl_shape cmp dom s' (?as @ x # ?bs) (h(x := 0))"
  proof -
    have split: "?as @ ?bs = ns" by (rule before_not_before)
    then have ns: "set ns = set ?as \<union> set ?bs" "distinct (?as @ ?bs)"
      using shape by (metis set_append, simp)
    have "links s' (h(x := 0)) (0 # ns)"
      using shape x same by (intro links_cong [of "0 # ns" _ h s' s]) auto
    then have links: "links s' (h(x := 0)) (0 # ?as @ x # ?bs)"
      using links_hidden [of "h(x := 0)" x s' "0 # ?as" ?bs] split by simp
    have keys: "key_of s' a = key_of s a" if "a \<in> set ?as \<union> set ?bs" for a
      using same [of a] that ns(1) by simp
    have "sorted_wrt (\<lambda>a b. cmp (key_of s a) (key_of s b) < 0) (?as @ ?bs)" using shape split by simp
    then have "sorted_wrt (\<lambda>a b. cmp (key_of s' a) (key_of s' b) < 0) (?as @ ?bs)"
      by (rule sorted_wrt_mono_rel [rotated]) (simp add: keys)
    then have "sorted_wrt (\<lambda>a b. cmp (key_of s' a) (key_of s' b) < 0) (?as @ x # ?bs)"
      using sorted_around [OF inv key] keys by (simp add: sorted_wrt_append s'_def)
    moreover have "\<exists>nd. sl_nodes s' a = Some nd \<and> (h(x := 0)) a \<le> length (node_next nd)"
      if "a \<in> set (0 # ?as @ x # ?bs)" for a
      using that shape same [of a] ns(1) by (cases "a = x") (auto simp: s'_def)
    moreover have "dom (key_of s' a) \<and> (h(x := 0)) a \<le> sl_max_height s'" if "a \<in> set (?as @ x # ?bs)" for a
      using that shape keys [of a] ns(1) key(1) by (cases "a = x") (auto simp: s'_def le_max_iff_disj)
    ultimately show ?thesis
      using links shape x ns height by (auto simp: sl_shape_def s'_def x_def less_SucI)
  qed
  ultimately show thesis
    using height x by (intro that [of x prev' height s']) (auto simp: s'_def)
qed

end

section \<open>The skip list implements a sorted list\<close>

definition sl_abs :: "('k \<Rightarrow> 'k \<Rightarrow> int) \<Rightarrow> ('k \<Rightarrow> bool) \<Rightarrow> 'k SkipList \<Rightarrow> 'k list \<Rightarrow> bool" where
  "sl_abs cmp D s ks \<longleftrightarrow> (\<exists>ns h. sl_inv cmp D s ns h \<and> ks = map (key_of s) ns)"

definition sorted_insert :: "('k \<Rightarrow> 'k \<Rightarrow> int) \<Rightarrow> 'k \<Rightarrow> 'k list \<Rightarrow> 'k list" where
  "sorted_insert cmp key ks =
     takeWhile (\<lambda>k. cmp k key < 0) ks @ key # dropWhile (\<lambda>k. cmp k key < 0) ks"

text \<open>All keys of a list from the first to the last, as a client of the iterator reads them.\<close>

partial_function (option) iter_collect :: "'k SkipList \<Rightarrow> nat option \<Rightarrow> 'k list option" where
  "iter_collect s node =
     (if iter_Valid node then
        do { k \<leftarrow> iter_key s node; n \<leftarrow> iter_Next s node; ks \<leftarrow> iter_collect s n; Some (k # ks) }
      else Some [])"

definition iter_all :: "'k SkipList \<Rightarrow> 'k list option" where
  "iter_all s = do { n \<leftarrow> iter_SeekToFirst s; iter_collect s n }"

lemma hd_option_map: "map_option f (hd_option xs) = hd_option (map f xs)"
  by (cases xs) (simp_all add: hd_option_def)

lemma hd_option_in: "hd_option xs = Some x \<Longrightarrow> x \<in> set xs"
  by (cases xs) (simp_all add: hd_option_def)

lemma sl_inv_next0:
  assumes "sl_inv cmp D s ns h" "0 # ns = pre @ x # post"
  shows "Node_Next s x 0 = Some (hd_option post)"
proof -
  have x: "x \<in> set (0 # ns)" "0 < h x" using assms by (auto simp: sl_inv_def)
  have post: "\<forall>a \<in> set post. 0 < h a" using assms by (cases pre) (auto simp: sl_inv_def)
  have "links s h (pre @ x # post)" using assms by (metis sl_inv_def sl_shape_def)
  then have "next_of s x 0 = find (\<lambda>a. 0 < h a) post" using links_at x(2) by blast
  also have "\<dots> = hd_option post" using post by (cases post) (auto simp: hd_option_def)
  finally show ?thesis using sl_inv_node [OF assms(1) x] by simp
qed

lemma iter_collect_spec:
  assumes "sl_inv cmp D s ns h"
  shows "0 # ns = pre @ x # post \<Longrightarrow> iter_collect s (hd_option post) = Some (map (key_of s) post)"
proof (induction post arbitrary: pre x)
  case Nil
  then show ?case by (subst iter_collect.simps) (simp add: iter_Valid_def hd_option_def)
next
  case (Cons a post)
  have a: "0 # ns = (pre @ [x]) @ a # post" using Cons.prems by simp
  then have "a \<in> set ns" by (cases pre) auto
  then obtain nd where "sl_nodes s a = Some nd" using sl_inv_key [OF assms] by blast
  then show ?case
    using Cons.IH [OF a] sl_inv_next0 [OF assms a]
    by (subst iter_collect.simps) (simp add: iter_Valid_def hd_option_def [of "a # post"] iter_key_def iter_Next_def)
qed

lemma iter_all_abs: "sl_abs cmp D s ks \<Longrightarrow> iter_all s = Some ks"
  using sl_inv_next0 [of cmp D s _ _ "[]" 0] iter_collect_spec [of cmp D s _ _ "[]" 0]
  by (fastforce simp: sl_abs_def iter_all_def iter_SeekToFirst_def)

context key_order
begin

lemma before_keys:
  "map (key_of s) (before cmp s key ns) = takeWhile (\<lambda>k. cmp k key < 0) (map (key_of s) ns)"
  "map (key_of s) (not_before cmp s key ns) = dropWhile (\<lambda>k. cmp k key < 0) (map (key_of s) ns)"
  by (simp_all add: before_def not_before_def takeWhile_map dropWhile_map comp_def)

lemma Insert_abs:
  assumes "sl_abs cmp dom s ks" "dom key" "\<forall>k \<in> set ks. cmp k key \<noteq> 0"
  shows "\<exists>s'. Insert cmp key s = Some s' \<and> sl_abs cmp dom s' (sorted_insert cmp key ks)"
proof -
  obtain ns h where inv: "sl_inv cmp dom s ns h" and ks: "ks = map (key_of s) ns"
    using assms(1) by (auto simp: sl_abs_def)
  let ?as = "before cmp s key ns" and ?bs = "not_before cmp s key ns"
  have fresh: "\<forall>a \<in> set ns. cmp (key_of s a) key \<noteq> 0" using assms(3) ks by simp
  obtain x prev height s1 where s1: "Insert_prepare cmp key s = Some (x, prev, height, s1)"
    "sl_shape cmp dom s1 (?as @ x # ?bs) (h(x := 0))"
    "length (node_next (the (sl_nodes s1 x))) = height" "0 < height" "height \<le> sl_max_height s1"
    "\<forall>l < height. prev ! l = last_linked (h(x := 0)) l ?as"
    "key_of s1 x = key" "x \<notin> set (0 # ns)" "\<forall>a \<in> set ns. key_of s1 a = key_of s a"
    by (rule Insert_prepare_spec [OF inv assms(2) fresh])
  obtain s2 where s2: "link_levels x prev [0..<height] s1 = Some s2"
    "sl_shape cmp dom s2 (?as @ x # ?bs) ((h(x := 0))(x := height))" "\<And>a. key_of s2 a = key_of s1 a"
    using link_levels_shape [OF s1(2) _ s1(3) s1(6) s1(5)] by auto
  have ns: "set ?as \<union> set ?bs = set ns" using before_not_before [of s key ns] by (metis set_append)
  have "sl_inv cmp dom s2 (?as @ x # ?bs) (h(x := height))"
    using s2(2) inv s1(4, 8) ns by (auto simp: sl_inv_def)
  moreover have "map (key_of s2) (?as @ x # ?bs) = sorted_insert cmp key ks"
  proof -
    have "map (key_of s2) ?as = map (key_of s) ?as" "map (key_of s2) ?bs = map (key_of s) ?bs"
      using s1(9) s2(3) ns by auto
    then show ?thesis using s1(7) s2(3) by (simp add: sorted_insert_def ks before_keys)
  qed
  ultimately show ?thesis
    using s1(1) s2(1) unfolding sl_abs_def by (fastforce simp: Insert_def)
qed

lemma Seek_abs:
  assumes "sl_abs cmp dom s ks" "dom key"
  shows "\<exists>n. iter_Seek cmp s key = Some n \<and> (n = None \<longleftrightarrow> dropWhile (\<lambda>k. cmp k key < 0) ks = []) \<and>
    iter_key s n = hd_option (dropWhile (\<lambda>k. cmp k key < 0) ks)"
proof -
  obtain ns h where inv: "sl_inv cmp dom s ns h" and ks: "ks = map (key_of s) ns"
    using assms(1) by (auto simp: sl_abs_def)
  let ?n = "hd_option (not_before cmp s key ns)"
  have "iter_Seek cmp s key = Some ?n"
    using FindGreaterOrEqual_spec [OF inv assms(2), of "[]"] by (auto simp: iter_Seek_def)
  moreover have "iter_key s ?n = hd_option (map (key_of s) (not_before cmp s key ns))"
  proof (cases "not_before cmp s key ns")
    case (Cons a as)
    then have "a \<in> set ns" using set_dropWhileD unfolding not_before_def by (metis list.set_intros(1))
    then obtain nd where "sl_nodes s a = Some nd" using sl_inv_key [OF inv] by blast
    with Cons show ?thesis by (simp add: iter_key_def hd_option_def)
  qed (simp add: iter_key_def hd_option_def)
  moreover have "?n = None \<longleftrightarrow> not_before cmp s key ns = []"
    by (simp add: hd_option_def split: list.splits)
  ultimately show ?thesis unfolding before_keys ks [symmetric] by (metis before_keys(2) ks map_is_Nil_conv)
qed

lemma Contains_abs:
  assumes "sl_abs cmp dom s ks" "dom key"
  shows "Contains cmp s key = Some (\<exists>k \<in> set ks. cmp key k = 0)"
proof -
  obtain ns h where inv: "sl_inv cmp dom s ns h" and ks: "ks = map (key_of s) ns"
    using assms(1) by (auto simp: sl_abs_def)
  have srt: "sorted_wrt (\<lambda>a b. cmp (key_of s a) (key_of s b) < 0) ns" "\<forall>a \<in> set ns. dom (key_of s a)"
    using inv by (auto simp: sl_inv_def sl_shape_def)
  have "(\<exists>a \<in> set ns. cmp key (key_of s a) = 0) \<longleftrightarrow>
      (case not_before cmp s key ns of [] \<Rightarrow> False | a # _ \<Rightarrow> cmp key (key_of s a) = 0)"
    using srt
  proof (induction ns)
    case (Cons a ns)
    have "cmp (key_of s a) key < 0 \<Longrightarrow> cmp key (key_of s a) \<noteq> 0"
      using cmp_sign [of "key_of s a" key] Cons.prems assms(2) by auto
    moreover have "cmp key (key_of s b) \<noteq> 0" if "\<not> cmp (key_of s a) key < 0" "b \<in> set ns" for b
      using that Cons.prems assms(2) not_less [of "key_of s a" key] le_less_trans [of key "key_of s a" "key_of s b"]
      by fastforce
    ultimately show ?case using Cons by (auto simp: not_before_def)
  qed (simp add: not_before_def)
  moreover have "Contains cmp s key =
      Some (case not_before cmp s key ns of [] \<Rightarrow> False | a # _ \<Rightarrow> cmp key (key_of s a) = 0)"
  proof (cases "not_before cmp s key ns")
    case (Cons a as)
    then have "a \<in> set ns" using set_dropWhileD unfolding not_before_def by (metis list.set_intros(1))
    then obtain nd where "sl_nodes s a = Some nd" using sl_inv_key [OF inv] by blast
    then show ?thesis
      using Cons FindGreaterOrEqual_spec [OF inv assms(2), of "[]"] by (auto simp: Contains_def hd_option_def)
  qed (use FindGreaterOrEqual_spec [OF inv assms(2), of "[]"] in \<open>auto simp: Contains_def hd_option_def\<close>)
  ultimately show ?thesis by (simp add: ks)
qed

end

section \<open>Readers during an insertion\<close>

text \<open>
  Readers take no lock. The writer (there is at most one) performs single stores: after the
  preparation, at each level first the link of the new node (\<open>Ready\<close> to \<open>Half\<close>), then the
  link of its predecessor. A reader searches for a target, one load at a time, while the
  writer runs.
\<close>

datatype writer = Idle | Ready nat "nat list" nat nat | Half nat "nat list" nat nat

datatype reader = Start | At nat nat | Found "nat option"

inductive conc_step ::
  "('k \<Rightarrow> 'k \<Rightarrow> int) \<Rightarrow> ('k \<Rightarrow> bool) \<Rightarrow> 'k \<Rightarrow>
   'k SkipList \<times> writer \<times> reader \<Rightarrow> 'k SkipList \<times> writer \<times> reader \<Rightarrow> bool"
  for cmp D target where
  insert_begin: "D key \<Longrightarrow> iter_all s = Some ks \<Longrightarrow> \<forall>k \<in> set ks. cmp k key \<noteq> 0 \<Longrightarrow>
    Insert_prepare cmp key s = Some (x, prev, height, s') \<Longrightarrow>
    conc_step cmp D target (s, Idle, r) (s', Ready x prev 0 height, r)"
| store_own: "Node_Next s (prev ! i) i = Some n \<Longrightarrow> Node_SetNext s x i n = Some s' \<Longrightarrow>
    conc_step cmp D target (s, Ready x prev i height, r) (s', Half x prev i height, r)"
| store_prev: "Node_SetNext s (prev ! i) i (Some x) = Some s' \<Longrightarrow>
    conc_step cmp D target (s, Half x prev i height, r)
      (s', if Suc i < height then Ready x prev (Suc i) height else Idle, r)"
| read_begin: "conc_step cmp D target (s, w, Start) (s, w, At 0 (sl_max_height s - 1))"
| read_move: "Node_Next s y l = Some n \<Longrightarrow> KeyIsAfterNode cmp s target n = Some True \<Longrightarrow>
    conc_step cmp D target (s, w, At y l) (s, w, At (the n) l)"
| read_down: "Node_Next s y l = Some n \<Longrightarrow> KeyIsAfterNode cmp s target n = Some False \<Longrightarrow> 0 < l \<Longrightarrow>
    conc_step cmp D target (s, w, At y l) (s, w, At y (l - 1))"
| read_found: "Node_Next s y 0 = Some n \<Longrightarrow> KeyIsAfterNode cmp s target n = Some False \<Longrightarrow>
    conc_step cmp D target (s, w, At y 0) (s, w, Found n)"

inductive_cases conc_step_found: "conc_step cmp D target (s, w, At y l) (s', w', Found n)"

inductive conc_reach :: "('k \<Rightarrow> 'k \<Rightarrow> int) \<Rightarrow> ('k \<Rightarrow> bool) \<Rightarrow> 'k \<Rightarrow> 'k SkipList \<times> writer \<times> reader \<Rightarrow> bool"
  for cmp D target where
  initial: "conc_reach cmp D target (new_SkipList k0, Idle, Start)"
| step: "conc_reach cmp D target c \<Longrightarrow> conc_step cmp D target c c' \<Longrightarrow> conc_reach cmp D target c'"
| again: "conc_reach cmp D target (s, w, Found n) \<Longrightarrow> conc_reach cmp D target (s, w, Start)"

fun reader_ok :: "('k \<Rightarrow> 'k \<Rightarrow> int) \<Rightarrow> 'k \<Rightarrow> 'k SkipList \<Rightarrow> nat list \<Rightarrow> (nat \<Rightarrow> nat) \<Rightarrow> reader \<Rightarrow> bool" where
  "reader_ok cmp target s ns h (At y l) =
     (y \<in> set (0 # ns) \<and> (y = 0 \<or> cmp (key_of s y) target < 0) \<and> l < h y)"
| "reader_ok cmp target s ns h r = True"

definition linking ::
  "('k \<Rightarrow> 'k \<Rightarrow> int) \<Rightarrow> ('k \<Rightarrow> bool) \<Rightarrow> 'k SkipList \<Rightarrow> nat list \<Rightarrow> (nat \<Rightarrow> nat) \<Rightarrow> nat \<Rightarrow> nat list \<Rightarrow> nat \<Rightarrow> nat \<Rightarrow> bool" where
  "linking cmp D s ns h x prev i height \<longleftrightarrow>
     (\<exists>as bs. sl_shape cmp D s (as @ x # bs) h \<and> h x = i \<and> length (node_next (the (sl_nodes s x))) = height \<and>
        i < height \<and> height \<le> sl_max_height s \<and> (\<forall>l < height. prev ! l = last_linked h l as) \<and>
        (\<forall>a \<in> set (0 # as @ bs). 0 < h a) \<and> ns = (if i = 0 then as @ bs else as @ x # bs))"

fun writer_ok :: "('k \<Rightarrow> 'k \<Rightarrow> int) \<Rightarrow> ('k \<Rightarrow> bool) \<Rightarrow> 'k SkipList \<Rightarrow> nat list \<Rightarrow> (nat \<Rightarrow> nat) \<Rightarrow> writer \<Rightarrow> bool" where
  "writer_ok cmp D s ns h Idle = True"
| "writer_ok cmp D s ns h (Ready x prev i height) = linking cmp D s ns h x prev i height"
| "writer_ok cmp D s ns h (Half x prev i height) =
     (linking cmp D s ns h x prev i height \<and> next_of s x i = next_of s (prev ! i) i)"

fun conc_inv :: "('k \<Rightarrow> 'k \<Rightarrow> int) \<Rightarrow> ('k \<Rightarrow> bool) \<Rightarrow> 'k \<Rightarrow> 'k SkipList \<times> writer \<times> reader \<Rightarrow> bool" where
  "conc_inv cmp D target (s, w, r) =
     (\<exists>ns h. sl_inv cmp D s ns h \<and> writer_ok cmp D s ns h w \<and> reader_ok cmp target s ns h r)"

lemma sl_inv_new: "sl_inv cmp D (new_SkipList k0) [] (\<lambda>a. kMaxHeight)"
  by (auto simp: sl_inv_def sl_shape_def new_SkipList_def kMaxHeight_def)

lemma linking_inv:
  assumes "sl_shape cmp D s (as @ x # bs) h" "\<forall>a \<in> set (0 # as @ bs). 0 < h a"
  shows "sl_inv cmp D s (if h x = 0 then as @ bs else as @ x # bs) h"
  using assms sl_shape_hidden [OF assms(1)] by (auto simp: sl_inv_def)

lemma reader_ok_mono:
  "reader_ok cmp target s ns h r \<Longrightarrow> set ns \<subseteq> set ns' \<Longrightarrow>
   (\<And>a. a \<in> set (0 # ns) \<Longrightarrow> h a \<le> h' a) \<Longrightarrow> (\<And>a. a \<in> set ns \<Longrightarrow> key_of s' a = key_of s a) \<Longrightarrow>
   reader_ok cmp target s' ns' h' r"
  by (cases r) (auto intro: less_le_trans)

lemma last_linked_upd: "x \<notin> set (0 # as) \<Longrightarrow> last_linked (h(x := i)) l as = last_linked h l as"
  unfolding last_linked_def by (intro arg_cong [where f = last] filter_cong) auto

text \<open>The two stores of the writer.\<close>

lemma store_own_inv:
  assumes "conc_inv cmp D target (s, Ready x prev i height, r)" "Node_Next s (prev ! i) i = Some n"
    "Node_SetNext s x i n = Some s'"
  shows "conc_inv cmp D target (s', Half x prev i height, r)"
proof -
  obtain ns h as bs where inv: "sl_inv cmp D s ns h" "reader_ok cmp target s ns h r"
    and l: "sl_shape cmp D s (as @ x # bs) h" "h x = i" "length (node_next (the (sl_nodes s x))) = height"
      "i < height" "height \<le> sl_max_height s" "\<forall>l < height. prev ! l = last_linked h l as"
      "\<forall>a \<in> set (0 # as @ bs). 0 < h a" "ns = (if i = 0 then as @ bs else as @ x # bs)"
    using assms(1) by (auto simp: linking_def)
  note st = Node_SetNext_stored [OF assms(3)]
  have shape: "sl_shape cmp D s' (as @ x # bs) h" by (rule own_store_shape [OF l(1) st]) (simp add: l(2))
  have "i < h 0" using l(1, 4, 5) by (simp add: sl_shape_def)
  then have "prev ! i \<in> set (0 # as)" using last_linked_in [of i h as] l(4, 6) by simp
  then have "prev ! i \<noteq> x" using l(1) by (auto simp: sl_shape_def)
  then have "next_of s' x i = next_of s' (prev ! i) i"
    using st assms(2) by (auto simp: stored_def Node_Next_def split: Option.bind_splits if_splits)
  moreover have "linking cmp D s' ns h x prev i height"
    using shape l st by (auto simp: linking_def stored_def)
  moreover have "sl_inv cmp D s' ns h" using linking_inv [OF shape l(7)] l(2, 8) by simp
  moreover have "reader_ok cmp target s' ns h r"
    using st by (intro reader_ok_mono [OF inv(2)]) (auto simp: stored_def)
  ultimately show ?thesis by auto
qed

lemma store_prev_inv:
  assumes "conc_inv cmp D target (s, Half x prev i height, r)" "Node_SetNext s (prev ! i) i (Some x) = Some s'"
  shows "conc_inv cmp D target (s', if Suc i < height then Ready x prev (Suc i) height else Idle, r)"
proof -
  obtain ns h as bs where inv: "sl_inv cmp D s ns h" "reader_ok cmp target s ns h r"
      "next_of s x i = next_of s (prev ! i) i"
    and l: "sl_shape cmp D s (as @ x # bs) h" "h x = i" "length (node_next (the (sl_nodes s x))) = height"
      "i < height" "height \<le> sl_max_height s" "\<forall>l < height. prev ! l = last_linked h l as"
      "\<forall>a \<in> set (0 # as @ bs). 0 < h a" "ns = (if i = 0 then as @ bs else as @ x # bs)"
    using assms(1) by (auto simp: linking_def)
  note st = Node_SetNext_stored [OF assms(2)]
  let ?h = "h(x := Suc i)" and ?ns = "as @ x # bs"
  have x: "x \<notin> set (0 # as @ bs)" using l(1) by (auto simp: sl_shape_def)
  have shape: "sl_shape cmp D s' ?ns ?h"
    by (rule prev_store_shape [OF l(1, 2) _ _ _ inv(3) st]) (use l in auto)
  have "linking cmp D s' ?ns ?h x prev (Suc i) height" if "Suc i < height"
    unfolding linking_def
    by (rule exI [of _ as], rule exI [of _ bs])
      (use that shape l x st last_linked_upd [of x as h "Suc i"] in \<open>auto simp: stored_def\<close>)
  moreover have "sl_inv cmp D s' ?ns ?h" using shape l(7) x by (auto simp: sl_inv_def)
  moreover have "reader_ok cmp target s' ?ns ?h r"
    using st l(2, 8) x by (intro reader_ok_mono [OF inv(2)]) (auto simp: stored_def split: if_splits)
  ultimately show ?thesis by auto
qed

context key_order
begin

lemma insert_begin_inv:
  assumes "conc_inv cmp dom target (s, Idle, r)" "dom key" "iter_all s = Some ks"
    "\<forall>k \<in> set ks. cmp k key \<noteq> 0" "Insert_prepare cmp key s = Some (x, prev, height, s')"
  shows "conc_inv cmp dom target (s', Ready x prev 0 height, r)"
proof -
  obtain ns h where inv: "sl_inv cmp dom s ns h" and r: "reader_ok cmp target s ns h r"
    using assms(1) by auto
  have "ks = map (key_of s) ns" using iter_all_abs [of cmp dom s] inv assms(3) by (auto simp: sl_abs_def)
  then have fresh: "\<forall>a \<in> set ns. cmp (key_of s a) key \<noteq> 0" using assms(4) by simp
  let ?as = "before cmp s key ns" and ?bs = "not_before cmp s key ns" and ?h = "h(x := 0)"
  have p: "sl_shape cmp dom s' (?as @ x # ?bs) ?h"
    "length (node_next (the (sl_nodes s' x))) = height" "0 < height" "height \<le> sl_max_height s'"
    "\<forall>l < height. prev ! l = last_linked ?h l ?as" "x \<notin> set (0 # ns)"
    "\<forall>a \<in> set ns. key_of s' a = key_of s a"
    by (rule Insert_prepare_spec [OF inv assms(2) fresh]; use assms(5) in simp)+
  have ns: "?as @ ?bs = ns" by (rule before_not_before)
  then have ns': "set ?as \<union> set ?bs = set ns" by (metis set_append)
  have pos: "\<forall>a \<in> set (0 # ?as @ ?bs). 0 < ?h a"
    using inv p(6) unfolding ns by (auto simp: sl_inv_def)
  have "sl_inv cmp dom s' ns ?h" using linking_inv [OF p(1) pos] by (simp only: ns fun_upd_same simp_thms if_True)
  moreover have "linking cmp dom s' ns ?h x prev 0 height"
    unfolding linking_def using p pos ns by (intro exI [of _ ?as] exI [of _ ?bs]) simp
  moreover have "reader_ok cmp target s' ns ?h r"
    using p(6, 7) by (intro reader_ok_mono [OF r]) auto
  ultimately show ?thesis by auto
qed

text \<open>Where a reader is, all earlier nodes are before its target.\<close>

lemma reader_position:
  assumes "sl_inv cmp dom s ns h" "dom target" "reader_ok cmp target s ns h (At y l)"
  obtains pre post where "0 # ns = pre @ y # post"
    "\<forall>a \<in> set (pre @ [y]). a = 0 \<or> cmp (key_of s a) target < 0"
proof -
  obtain pre post where s: "0 # ns = pre @ y # post" using assms(3) by (metis reader_ok.simps(1) split_list)
  have "a = 0 \<or> cmp (key_of s a) target < 0" if "a \<in> set pre" for a
  proof (cases pre)
    case (Cons b pre')
    then have b: "b = 0" "ns = pre' @ y # post" using s by auto
    have "y \<noteq> 0" using assms(1) b(2) by (auto simp: sl_inv_def sl_shape_def)
    then have "cmp (key_of s y) target < 0" using assms(3) by simp
    then show ?thesis
      using sorted_before [OF assms(1, 2)] that Cons b by (auto simp: sorted_wrt_append)
  qed (use that in simp)
  with s assms(3) show thesis by (intro that [of pre post]) auto
qed

lemma reader_step_cases:
  assumes "sl_inv cmp dom s ns h" "dom target" "reader_ok cmp target s ns h (At y l)"
  shows "\<exists>n. Node_Next s y l = Some n \<and>
    ((\<exists>a. n = Some a \<and> KeyIsAfterNode cmp s target n = Some True \<and> reader_ok cmp target s ns h (At a l)) \<or>
     (KeyIsAfterNode cmp s target n = Some False \<and> (l = 0 \<longrightarrow> n = hd_option (not_before cmp s target ns))))"
proof -
  obtain pre post where p: "0 # ns = pre @ y # post"
    "\<forall>a \<in> set (pre @ [y]). a = 0 \<or> cmp (key_of s a) target < 0"
    using reader_position [OF assms] .
  have y: "y \<in> set (0 # ns)" "l < h y" using assms(3) by auto
  have nx: "Node_Next s y l = Some (next_of s y l)" by (rule sl_inv_node [OF assms(1) y])
  from key_search_step [OF assms(1, 2) p y(2)] show ?thesis
  proof (elim disjE exE conjE)
    fix a p1 p2
    assume a: "next_of s y l = Some a" "cmp (key_of s a) target < 0" "l < h a" "0 # ns = (pre @ y # p1) @ a # p2"
    then have "a \<in> set ns" by (cases pre) auto
    with a show ?thesis using nx KeyIsAfterNode_eq [OF assms(1)] by auto
  next
    assume d: "\<forall>a. next_of s y l = Some a \<longrightarrow> \<not> cmp (key_of s a) target < 0 \<and> a \<in> set ns"
      "l = 0 \<longrightarrow> next_of s y l = hd_option (not_before cmp s target ns)"
    have "KeyIsAfterNode cmp s target (next_of s y l) = Some False"
      using d(1) KeyIsAfterNode_eq [OF assms(1)]
      by (cases "next_of s y l") (auto simp: KeyIsAfterNode_def [of _ _ _ None])
    with d(2) nx show ?thesis by auto
  qed
qed

lemma conc_inv_step:
  assumes "conc_step cmp dom target c c'" "conc_inv cmp dom target c" "dom target"
  shows "conc_inv cmp dom target c'"
  using assms
proof (cases rule: conc_step.cases)
  case (insert_begin key s ks x prev height s' r)
  then show ?thesis using assms(2) insert_begin_inv by blast
next
  case (store_own s prev i n x s' height r)
  show ?thesis
    unfolding store_own(2) by (rule store_own_inv [OF assms(2) [unfolded store_own(1)] store_own(3, 4)])
next
  case (store_prev s prev i x s' height r)
  show ?thesis
    unfolding store_prev(2) by (rule store_prev_inv [OF assms(2) [unfolded store_prev(1)] store_prev(3)])
next
  case (read_begin s w)
  have "sl_max_height s - 1 < h 0" if "sl_inv cmp dom s ns h" for ns h
    using that by (auto simp: sl_inv_def sl_shape_def)
  then show ?thesis using assms(2) read_begin by fastforce
next
  case (read_move s y l n w)
  obtain ns h where i: "sl_inv cmp dom s ns h" "writer_ok cmp dom s ns h w" "reader_ok cmp target s ns h (At y l)"
    using assms(2) read_move(1) by auto
  have "reader_ok cmp target s ns h (At (the n) l)"
    using reader_step_cases [OF i(1) assms(3) i(3)] read_move(3, 4) by auto
  with i show ?thesis unfolding read_move(2) conc_inv.simps by blast
next
  case (read_down s y l n w)
  obtain ns h where i: "sl_inv cmp dom s ns h" "writer_ok cmp dom s ns h w" "reader_ok cmp target s ns h (At y l)"
    using assms(2) read_down(1) by auto
  then have "reader_ok cmp target s ns h (At y (l - 1))" by auto
  with i show ?thesis unfolding read_down(2) conc_inv.simps by blast
next
  case (read_found s y n w)
  then show ?thesis using assms(2) by auto
qed

lemma conc_reach_inv:
  assumes "dom target"
  shows "conc_reach cmp dom target c \<Longrightarrow> conc_inv cmp dom target c"
proof (induction rule: conc_reach.induct)
  case (initial k0)
  show ?case using sl_inv_new by fastforce
next
  case (step c c')
  then show ?case using conc_inv_step assms by blast
next
  case (again s w n)
  then show ?case by auto
qed

lemma reader_correct:
  assumes "dom target" "conc_reach cmp dom target (s, w, At y l)"
  shows "\<exists>ks. sl_abs cmp dom s ks \<and> Node_Next s y l \<noteq> None \<and>
    (\<forall>s' w' n. conc_step cmp dom target (s, w, At y l) (s', w', Found n) \<longrightarrow>
      s' = s \<and> iter_key s n = hd_option (dropWhile (\<lambda>k. cmp k target < 0) ks) \<and>
      (n = None \<longleftrightarrow> dropWhile (\<lambda>k. cmp k target < 0) ks = []))"
proof -
  obtain ns h where inv: "sl_inv cmp dom s ns h" "reader_ok cmp target s ns h (At y l)"
    using conc_reach_inv [OF assms] by auto
  let ?ks = "map (key_of s) ns" and ?n = "hd_option (not_before cmp s target ns)"
  have abs: "sl_abs cmp dom s ?ks" using inv(1) by (auto simp: sl_abs_def)
  note rs = reader_step_cases [OF inv(1) assms(1) inv(2)]
  have found: "s' = s \<and> n = ?n" if "conc_step cmp dom target (s, w, At y l) (s', w', Found n)" for s' w' n
    using that rs by (cases rule: conc_step_found) auto
  have "iter_Seek cmp s target = Some ?n"
    using FindGreaterOrEqual_spec [OF inv(1) assms(1), of "[]"] by (auto simp: iter_Seek_def)
  then have key: "iter_key s ?n = hd_option (dropWhile (\<lambda>k. cmp k target < 0) ?ks)"
    using Seek_abs [OF abs assms(1)] by simp
  have none: "?n = None \<longleftrightarrow> dropWhile (\<lambda>k. cmp k target < 0) ?ks = []"
    unfolding before_keys(2) [symmetric] by (simp add: hd_option_def split: list.splits)
  have "s' = s \<and> iter_key s n = hd_option (dropWhile (\<lambda>k. cmp k target < 0) ?ks) \<and>
      (n = None \<longleftrightarrow> dropWhile (\<lambda>k. cmp k target < 0) ?ks = [])"
    if st: "conc_step cmp dom target (s, w, At y l) (s', w', Found n)" for s' w' n
  proof -
    have n: "n = ?n" and s: "s' = s" using found [OF st] by (rule conjunct2, rule conjunct1)
    show ?thesis unfolding n s using key none by (intro conjI refl)
  qed
  with abs rs show ?thesis by blast
qed

end

section \<open>Properties\<close>

definition last_option :: "'a list \<Rightarrow> 'a option" where
  "last_option xs = (if xs = [] then None else Some (last xs))"

lemma iter_key_last:
  assumes "sl_inv cmp D s ns h" "set xs \<subseteq> set ns"
  shows "iter_key s (if last (0 # xs) = 0 then None else Some (last (0 # xs))) = last_option (map (key_of s) xs)"
proof (cases "xs = []")
  case False
  then have "last xs \<in> set ns" using assms(2) by auto
  then obtain nd where "sl_nodes s (last xs) = Some nd" "last xs \<noteq> 0"
    using sl_inv_key [OF assms(1)] assms(1) by (fastforce simp: sl_inv_def sl_shape_def)
  with False show ?thesis by (simp add: iter_key_def last_option_def last_map)
qed (simp add: iter_key_def last_option_def)

context key_order
begin

lemma SeekToLast_abs:
  assumes "sl_abs cmp dom s ks"
  shows "\<exists>n. iter_SeekToLast s = Some n \<and> iter_key s n = last_option ks"
proof -
  obtain ns h where inv: "sl_inv cmp dom s ns h" and ks: "ks = map (key_of s) ns"
    using assms by (auto simp: sl_abs_def)
  show ?thesis
    using FindLast_spec [OF inv] iter_key_last [OF inv, of ns] by (simp add: iter_SeekToLast_def ks del: last.simps)
qed

lemma Prev_abs:
  assumes "sl_abs cmp dom s ks" "iter_key s n = Some k" "dom k"
  shows "\<exists>n'. iter_Prev cmp s n = Some n' \<and> iter_key s n' = last_option (takeWhile (\<lambda>x. cmp x k < 0) ks)"
proof -
  obtain ns h where inv: "sl_inv cmp dom s ns h" and ks: "ks = map (key_of s) ns"
    using assms(1) by (auto simp: sl_abs_def)
  have "set (before cmp s k ns) \<subseteq> set ns" by (auto simp: before_def dest: set_takeWhileD)
  then show ?thesis
    using FindLessThan_spec [OF inv assms(3)] iter_key_last [OF inv, of "before cmp s k ns"] assms(2)
    by (simp add: iter_Prev_def ks before_keys del: last.simps)
qed

end

lemma sl_abs_new: "sl_abs cmp D (new_SkipList k0) []"
  using sl_inv_new by (fastforce simp: sl_abs_def)

text \<open>
  C5. The skip list implements a sorted list of keys. For every comparison that orders the
  keys: inserting a key that compares equal to no present key inserts it at its place in the
  sorted list, for every outcome of the random heights; membership, forward iteration, the
  first key not before a target, the last key, and the predecessor of a key are those of the
  sorted list. No operation follows an invalid pointer and every search ends.
\<close>

theorem skiplist_refines_sorted_list:
  assumes "key_order cmp D" "sl_abs cmp D s ks" "D key"
  shows "((\<forall>k \<in> set ks. cmp k key \<noteq> 0) \<longrightarrow>
      (\<exists>s'. Insert cmp key s = Some s' \<and> sl_abs cmp D s' (sorted_insert cmp key ks))) \<and>
    Contains cmp s key = Some (\<exists>k \<in> set ks. cmp key k = 0) \<and>
    iter_all s = Some ks \<and>
    (\<exists>n. iter_Seek cmp s key = Some n \<and> iter_key s n = hd_option (dropWhile (\<lambda>k. cmp k key < 0) ks)) \<and>
    (\<exists>n. iter_SeekToLast s = Some n \<and> iter_key s n = last_option ks) \<and>
    (\<forall>n. iter_key s n = Some key \<longrightarrow>
      (\<exists>n'. iter_Prev cmp s n = Some n' \<and> iter_key s n' = last_option (takeWhile (\<lambda>k. cmp k key < 0) ks)))"
  using key_order.Insert_abs [OF assms] key_order.Contains_abs [OF assms] iter_all_abs [OF assms(2)]
    key_order.Seek_abs [OF assms] key_order.SeekToLast_abs [OF assms(1, 2)]
    key_order.Prev_abs [OF assms(1, 2) _ assms(3)]
  by auto

theorem skiplist_refines_sorted_list_witness:
  "key_order (Compare BytewiseComparator) (\<lambda>_. True) \<and>
   sl_abs (Compare BytewiseComparator) (\<lambda>_. True) (new_SkipList []) [] \<and>
   (\<exists>s'. Insert (Compare BytewiseComparator) [1] (new_SkipList []) = Some s' \<and>
      sl_abs (Compare BytewiseComparator) (\<lambda>_. True) s' (sorted_insert (Compare BytewiseComparator) [1] []))"
  using skiplist_refines_sorted_list [OF bytewise.key_order_axioms sl_abs_new [of _ _ "[]"], of "[1]"]
    bytewise.key_order_axioms sl_abs_new by auto

text \<open>
  C6. Readers need no lock. Whatever single stores of insertions are interleaved with the loads
  of a search, the search never follows an invalid pointer, the list is at every moment that
  of some sorted list of keys, and the node a search returns holds the first key not before
  the target in the list at the moment of its last load.
\<close>

theorem skiplist_lock_free_reader:
  assumes "key_order cmp D" "D target" "conc_reach cmp D target (s, w, At y l)"
  shows "\<exists>ks. sl_abs cmp D s ks \<and> Node_Next s y l \<noteq> None \<and>
    (\<forall>s' w' n. conc_step cmp D target (s, w, At y l) (s', w', Found n) \<longrightarrow>
      s' = s \<and> iter_key s n = hd_option (dropWhile (\<lambda>k. cmp k target < 0) ks) \<and>
      (n = None \<longleftrightarrow> dropWhile (\<lambda>k. cmp k target < 0) ks = []))"
  using assms by (rule key_order.reader_correct)

theorem skiplist_lock_free_reader_witness:
  "conc_reach (Compare BytewiseComparator) (\<lambda>_. True) [5] (new_SkipList [], Idle, At 0 0) \<and>
   (\<exists>ks. sl_abs (Compare BytewiseComparator) (\<lambda>_. True) (new_SkipList []) ks \<and>
     Node_Next (new_SkipList ([] :: bytes)) 0 0 \<noteq> None)"
proof -
  have "conc_reach (Compare BytewiseComparator) (\<lambda>_. True) [5] (new_SkipList [], Idle, At 0 0)"
    using conc_reach.step [OF conc_reach.initial conc_step.read_begin [of _ _ _ "new_SkipList []"]]
    by (simp add: new_SkipList_def)
  with skiplist_lock_free_reader [OF bytewise.key_order_axioms _ this] show ?thesis by blast
qed

end
