(* ===== verification/MemTable.thy ===== *)
theory MemTable
  imports DbFormat SkipList Env
begin

text \<open>
  \<open>db/memtable.h\<close> and \<open>db/memtable.cc\<close>: the in-memory table, a skip list of encoded entries.
  A pointer to an entry is the byte string that starts there; a read past its end, a failed
  assertion or an undecodable length is \<open>None\<close>. A table built by insertions is shown to
  implement the sorted list of its entries, and a lookup to find the newest visible one.
\<close>

section \<open>Entries\<close>

text \<open>
  The file-local \<open>GetLengthPrefixedSlice(const char*)\<close>: the slice and what follows it.
\<close>

definition raw_GetVarint32Ptr :: "bytes \<Rightarrow> (u32 \<times> bytes) option" where
  "raw_GetVarint32Ptr p =
     (case GetVarint32Ptr (take 5 p) of
        None \<Rightarrow> None
      | Some (v, rest) \<Rightarrow> Some (v, drop (length (take 5 p) - length rest) p))"

definition raw_GetLengthPrefixedSlice :: "bytes \<Rightarrow> (bytes \<times> bytes) option" where
  "raw_GetLengthPrefixedSlice data =
     (case raw_GetVarint32Ptr data of
        None \<Rightarrow> None
      | Some (len, p) \<Rightarrow>
          if unat len \<le> length p then Some (take (unat len) p, drop (unat len) p) else None)"

definition KeyComparator :: "Comparator \<Rightarrow> bytes \<Rightarrow> bytes \<Rightarrow> int" where
  "KeyComparator c aptr bptr =
     (case (raw_GetLengthPrefixedSlice aptr, raw_GetLengthPrefixedSlice bptr) of
        (Some (a, _), Some (b, _)) \<Rightarrow> Compare (InternalKeyComparator c) a b
      | _ \<Rightarrow> 0)"

definition EncodeKey :: "bytes \<Rightarrow> bytes" where
  "EncodeKey target = PutVarint32 [] (of_nat (length target)) @ target"

section \<open>The table\<close>

record MemTable =
  mt_comparator :: Comparator
  mt_refs :: int
  mt_table :: "bytes SkipList"

definition new_MemTable :: "Comparator \<Rightarrow> MemTable" where
  "new_MemTable c = \<lparr>mt_comparator = c, mt_refs = 0, mt_table = new_SkipList []\<rparr>"

definition MemTable_Ref :: "MemTable \<Rightarrow> MemTable" where
  "MemTable_Ref m = m\<lparr>mt_refs := mt_refs m + 1\<rparr>"

text \<open>The outer option is the assertion, the inner one the deletion of the table.\<close>

definition MemTable_Unref :: "MemTable \<Rightarrow> MemTable option option" where
  "MemTable_Unref m =
     (let refs = mt_refs m - 1
      in if 0 \<le> refs then Some (if refs \<le> 0 then None else Some (m\<lparr>mt_refs := refs\<rparr>)) else None)"

definition Add :: "u64 \<Rightarrow> ValueType \<Rightarrow> bytes \<Rightarrow> bytes \<Rightarrow> MemTable \<Rightarrow> MemTable option" where
  "Add s type key value m =
     (let key_size = length key;
          val_size = length value;
          internal_key_size = key_size + 8;
          encoded_len = VarintLength (of_nat internal_key_size) + internal_key_size +
            VarintLength (of_nat val_size) + val_size;
          buf = EncodeVarint32 (of_nat internal_key_size) @ key @
            EncodeFixed64 (push_bit 8 s OR value_type_num type) @
            EncodeVarint32 (of_nat val_size) @ value
      in if length buf = encoded_len
         then do {
           table' \<leftarrow> Insert (KeyComparator (mt_comparator m)) buf (mt_table m);
           Some (m\<lparr>mt_table := table'\<rparr>)
         }
         else None)"

text \<open>The result, and what the output parameters \<open>*value\<close> and \<open>*s\<close> hold afterwards.\<close>

definition Get :: "LookupKeyRep \<Rightarrow> bytes \<Rightarrow> Status \<Rightarrow> MemTable \<Rightarrow> (bool \<times> bytes \<times> Status) option" where
  "Get key value s m =
     do {
       iter \<leftarrow> iter_Seek (KeyComparator (mt_comparator m)) (mt_table m) (memtable_key key);
       if iter_Valid iter then do {
         entry \<leftarrow> iter_key (mt_table m) iter;
         (key_length, key_ptr) \<leftarrow> raw_GetVarint32Ptr entry;
         let klen = unat key_length;
         if klen < 8 \<or> length key_ptr < klen then None
         else if Compare (mt_comparator m) (take (klen - 8) key_ptr) (lookup_user_key key) = 0
         then do {
           let tag = DecodeFixed64 (drop (klen - 8) key_ptr);
           if tag AND 0xff = value_type_num kTypeValue
           then do {
             (v, _) \<leftarrow> raw_GetLengthPrefixedSlice (drop klen key_ptr);
             Some (True, v, s)
           }
           else if tag AND 0xff = value_type_num kTypeDeletion
           then Some (True, value, NotFound [] [])
           else Some (False, value, s)
         }
         else Some (False, value, s)
       }
       else Some (False, value, s)
     }"

section \<open>The iterator\<close>

text \<open>The state of a \<open>MemTableIterator\<close> is the position of its skip-list iterator.\<close>

definition mem_Valid :: "nat option \<Rightarrow> bool" where
  "mem_Valid it = iter_Valid it"

definition mem_Seek :: "MemTable \<Rightarrow> bytes \<Rightarrow> nat option option" where
  "mem_Seek m k = iter_Seek (KeyComparator (mt_comparator m)) (mt_table m) (EncodeKey k)"

definition mem_SeekToFirst :: "MemTable \<Rightarrow> nat option option" where
  "mem_SeekToFirst m = iter_SeekToFirst (mt_table m)"

definition mem_SeekToLast :: "MemTable \<Rightarrow> nat option option" where
  "mem_SeekToLast m = iter_SeekToLast (mt_table m)"

definition mem_Next :: "MemTable \<Rightarrow> nat option \<Rightarrow> nat option option" where
  "mem_Next m it = iter_Next (mt_table m) it"

definition mem_Prev :: "MemTable \<Rightarrow> nat option \<Rightarrow> nat option option" where
  "mem_Prev m it = iter_Prev (KeyComparator (mt_comparator m)) (mt_table m) it"

definition mem_key :: "MemTable \<Rightarrow> nat option \<Rightarrow> bytes option" where
  "mem_key m it =
     do { e \<leftarrow> iter_key (mt_table m) it; (k, _) \<leftarrow> raw_GetLengthPrefixedSlice e; Some k }"

definition mem_value :: "MemTable \<Rightarrow> nat option \<Rightarrow> bytes option" where
  "mem_value m it =
     do {
       e \<leftarrow> iter_key (mt_table m) it;
       (_, rest) \<leftarrow> raw_GetLengthPrefixedSlice e;
       (v, _) \<leftarrow> raw_GetLengthPrefixedSlice rest;
       Some v
     }"

section \<open>Entries as values\<close>

type_synonym mem_entry = "bytes \<times> u64 \<times> ValueType \<times> bytes"

fun entry_key :: "mem_entry \<Rightarrow> bytes" where
  "entry_key (u, s, t, v) = InternalKey u s t"

fun entry_seq :: "mem_entry \<Rightarrow> u64" where
  "entry_seq (u, s, t, v) = s"

fun entry_value :: "mem_entry \<Rightarrow> bytes" where
  "entry_value (u, s, t, v) = v"

fun entry_ok :: "(bytes \<Rightarrow> bool) \<Rightarrow> mem_entry \<Rightarrow> bool" where
  "entry_ok D (u, s, t, v) \<longleftrightarrow> D u \<and> length u + 8 < 2 ^ 32 \<and> length v < 2 ^ 32 \<and> s \<le> kMaxSequenceNumber"

definition enc_entry :: "mem_entry \<Rightarrow> bytes" where
  "enc_entry e = EncodeKey (entry_key e) @ EncodeKey (entry_value e)"

definition memkey_ok :: "(bytes \<Rightarrow> bool) \<Rightarrow> bytes \<Rightarrow> bool" where
  "memkey_ok D e \<longleftrightarrow>
     (\<exists>k r. raw_GetLengthPrefixedSlice e = Some (k, r) \<and> 8 \<le> length k \<and> D (ExtractUserKey k))"

lemma raw_GetVarint32Ptr_Encode [roundtrip]:
  "raw_GetVarint32Ptr (EncodeVarint32 v @ rest) = Some (v, rest)"
proof -
  let ?e = "EncodeVarint32 v"
  have l: "length ?e \<le> 5" by (rule length_EncodeVarint32)
  then have "take 5 (?e @ rest) = ?e @ take (5 - length ?e) rest" by simp
  then have "GetVarint32Ptr (take 5 (?e @ rest)) = Some (v, take (5 - length ?e) rest)"
    using GetVarint32_Encode by (simp add: GetVarint32_def)
  moreover have "length (take 5 (?e @ rest)) - length (take (5 - length ?e) rest) = length ?e"
    using l by simp
  ultimately show ?thesis by (simp add: raw_GetVarint32Ptr_def)
qed

lemma EncodeKey_eq: "EncodeKey k = EncodeVarint32 (of_nat (length k)) @ k"
  by (simp add: EncodeKey_def PutVarint32_def)

lemma raw_slice_EncodeKey [roundtrip]:
  "length k < 2 ^ 32 \<Longrightarrow> raw_GetLengthPrefixedSlice (EncodeKey k @ rest) = Some (k, rest)"
  by (simp add: raw_GetLengthPrefixedSlice_def EncodeKey_eq raw_GetVarint32Ptr_Encode unat_of_nat_u32)

lemma raw_slice_EncodeKey_Nil [roundtrip]:
  "length k < 2 ^ 32 \<Longrightarrow> raw_GetLengthPrefixedSlice (EncodeKey k) = Some (k, [])"
  using raw_slice_EncodeKey [of k "[]"] by simp

lemma raw_slice_enc_entry:
  "entry_ok D e \<Longrightarrow> raw_GetLengthPrefixedSlice (enc_entry e) = Some (entry_key e, EncodeKey (entry_value e))"
  by (cases e) (simp add: enc_entry_def roundtrip)

lemma memtable_key_eq: "memtable_key (LookupKey u s) = EncodeKey (internal_key (LookupKey u s))"
  by (simp add: EncodeKey_eq)

lemma sl_abs_sorted:
  "sl_abs cmp D s ks \<Longrightarrow> sorted_wrt (\<lambda>a b. cmp a b < 0) ks \<and> (\<forall>k \<in> set ks. D k)"
  by (auto simp: sl_abs_def sl_inv_def sl_shape_def sorted_wrt_map)

text \<open>Two lists with the same elements, each listing the hits in decreasing order, have the same first hit.\<close>

lemma find_hits:
  assumes "sorted_wrt (\<lambda>a b. P a \<longrightarrow> P b \<longrightarrow> f b < (f a :: 'b :: linorder)) xs" "find P xs = Some x"
  shows "x \<in> set xs \<and> P x \<and> (\<forall>y \<in> set xs. P y \<longrightarrow> y = x \<or> f y < f x)"
  using assms by (induction xs) (auto split: if_splits)

lemma find_same_hits:
  assumes "set xs = set ys"
    and xs: "sorted_wrt (\<lambda>a b. P a \<longrightarrow> P b \<longrightarrow> f b < (f a :: 'b :: linorder)) xs"
    and ys: "sorted_wrt (\<lambda>a b. P a \<longrightarrow> P b \<longrightarrow> f b < f a) ys"
  shows "find P xs = find P ys"
proof (cases "find P xs")
  case None
  then have "find P ys = None" using assms(1) by (simp add: find_None_iff)
  with None show ?thesis by simp
next
  case (Some x)
  note x = find_hits [OF xs Some]
  then obtain y where y': "find P ys = Some y" using assms(1) by (metis find_None_iff not_None_eq)
  note y = find_hits [OF ys y']
  have "y = x" using x y assms(1) by (metis less_asym)
  with Some y' show ?thesis by simp
qed

section \<open>The table implements the sorted list of its entries\<close>

definition mt_abs :: "(bytes \<Rightarrow> bool) \<Rightarrow> MemTable \<Rightarrow> mem_entry list \<Rightarrow> bool" where
  "mt_abs D m es \<longleftrightarrow> (\<forall>e \<in> set es. entry_ok D e) \<and>
     sl_abs (KeyComparator (mt_comparator m)) (memkey_ok D) (mt_table m) (map enc_entry es)"

definition entry_cmp :: "Comparator \<Rightarrow> mem_entry \<Rightarrow> mem_entry \<Rightarrow> int" where
  "entry_cmp c e e' = Compare (InternalKeyComparator c) (entry_key e) (entry_key e')"

text \<open>An entry a read of \<open>u\<close> at the snapshot \<open>s\<close> may return.\<close>

fun visible :: "Comparator \<Rightarrow> bytes \<Rightarrow> u64 \<Rightarrow> mem_entry \<Rightarrow> bool" where
  "visible c u s (u', s', t, v) \<longleftrightarrow> Compare c u' u = 0 \<and> s' \<le> s"

fun read_result :: "bytes \<Rightarrow> Status \<Rightarrow> mem_entry option \<Rightarrow> bool \<times> bytes \<times> Status" where
  "read_result value st None = (False, value, st)"
| "read_result value st (Some (u, s, kTypeValue, v)) = (True, v, st)"
| "read_result value st (Some (u, s, kTypeDeletion, v)) = (True, value, NotFound [] [])"

lemma Add_entry:
  assumes "entry_ok D (u, s, t, v)"
  shows "Add s t u v m =
    do { table' \<leftarrow> Insert (KeyComparator (mt_comparator m)) (enc_entry (u, s, t, v)) (mt_table m);
         Some (m\<lparr>mt_table := table'\<rparr>) }"
proof -
  have len: "length (EncodeVarint32 (of_nat n)) = VarintLength (of_nat n)" if "n < 2 ^ 32" for n
  proof -
    have "(ucast (of_nat n :: u32) :: u64) = of_nat n"
      using that by (simp add: unsigned_of_nat take_bit_nat_eq_self)
    then have "EncodeVarint32 (of_nat n) = EncodeVarint64 (of_nat n)"
      using varint_bytes_ucast [of "of_nat n :: u32"] by (simp add: EncodeVarint32_loop EncodeVarint64_def)
    then show ?thesis by (simp add: VarintLength_def VarintLength_loop_eq EncodeVarint64_def)
  qed
  have "enc_entry (u, s, t, v) = EncodeVarint32 (of_nat (length u + 8)) @ u @
      EncodeFixed64 (push_bit 8 s OR value_type_num t) @ EncodeVarint32 (of_nat (length v)) @ v"
    by (simp add: enc_entry_def EncodeKey_eq InternalKey_def AppendInternalKey_eq PackSequenceAndType_def)
  moreover have "length (EncodeVarint32 (of_nat (length u + 8))) = VarintLength (of_nat (length u + 8))"
    "length (EncodeVarint32 (of_nat (length v))) = VarintLength (of_nat (length v))"
    using assms by (intro len; simp)+
  ultimately show ?thesis unfolding Add_def Let_def by simp
qed

lemma entry_decode:
  assumes "entry_ok D (u, s, t, v)"
  obtains kl kp where "raw_GetVarint32Ptr (enc_entry (u, s, t, v)) = Some (kl, kp)"
    and "unat kl = length u + 8" and "length u + 8 \<le> length kp" and "take (length u) kp = u"
    and "DecodeFixed64 (drop (length u) kp) = PackSequenceAndType s t"
    and "raw_GetLengthPrefixedSlice (drop (length u + 8) kp) = Some (v, [])"
proof
  let ?kp = "u @ EncodeFixed64 (PackSequenceAndType s t) @ EncodeKey v"
  have "enc_entry (u, s, t, v) = EncodeVarint32 (of_nat (length u + 8)) @ ?kp"
    by (simp add: enc_entry_def EncodeKey_eq [of "u @ EncodeFixed64 (PackSequenceAndType s t)"] InternalKey_def AppendInternalKey_eq)
  then show "raw_GetVarint32Ptr (enc_entry (u, s, t, v)) = Some (of_nat (length u + 8), ?kp)"
    by (simp only: raw_GetVarint32Ptr_Encode)
  show "unat (of_nat (length u + 8) :: u32) = length u + 8"
    by (rule unat_of_nat_u32) (use assms in simp)
  show "raw_GetLengthPrefixedSlice (drop (length u + 8) ?kp) = Some (v, [])"
    using assms by (simp add: roundtrip)
qed (simp_all add: roundtrip)

lemma entry_key_parts:
  "8 \<le> length (entry_key e)" "ExtractUserKey (entry_key e) = fst e"
  by (cases e, simp)+

context user_comparator
begin

lemma KeyComparator_enc:
  "entry_ok dom e \<Longrightarrow> entry_ok dom e' \<Longrightarrow> KeyComparator c (enc_entry e) (enc_entry e') = entry_cmp c e e'"
  by (simp add: KeyComparator_def raw_slice_enc_entry entry_cmp_def)

lemma KeyComparator_lookup:
  "entry_ok dom e \<Longrightarrow> length k < 2 ^ 32 \<Longrightarrow>
   KeyComparator c (enc_entry e) (EncodeKey k) = Compare (InternalKeyComparator c) (entry_key e) k"
  by (simp add: KeyComparator_def raw_slice_enc_entry roundtrip)

lemma memkey_ok_enc: "entry_ok dom e \<Longrightarrow> memkey_ok dom (enc_entry e)"
  by (cases e) (auto simp: memkey_ok_def raw_slice_enc_entry)

lemma memkey_ok_EncodeKey:
  "8 \<le> length k \<Longrightarrow> length k < 2 ^ 32 \<Longrightarrow> dom (ExtractUserKey k) \<Longrightarrow> memkey_ok dom (EncodeKey k)"
  by (auto simp: memkey_ok_def roundtrip)

end

sublocale user_comparator \<subseteq> memkey: key_order "KeyComparator c" "memkey_ok dom"
proof unfold_locales
  fix x y z
  assume "memkey_ok dom x"
  then obtain kx rx where x: "raw_GetLengthPrefixedSlice x = Some (kx, rx)" "8 \<le> length kx \<and> dom (ExtractUserKey kx)"
    by (auto simp: memkey_ok_def)
  show "KeyComparator c x x = 0" using x internal.compare_refl by (simp add: KeyComparator_def)
  assume "memkey_ok dom y"
  then obtain ky ry where y: "raw_GetLengthPrefixedSlice y = Some (ky, ry)" "8 \<le> length ky \<and> dom (ExtractUserKey ky)"
    by (auto simp: memkey_ok_def)
  show "KeyComparator c x y < 0 \<longleftrightarrow> 0 < KeyComparator c y x"
    using x y internal.compare_sign [of kx ky] by (simp add: KeyComparator_def)
  assume "memkey_ok dom z" and le: "KeyComparator c x y \<le> 0" "KeyComparator c y z \<le> 0"
  then obtain kz rz where z: "raw_GetLengthPrefixedSlice z = Some (kz, rz)" "8 \<le> length kz \<and> dom (ExtractUserKey kz)"
    by (auto simp: memkey_ok_def)
  show "KeyComparator c x z \<le> 0"
    using x y z le internal.compare_trans [of kx ky kz] by (simp add: KeyComparator_def)
qed

context user_comparator
begin

lemma mt_abs_sorted:
  assumes "mt_abs dom m es" "mt_comparator m = c"
  shows "sorted_wrt (\<lambda>a b. entry_cmp c a b < 0) es"
proof -
  have ok: "\<forall>e \<in> set es. entry_ok dom e" using assms by (simp add: mt_abs_def)
  have "sorted_wrt (\<lambda>a b. KeyComparator c (enc_entry a) (enc_entry b) < 0) es"
    using assms sl_abs_sorted by (fastforce simp: mt_abs_def sorted_wrt_map)
  then show ?thesis
    by (rule sorted_wrt_mono_rel [rotated]) (use ok KeyComparator_enc in auto)
qed

lemma takeWhile_enc:
  assumes "\<forall>e \<in> set es. entry_ok dom e \<and> (P (enc_entry e) \<longleftrightarrow> Q e)"
  shows "takeWhile P (map enc_entry es) = map enc_entry (takeWhile Q es)"
    "dropWhile P (map enc_entry es) = map enc_entry (dropWhile Q es)"
  using assms by (induction es) auto

lemma Add_abs:
  assumes abs: "mt_abs dom m es" and c: "mt_comparator m = c"
    and e: "entry_ok dom (u, s, t, v)" and fresh: "\<forall>e \<in> set es. entry_seq e \<noteq> s"
  shows "\<exists>m'. Add s t u v m = Some m' \<and> mt_comparator m' = c \<and>
    mt_abs dom m' (sorted_insert (entry_cmp c) (u, s, t, v) es)"
proof -
  let ?e = "(u, s, t, v)"
  have ok: "\<forall>e \<in> set es. entry_ok dom e" using abs by (simp add: mt_abs_def)
  have "entry_cmp c x ?e \<noteq> 0" if x: "x \<in> set es" for x
  proof -
    obtain u' s' t' v' where xe: "x = (u', s', t', v')" by (cases x)
    have "s' \<noteq> s" "s' \<le> kMaxSequenceNumber" "dom u'" using fresh ok x xe by auto
    then have "PackSequenceAndType s' t' \<noteq> PackSequenceAndType s t"
      using e by (metis Pack_seq entry_ok.simps)
    then show ?thesis
      by (auto simp: xe entry_cmp_def InternalKeyComparator_def InternalCompare_def Let_def)
  qed
  then have "\<forall>k \<in> set (map enc_entry es). KeyComparator c k (enc_entry ?e) \<noteq> 0"
    using ok e KeyComparator_enc by auto
  then obtain s' where s': "Insert (KeyComparator c) (enc_entry ?e) (mt_table m) = Some s'"
    "sl_abs (KeyComparator c) (memkey_ok dom) s' (sorted_insert (KeyComparator c) (enc_entry ?e) (map enc_entry es))"
    using memkey.Insert_abs [of "mt_table m" "map enc_entry es" "enc_entry ?e"] abs c memkey_ok_enc [OF e]
    by (auto simp: mt_abs_def)
  have "sorted_insert (KeyComparator c) (enc_entry ?e) (map enc_entry es) =
      map enc_entry (sorted_insert (entry_cmp c) ?e es)"
    using ok e takeWhile_enc [of es "\<lambda>k. KeyComparator c k (enc_entry ?e) < 0" "\<lambda>k. entry_cmp c k ?e < 0"]
    by (simp add: sorted_insert_def KeyComparator_enc del: entry_ok.simps)
  moreover have "\<forall>e \<in> set (sorted_insert (entry_cmp c) ?e es). entry_ok dom e"
    using ok e by (auto simp: sorted_insert_def dest: set_takeWhileD set_dropWhileD)
  ultimately show ?thesis using s' c by (simp add: Add_entry [OF e] mt_abs_def)
qed

end

context user_comparator
begin

lemma entry_before_lookup:
  assumes "entry_ok dom (u', s', t, v)" "dom u" "s \<le> kMaxSequenceNumber"
  shows "Compare (InternalKeyComparator c) (InternalKey u' s' t) (internal_key (LookupKey u s)) < 0 \<longleftrightarrow>
    Compare c u' u < 0 \<or> Compare c u' u = 0 \<and> s < s'"
proof -
  have "Compare (InternalKeyComparator c) (InternalKey u' s' t) (internal_key (LookupKey u s)) < 0 \<longleftrightarrow>
      \<not> Compare (InternalKeyComparator c) (internal_key (LookupKey u s)) (InternalKey u' s' t) \<le> 0"
    using assms internal.not_less [of "InternalKey u' s' t" "internal_key (LookupKey u s)"] by auto
  also have "\<dots> \<longleftrightarrow> \<not> (Compare c u u' < 0 \<or> Compare c u u' = 0 \<and> s' \<le> s)"
    using assms lookup_key_le [of u u' s s' t] by simp
  also have "\<dots> \<longleftrightarrow> Compare c u' u < 0 \<or> Compare c u' u = 0 \<and> s < s'"
    using assms compare_sign [of u' u] compare_sign [of u u'] compare_0_sym [of u u'] by auto
  finally show ?thesis .
qed

lemma entry_cmp_neg:
  assumes "entry_ok dom (u, s, t, v)" "entry_ok dom (u', s', t', v')"
  shows "entry_cmp c (u, s, t, v) (u', s', t', v') < 0 \<longleftrightarrow>
    Compare c u u' < 0 \<or> Compare c u u' = 0 \<and> (s' < s \<or> s' = s \<and> t' < t)"
  using assms InternalKey_less [of u u' s s' t t'] by (simp add: entry_cmp_def)

text \<open>The first entry that is not before a lookup key is the newest visible entry, if there is one.\<close>

lemma first_not_before:
  assumes "sorted_wrt (\<lambda>a b. entry_cmp c a b < 0) es" "\<forall>e \<in> set es. entry_ok dom e"
    and "dom u" "s \<le> kMaxSequenceNumber"
  shows "find (visible c u s) es =
    (case dropWhile (\<lambda>e. Compare (InternalKeyComparator c) (entry_key e) (internal_key (LookupKey u s)) < 0) es of
       [] \<Rightarrow> None
     | e # _ \<Rightarrow> if Compare c (fst e) u = 0 then Some e else None)"
  using assms(1,2)
proof (induction es)
  case (Cons e es)
  obtain u' s' t v where e: "e = (u', s', t, v)" by (cases e)
  have ok: "entry_ok dom (u', s', t, v)" using Cons.prems e by simp
  note bef = entry_before_lookup [OF ok assms(3,4)]
  show ?case
  proof (cases "Compare c u' u < 0 \<or> Compare c u' u = 0 \<and> s < s'")
    case True
    then have "\<not> visible c u s e" by (auto simp: e)
    then show ?thesis using Cons.IH Cons.prems True bef by (simp add: e del: visible.simps)
  next
    case False
    have "find (visible c u s) es = None" if ne: "Compare c u' u \<noteq> 0"
    proof -
      have gt: "Compare c u u' < 0"
        using ne False ok assms(3) compare_sign [of u u'] by force
      have "\<not> visible c u s x" if x: "x \<in> set es" for x
      proof -
        obtain u2 s2 t2 v2 where xe: "x = (u2, s2, t2, v2)" by (cases x)
        have okx: "entry_ok dom (u2, s2, t2, v2)" and "entry_cmp c e x < 0" using Cons.prems x xe by auto
        then have "Compare c u' u2 \<le> 0" using ok entry_cmp_neg [OF ok okx] by (auto simp: e xe)
        then have "Compare c u u2 < 0" using less_le_trans [OF _ _ _ gt] ok okx assms(3) by simp
        then show ?thesis using compare_0_sym [of u u2] okx assms(3) by (auto simp: xe)
      qed
      then show ?thesis by (simp add: find_None_iff del: visible.simps)
    qed
    then show ?thesis using False bef by (auto simp: e)
  qed
qed simp

lemma hd_option_case: "hd_option xs = (case xs of [] \<Rightarrow> None | x # _ \<Rightarrow> Some x)"
  by (simp add: hd_option_def)

lemma Get_abs:
  assumes abs: "mt_abs dom m es" and c: "mt_comparator m = c"
    and u: "dom u" "length u + 8 < 2 ^ 32" and s: "s \<le> kMaxSequenceNumber"
  shows "Get (LookupKey u s) value st m = Some (read_result value st (find (visible c u s) es))"
proof -
  let ?lk = "internal_key (LookupKey u s)" and ?m = "memtable_key (LookupKey u s)"
  let ?rest = "dropWhile (\<lambda>e. Compare (InternalKeyComparator c) (entry_key e) ?lk < 0) es"
  have ok: "\<forall>e \<in> set es. entry_ok dom e" using abs by (simp add: mt_abs_def)
  have m: "memkey_ok dom ?m" unfolding memtable_key_eq by (rule memkey_ok_EncodeKey) (use u in simp_all)
  have "\<forall>e \<in> set es. entry_ok dom e \<and>
      (KeyComparator c (enc_entry e) ?m < 0 \<longleftrightarrow> Compare (InternalKeyComparator c) (entry_key e) ?lk < 0)"
    using ok KeyComparator_lookup [of _ ?lk] u unfolding memtable_key_eq by simp
  note drop = takeWhile_enc(2) [OF this]
  obtain it where it: "iter_Seek (KeyComparator c) (mt_table m) ?m = Some it"
    "it = None \<longleftrightarrow> ?rest = []" "iter_key (mt_table m) it = hd_option (map enc_entry ?rest)"
    using memkey.Seek_abs [OF _ m, of "mt_table m" "map enc_entry es"] abs c unfolding mt_abs_def drop by auto
  note first = first_not_before [OF mt_abs_sorted [OF abs c] ok u(1) s]
  show ?thesis
  proof (cases ?rest)
    case Nil
    then have "it = None" using it(2) by blast
    moreover have "find (visible c u s) es = None" by (simp only: first Nil list.case)
    ultimately show ?thesis using it(1) c by (simp add: Get_def iter_Valid_def)
  next
    case (Cons e es')
    then have "e \<in> set es" by (metis list.set_intros(1) set_dropWhileD)
    then have e: "entry_ok dom e" using ok by blast
    then obtain i where i: "it = Some i" using it(2) Cons by (metis list.distinct(1) not_None_eq)
    obtain u' s' t v where eq: "e = (u', s', t, v)" by (cases e)
    have key: "iter_key (mt_table m) (Some i) = Some (enc_entry (u', s', t, v))"
      using it(3) Cons i by (simp add: hd_option_def eq)
    obtain kl kp where kp: "raw_GetVarint32Ptr (enc_entry (u', s', t, v)) = Some (kl, kp)"
      "unat kl = length u' + 8" "length u' + 8 \<le> length kp" "take (length u') kp = u'"
      "DecodeFixed64 (drop (length u') kp) = PackSequenceAndType s' t"
      "raw_GetLengthPrefixedSlice (drop (length u' + 8) kp) = Some (v, [])"
      using e unfolding eq by (rule entry_decode)
    have "find (visible c u s) es = (if Compare c u' u = 0 then Some e else None)"
      by (simp only: first Cons list.case eq fst_conv)
    then show ?thesis
      using it(1) key c kp by (cases t) (simp_all add: i Get_def iter_Valid_def Pack_type eq Let_def)
  qed
qed

end

section \<open>Histories of insertions\<close>

text \<open>\<open>Add\<close> of each entry in turn, and the entries read back through the iterator.\<close>

fun Add_all :: "mem_entry list \<Rightarrow> MemTable \<Rightarrow> MemTable option" where
  "Add_all [] m = Some m"
| "Add_all ((u, s, t, v) # es) m = do { m' \<leftarrow> Add s t u v m; Add_all es m' }"

partial_function (option) mem_collect :: "MemTable \<Rightarrow> nat option \<Rightarrow> (bytes \<times> bytes) list option" where
  "mem_collect m it =
     (if mem_Valid it then
        do { k \<leftarrow> mem_key m it; v \<leftarrow> mem_value m it; it' \<leftarrow> mem_Next m it;
             rest \<leftarrow> mem_collect m it'; Some ((k, v) # rest) }
      else Some [])"

definition mem_contents :: "MemTable \<Rightarrow> (bytes \<times> bytes) list option" where
  "mem_contents m = do { it \<leftarrow> mem_SeekToFirst m; mem_collect m it }"

text \<open>Sequence numbers increase strictly along a history.\<close>

definition increasing :: "mem_entry list \<Rightarrow> bool" where
  "increasing es \<longleftrightarrow> sorted_wrt (\<lambda>a b. entry_seq a < entry_seq b) es"

lemma set_sorted_insert [simp]: "set (sorted_insert cmp k ks) = insert k (set ks)"
proof -
  have "set ks = set (takeWhile (\<lambda>x. cmp x k < 0) ks) \<union> set (dropWhile (\<lambda>x. cmp x k < 0) ks)"
    by (metis set_append takeWhile_dropWhile_id)
  then show ?thesis by (auto simp: sorted_insert_def)
qed

lemma increasing_unique:
  "increasing ops \<Longrightarrow> a \<in> set ops \<Longrightarrow> b \<in> set ops \<Longrightarrow> entry_seq a = entry_seq b \<Longrightarrow> a = b"
  by (induction ops) (auto simp: increasing_def)

lemma mt_abs_new: "mt_abs D (new_MemTable c) []"
  using sl_abs_new by (auto simp: mt_abs_def new_MemTable_def)

lemma mem_collect_iter:
  assumes "iter_collect (mt_table m) it = Some (map enc_entry es)" "\<forall>e \<in> set es. entry_ok D e"
  shows "mem_collect m it = Some (map (\<lambda>e. (entry_key e, entry_value e)) es)"
  using assms
proof (induction es arbitrary: it)
  case Nil
  then have "\<not> iter_Valid it"
    by (subst (asm) iter_collect.simps) (auto split: if_splits bind_splits)
  then show ?case by (subst mem_collect.simps) (simp add: mem_Valid_def)
next
  case (Cons e es)
  then obtain it' where it: "iter_Valid it" "iter_key (mt_table m) it = Some (enc_entry e)"
    "iter_Next (mt_table m) it = Some it'" "iter_collect (mt_table m) it' = Some (map enc_entry es)"
    by (subst (asm) (2) iter_collect.simps) (auto split: if_splits bind_splits)
  have e: "raw_GetLengthPrefixedSlice (enc_entry e) = Some (entry_key e, EncodeKey (entry_value e))"
    "raw_GetLengthPrefixedSlice (EncodeKey (entry_value e)) = Some (entry_value e, [])"
    using Cons.prems raw_slice_enc_entry by (cases e; fastforce simp: roundtrip)+
  show ?case
    using it e Cons.IH [OF it(4)] Cons.prems
    by (subst mem_collect.simps) (simp add: mem_Valid_def mem_key_def mem_value_def mem_Next_def)
qed

lemma mem_contents_abs: "mt_abs D m es \<Longrightarrow> mem_contents m = Some (map (\<lambda>e. (entry_key e, entry_value e)) es)"
  using iter_all_abs [of "KeyComparator (mt_comparator m)" "memkey_ok D" "mt_table m" "map enc_entry es"]
    mem_collect_iter [of m _ es D]
  by (auto simp: mt_abs_def mem_contents_def mem_SeekToFirst_def iter_all_def split: bind_splits)

context user_comparator
begin

lemma Add_all_abs:
  assumes "mt_abs dom m es" "mt_comparator m = c" "\<forall>e \<in> set ops. entry_ok dom e" "increasing ops"
    and "\<forall>e \<in> set es. \<forall>b \<in> set ops. entry_seq e < entry_seq b"
  shows "\<exists>m' es'. Add_all ops m = Some m' \<and> mt_comparator m' = c \<and> mt_abs dom m' es' \<and> set es' = set es \<union> set ops"
  using assms
proof (induction ops arbitrary: m es)
  case (Cons a ops)
  obtain u s t v where a: "a = (u, s, t, v)" by (cases a)
  have ok: "entry_ok dom (u, s, t, v)" "\<forall>e \<in> set es. entry_seq e \<noteq> s"
    using Cons.prems a by force+
  obtain m1 where m1: "Add s t u v m = Some m1" "mt_comparator m1 = c"
    "mt_abs dom m1 (sorted_insert (entry_cmp c) (u, s, t, v) es)"
    using Add_abs [OF Cons.prems(1,2) ok] by blast
  have "\<forall>e \<in> set (sorted_insert (entry_cmp c) (u, s, t, v) es). \<forall>b \<in> set ops. entry_seq e < entry_seq b"
    using Cons.prems(4,5) a by (auto simp: increasing_def)
  moreover have "\<forall>e \<in> set ops. entry_ok dom e" "increasing ops"
    using Cons.prems(3,4) by (auto simp: increasing_def)
  ultimately obtain m2 es2 where "Add_all ops m1 = Some m2" "mt_comparator m2 = c" "mt_abs dom m2 es2"
    "set es2 = set (sorted_insert (entry_cmp c) (u, s, t, v) es) \<union> set ops"
    using Cons.IH [OF m1(3,2)] by blast
  then show ?case using m1(1) a by auto
qed auto

lemma newest_of_history:
  assumes "mt_abs dom m es" "mt_comparator m = c" "set es = set ops" "increasing ops"
    "\<forall>e \<in> set ops. entry_ok dom e" "dom u"
  shows "find (visible c u s) es = find (visible c u s) (rev ops)"
proof (rule find_same_hits [where f = entry_seq])
  show "sorted_wrt (\<lambda>a b. visible c u s a \<longrightarrow> visible c u s b \<longrightarrow> entry_seq b < entry_seq a) (rev ops)"
    using assms(4) by (auto simp: sorted_wrt_rev increasing_def elim: sorted_wrt_mono_rel [rotated])
  have uniq: "a = b" if "a \<in> set ops" "b \<in> set ops" "entry_seq a = entry_seq b" for a b
    using increasing_unique [OF assms(4)] that by blast
  show "sorted_wrt (\<lambda>a b. visible c u s a \<longrightarrow> visible c u s b \<longrightarrow> entry_seq b < entry_seq a) es"
  proof (rule sorted_wrt_mono_rel [OF _ mt_abs_sorted [OF assms(1,2)]], intro impI)
    fix a b
    assume ab: "a \<in> set es" "b \<in> set es" "entry_cmp c a b < 0" "visible c u s a" "visible c u s b"
    obtain ua sa ta va where a: "a = (ua, sa, ta, va)" by (cases a)
    obtain ub sb tb vb where b: "b = (ub, sb, tb, vb)" by (cases b)
    have ok: "entry_ok dom a" "entry_ok dom b" using ab assms(3,5) by auto
    have "Compare c ua ub = 0" using ab ok assms(6) compare_trans [of ua u ub] compare_trans [of ub u ua]
        compare_0_sym compare_sign [of ua ub] by (auto simp: a b)
    then have "sb \<le> sa" using ab(3) entry_cmp_neg ok by (auto simp: a b)
    moreover have "sb \<noteq> sa" using uniq [of a b] ab assms(3) internal.less_irrefl [of "entry_key a"] ok
      by (auto simp: a b entry_cmp_def)
    ultimately show "entry_seq b < entry_seq a" by (simp add: a b)
  qed
qed (use assms in simp)

end

section \<open>Properties\<close>

text \<open>
  C2. A lookup in a table filled by insertions with increasing sequence numbers never fails,
  and returns the newest entry of the key that its snapshot may see: the value of an
  insertion, a not-found status for a deletion, and false when there is none.
\<close>

theorem memtable_get_newest:
  assumes "user_comparator c D" "increasing ops" "\<forall>e \<in> set ops. entry_ok D e"
    and "D u" "length u + 8 < 2 ^ 32" "s \<le> kMaxSequenceNumber"
  shows "\<exists>m. Add_all ops (new_MemTable c) = Some m \<and>
    Get (LookupKey u s) value st m = Some (read_result value st (find (visible c u s) (rev ops)))"
proof -
  obtain m es where m: "Add_all ops (new_MemTable c) = Some m" "mt_comparator m = c" "mt_abs D m es" "set es = set ops"
    using user_comparator.Add_all_abs [OF assms(1) mt_abs_new _ assms(3,2)] by (auto simp: new_MemTable_def)
  then show ?thesis
    using user_comparator.Get_abs [OF assms(1) m(3,2) assms(4-6)]
      user_comparator.newest_of_history [OF assms(1) m(3,2,4) assms(2,3,4)] by auto
qed

theorem memtable_get_newest_witness:
  "\<exists>m. Add_all [([0x61], 1, kTypeValue, [7]), ([0x61], 2, kTypeDeletion, []), ([0x62], 3, kTypeValue, [8])]
       (new_MemTable BytewiseComparator) = Some m \<and>
     Get (LookupKey [0x61] 1) [] OK m = Some (True, [7], OK)"
proof -
  let ?ops = "[([0x61], 1, kTypeValue, [7]), ([0x61], 2, kTypeDeletion, []), ([0x62], 3, kTypeValue, [8])]"
  have "increasing ?ops" "\<forall>e \<in> set ?ops. entry_ok (\<lambda>_. True) e"
    by (simp_all add: increasing_def kMaxSequenceNumber_def)
  from memtable_get_newest [OF bytewise_db.user_comparator_axioms this, of "[0x61]" 1 "[]" OK]
  show ?thesis by (simp add: kMaxSequenceNumber_def BytewiseComparator_def word_le_nat_alt)
qed

text \<open>
  C19. Iterating over such a table yields every inserted entry exactly once, in the order of the
  internal comparator, with its internal key and its value.
\<close>

theorem memtable_iterates_sorted:
  assumes "user_comparator c D" "increasing ops" "\<forall>e \<in> set ops. entry_ok D e"
  shows "\<exists>m es. Add_all ops (new_MemTable c) = Some m \<and>
    mem_contents m = Some (map (\<lambda>e. (entry_key e, entry_value e)) es) \<and>
    set es = set ops \<and> sorted_wrt (\<lambda>a b. entry_cmp c a b < 0) es"
proof -
  obtain m es where m: "Add_all ops (new_MemTable c) = Some m" "mt_comparator m = c" "mt_abs D m es" "set es = set ops"
    using user_comparator.Add_all_abs [OF assms(1) mt_abs_new _ assms(3,2)] by (auto simp: new_MemTable_def)
  then show ?thesis using mem_contents_abs user_comparator.mt_abs_sorted [OF assms(1) m(3,2)] by blast
qed

theorem memtable_iterates_sorted_witness:
  "\<exists>m es. Add_all [([0x62], 1, kTypeValue, [7]), ([0x61], 2, kTypeValue, [8])]
       (new_MemTable BytewiseComparator) = Some m \<and>
     mem_contents m = Some (map (\<lambda>e. (entry_key e, entry_value e)) es) \<and>
     set es = {([0x62], 1, kTypeValue, [7]), ([0x61], 2, kTypeValue, [8])}"
  using memtable_iterates_sorted [OF bytewise_db.user_comparator_axioms,
      of "[([0x62], 1, kTypeValue, [7]), ([0x61], 2, kTypeValue, [8])]"]
  by (fastforce simp: increasing_def kMaxSequenceNumber_def)

end
