(* ===== verification/WriteBatch.thy ===== *)
theory WriteBatch
  imports MemTable
begin

text \<open>
  \<open>include/leveldb/write_batch.h\<close>, \<open>db/write_batch_internal.h\<close> and \<open>db/write_batch.cc\<close>:
  batches of updates as the byte string \<open>rep_\<close>, their iteration with a handler, and the
  handler that inserts them into a memtable. A batch is shown to hold the list of updates put
  into it, damaged batches are shown to be refused, and inserting a batch is shown to make
  its updates visible to reads.
\<close>

section \<open>The representation\<close>

text \<open>An eight-byte sequence number, a four-byte count, then the records.\<close>

definition wb_kHeader :: nat where
  "wb_kHeader = 12"

definition Clear :: bytes where
  "Clear = replicate wb_kHeader 0"

definition new_WriteBatch :: bytes where
  "new_WriteBatch = Clear"

definition ApproximateSize :: "bytes \<Rightarrow> nat" where
  "ApproximateSize rep = length rep"

definition Count :: "bytes \<Rightarrow> int" where
  "Count rep = sint (DecodeFixed32 (drop 8 rep))"

definition SetCount :: "bytes \<Rightarrow> int \<Rightarrow> bytes" where
  "SetCount rep n = take 8 rep @ EncodeFixed32 (word_of_int n) @ drop 12 rep"

definition Sequence :: "bytes \<Rightarrow> u64" where
  "Sequence rep = DecodeFixed64 rep"

definition SetSequence :: "bytes \<Rightarrow> u64 \<Rightarrow> bytes" where
  "SetSequence rep seq = EncodeFixed64 seq @ drop 8 rep"

definition Put :: "bytes \<Rightarrow> bytes \<Rightarrow> bytes \<Rightarrow> bytes" where
  "Put key value rep =
     (let rep = SetCount rep (Count rep + 1);
          rep = rep @ [1];
          rep = PutLengthPrefixedSlice rep key
      in PutLengthPrefixedSlice rep value)"

definition Delete :: "bytes \<Rightarrow> bytes \<Rightarrow> bytes" where
  "Delete key rep =
     (let rep = SetCount rep (Count rep + 1);
          rep = rep @ [0]
      in PutLengthPrefixedSlice rep key)"

definition wb_Append :: "bytes \<Rightarrow> bytes \<Rightarrow> bytes option" where
  "wb_Append dst src =
     (let dst = SetCount dst (Count dst + Count src)
      in if wb_kHeader \<le> length src then Some (dst @ drop wb_kHeader src) else None)"

definition SetContents :: "bytes \<Rightarrow> bytes option" where
  "SetContents contents = (if wb_kHeader \<le> length contents then Some contents else None)"

section \<open>Iteration\<close>

text \<open>
  A handler is a pair of methods on its own state; \<open>None\<close> is undefined behaviour in the
  method.
\<close>

record 'h Handler =
  handler_Put :: "bytes \<Rightarrow> bytes \<Rightarrow> 'h \<Rightarrow> 'h option"
  handler_Delete :: "bytes \<Rightarrow> 'h \<Rightarrow> 'h option"

lemma GetLengthPrefixedSlice_shorter:
  assumes "GetLengthPrefixedSlice input = (Some v, rest)"
  shows "length rest < length input"
proof -
  obtain len i where i: "GetVarint32 input = Some (len, i)" "rest = drop (unat len) i"
    using assms by (auto simp: GetLengthPrefixedSlice_def split: option.splits if_splits prod.splits)
  then obtain n where "1 \<le> n" "n \<le> length input" "i = drop n input" using GetVarint32_consumes by blast
  with i show ?thesis by simp
qed

text \<open>The loop: an error status, or the number of records found.\<close>

function Iterate_loop :: "'h Handler \<Rightarrow> bytes \<Rightarrow> int \<Rightarrow> 'h \<Rightarrow> ((Status + int) \<times> 'h) option" where
  "Iterate_loop H [] found h = Some (Inr found, h)"
| "Iterate_loop H (tag # input) found h =
     (let found = found + 1 in
      if tag = 1 then
        (case GetLengthPrefixedSlice input of
           (None, _) \<Rightarrow> Some (Inl (Corruption (str ''bad WriteBatch Put'') []), h)
         | (Some key, input1) \<Rightarrow>
             (case GetLengthPrefixedSlice input1 of
                (None, _) \<Rightarrow> Some (Inl (Corruption (str ''bad WriteBatch Put'') []), h)
              | (Some value, input2) \<Rightarrow>
                  do { h' \<leftarrow> handler_Put H key value h; Iterate_loop H input2 found h' }))
      else if tag = 0 then
        (case GetLengthPrefixedSlice input of
           (None, _) \<Rightarrow> Some (Inl (Corruption (str ''bad WriteBatch Delete'') []), h)
         | (Some key, input1) \<Rightarrow>
             do { h' \<leftarrow> handler_Delete H key h; Iterate_loop H input1 found h' })
      else Some (Inl (Corruption (str ''unknown WriteBatch tag'') []), h))"
  by pat_completeness auto
termination
  by (relation "measure (\<lambda>(H, input, found, h). length input)")
    (auto dest!: GetLengthPrefixedSlice_shorter [OF sym])

definition Iterate :: "'h Handler \<Rightarrow> bytes \<Rightarrow> 'h \<Rightarrow> (Status \<times> 'h) option" where
  "Iterate H rep h =
     (if length rep < wb_kHeader
      then Some (Corruption (str ''malformed WriteBatch (too small)'') [], h)
      else do {
        (r, h') \<leftarrow> Iterate_loop H (drop wb_kHeader rep) 0 h;
        case r of
          Inl st \<Rightarrow> Some (st, h')
        | Inr found \<Rightarrow>
            if found \<noteq> Count rep
            then Some (Corruption (str ''WriteBatch has wrong count'') [], h')
            else Some (OK, h')
      })"

section \<open>Insertion into a memtable\<close>

text \<open>The state of the inserter: \<open>sequence_\<close> and the memtable.\<close>

definition inserter_Put :: "bytes \<Rightarrow> bytes \<Rightarrow> u64 \<times> MemTable \<Rightarrow> (u64 \<times> MemTable) option" where
  "inserter_Put key value = (\<lambda>(sequence, mem).
     do { mem' \<leftarrow> Add sequence kTypeValue key value mem; Some (sequence + 1, mem') })"

definition inserter_Delete :: "bytes \<Rightarrow> u64 \<times> MemTable \<Rightarrow> (u64 \<times> MemTable) option" where
  "inserter_Delete key = (\<lambda>(sequence, mem).
     do { mem' \<leftarrow> Add sequence kTypeDeletion key [] mem; Some (sequence + 1, mem') })"

definition MemTableInserter :: "(u64 \<times> MemTable) Handler" where
  "MemTableInserter = \<lparr>handler_Put = inserter_Put, handler_Delete = inserter_Delete\<rparr>"

definition InsertInto :: "bytes \<Rightarrow> MemTable \<Rightarrow> (Status \<times> MemTable) option" where
  "InsertInto rep memtable =
     do { (s, _, mem) \<leftarrow> Iterate MemTableInserter rep (Sequence rep, memtable); Some (s, mem) }"

section \<open>Batches as lists of updates\<close>

datatype BatchOp = PutOp bytes bytes | DeleteOp bytes

fun enc_op :: "BatchOp \<Rightarrow> bytes" where
  "enc_op (PutOp k v) = 1 # PutLengthPrefixedSlice [] k @ PutLengthPrefixedSlice [] v"
| "enc_op (DeleteOp k) = 0 # PutLengthPrefixedSlice [] k"

fun op_ok :: "BatchOp \<Rightarrow> bool" where
  "op_ok (PutOp k v) \<longleftrightarrow> length k < 2 ^ 32 \<and> length v < 2 ^ 32"
| "op_ok (DeleteOp k) \<longleftrightarrow> length k < 2 ^ 32"

fun run_op :: "'h Handler \<Rightarrow> BatchOp \<Rightarrow> 'h \<Rightarrow> 'h option" where
  "run_op H (PutOp k v) h = handler_Put H k v h"
| "run_op H (DeleteOp k) h = handler_Delete H k h"

fun run_ops :: "'h Handler \<Rightarrow> BatchOp list \<Rightarrow> 'h \<Rightarrow> 'h option" where
  "run_ops H [] h = Some h"
| "run_ops H (x # xs) h = do { h' \<leftarrow> run_op H x h; run_ops H xs h' }"

definition batch_abs :: "bytes \<Rightarrow> u64 \<Rightarrow> BatchOp list \<Rightarrow> bool" where
  "batch_abs rep seq ops \<longleftrightarrow>
     rep = EncodeFixed64 seq @ EncodeFixed32 (of_nat (length ops)) @ concat (map enc_op ops) \<and>
     (\<forall>x \<in> set ops. op_ok x)"

fun update_batch :: "BatchOp \<Rightarrow> bytes \<Rightarrow> bytes" where
  "update_batch (PutOp k v) rep = Put k v rep"
| "update_batch (DeleteOp k) rep = Delete k rep"

text \<open>A handler that records what it is called with.\<close>

definition collector :: "BatchOp list Handler" where
  "collector = \<lparr>handler_Put = (\<lambda>k v ops. Some (ops @ [PutOp k v])), handler_Delete = (\<lambda>k ops. Some (ops @ [DeleteOp k]))\<rparr>"

lemma run_ops_append: "run_ops H (xs @ ys) h = do { h' \<leftarrow> run_ops H xs h; run_ops H ys h' }"
  by (induction xs arbitrary: h) (auto split: bind_split)

lemma run_collector: "run_ops collector xs ops = Some (ops @ xs)"
proof (induction xs arbitrary: ops)
  case (Cons x xs)
  then show ?case by (cases x) (simp_all add: collector_def)
qed simp

lemma Iterate_loop_op:
  "op_ok x \<Longrightarrow> Iterate_loop H (enc_op x @ rest) found h =
    do { h' \<leftarrow> run_op H x h; Iterate_loop H rest (found + 1) h' }"
  by (cases x) (simp_all add: roundtrip)

lemma Iterate_loop_ops:
  "\<forall>x \<in> set ops. op_ok x \<Longrightarrow> Iterate_loop H (concat (map enc_op ops) @ rest) found h =
    do { h' \<leftarrow> run_ops H ops h; Iterate_loop H rest (found + int (length ops)) h' }"
proof (induction ops arbitrary: found h)
  case (Cons x ops)
  then show ?case by (simp add: Iterate_loop_op Option.bind_assoc ac_simps)
qed simp

lemma Count_header:
  "n < 2 ^ 31 \<Longrightarrow> Count (EncodeFixed64 seq @ EncodeFixed32 (of_nat n) @ rest) = int n"
  by (simp add: Count_def roundtrip signed_of_nat signed_take_bit_int_eq_self)

lemma Iterate_abs:
  assumes "batch_abs rep seq ops" "length ops < 2 ^ 31"
  shows "Iterate H rep h = do { h' \<leftarrow> run_ops H ops h; Some (OK, h') }"
proof -
  have rep: "rep = EncodeFixed64 seq @ EncodeFixed32 (of_nat (length ops)) @ concat (map enc_op ops)"
    and ok: "\<forall>x \<in> set ops. op_ok x" using assms by (auto simp: batch_abs_def)
  have "Count rep = int (length ops)" using Count_header [OF assms(2)] by (simp add: rep)
  moreover have "drop wb_kHeader rep = concat (map enc_op ops)" "wb_kHeader \<le> length rep"
    by (simp_all add: rep wb_kHeader_def)
  ultimately show ?thesis
    using Iterate_loop_ops [OF ok, of H "[]" 0 h] by (simp add: Iterate_def Option.bind_assoc)
qed

lemma SetCount_abs:
  "SetCount (EncodeFixed64 seq @ EncodeFixed32 m @ rest) n = EncodeFixed64 seq @ EncodeFixed32 (word_of_int n) @ rest"
  by (simp add: SetCount_def)

lemma update_batch_abs:
  assumes "batch_abs rep seq ops" "op_ok x" "length ops < 2 ^ 31"
  shows "batch_abs (update_batch x rep) seq (ops @ [x])"
proof -
  have rep: "rep = EncodeFixed64 seq @ EncodeFixed32 (of_nat (length ops)) @ concat (map enc_op ops)"
    using assms by (auto simp: batch_abs_def)
  have "SetCount rep (Count rep + 1) =
      EncodeFixed64 seq @ EncodeFixed32 (of_nat (length (ops @ [x]))) @ concat (map enc_op ops)"
    using Count_header [OF assms(3), of seq] by (simp add: rep SetCount_abs add.commute)
  moreover have "update_batch x rep = SetCount rep (Count rep + 1) @ enc_op x"
    by (cases x) (simp_all add: Put_def Delete_def Let_def PutLengthPrefixedSlice_def PutVarint32_def)
  ultimately show ?thesis using assms by (simp add: batch_abs_def)
qed

lemma Append_abs:
  assumes "batch_abs dst seq ops" "batch_abs src seq' ops'" "length ops + length ops' < 2 ^ 31"
  shows "\<exists>rep. wb_Append dst src = Some rep \<and> batch_abs rep seq (ops @ ops')"
proof -
  have c: "Count dst = int (length ops)" "Count src = int (length ops')"
    using Count_header [of "length ops" seq] Count_header [of "length ops'" seq'] assms
    by (auto simp: batch_abs_def)
  show ?thesis
    using assms c by (simp add: batch_abs_def wb_Append_def wb_kHeader_def SetCount_abs Let_def ball_Un)
qed

lemma Clear_abs: "batch_abs Clear 0 []"
  by (simp add: batch_abs_def Clear_def wb_kHeader_def EncodeFixed64_def EncodeFixed32_def eval_nat_numeral)

lemma SetSequence_abs: "batch_abs rep seq ops \<Longrightarrow> batch_abs (SetSequence rep seq') seq' ops"
  by (auto simp: batch_abs_def SetSequence_def)

lemma Sequence_abs: "batch_abs rep seq ops \<Longrightarrow> Sequence rep = seq"
  by (auto simp: batch_abs_def Sequence_def roundtrip)

section \<open>A batch of updates in a memtable\<close>

fun op_entry :: "u64 \<Rightarrow> BatchOp \<Rightarrow> mem_entry" where
  "op_entry s (PutOp k v) = (k, s, kTypeValue, v)"
| "op_entry s (DeleteOp k) = (k, s, kTypeDeletion, [])"

text \<open>The entries of a batch: consecutive sequence numbers from that of the batch.\<close>

fun op_entries :: "u64 \<Rightarrow> BatchOp list \<Rightarrow> mem_entry list" where
  "op_entries s [] = []"
| "op_entries s (x # xs) = op_entry s x # op_entries (s + 1) xs"

lemma run_inserter:
  "run_ops MemTableInserter ops (s, m) =
    do { m' \<leftarrow> Add_all (op_entries s ops) m; Some (s + of_nat (length ops), m') }"
proof (induction ops arbitrary: s m)
  case (Cons x ops)
  then show ?case
    by (cases x) (auto simp: MemTableInserter_def inserter_Put_def inserter_Delete_def ac_simps split: bind_split)
qed simp

lemma InsertInto_abs:
  assumes "batch_abs rep seq ops" "length ops < 2 ^ 31"
  shows "InsertInto rep m = do { m' \<leftarrow> Add_all (op_entries seq ops) m; Some (OK, m') }"
  unfolding InsertInto_def Iterate_abs [OF assms] Sequence_abs [OF assms(1)] run_inserter
  by (auto split: bind_split)

lemma Add_all_append: "Add_all (xs @ ys) m = do { m' \<leftarrow> Add_all xs m; Add_all ys m' }"
proof (induction xs arbitrary: m)
  case (Cons x xs)
  then show ?case by (cases x) (auto split: bind_split)
qed simp

lemma op_entries_seqs:
  assumes "unat s + length ops \<le> 2 ^ 56"
  shows "increasing (op_entries s ops) \<and>
    (\<forall>e \<in> set (op_entries s ops). s \<le> entry_seq e \<and> entry_seq e \<le> kMaxSequenceNumber)"
  using assms
proof (induction ops arbitrary: s)
  case (Cons x ops)
  then have s: "unat (s + 1) = Suc (unat s)" by (simp add: unat_word_ariths)
  have e: "entry_seq (op_entry s x) = s" by (cases x) simp_all
  have "s < s + 1" "s \<le> kMaxSequenceNumber"
    using s Cons.prems by (simp_all add: word_less_nat_alt word_le_nat_alt kMaxSequenceNumber_def)
  moreover have "increasing (op_entries (s + 1) ops)"
    "\<forall>e \<in> set (op_entries (s + 1) ops). s + 1 \<le> entry_seq e \<and> entry_seq e \<le> kMaxSequenceNumber"
    using Cons.IH [of "s + 1"] Cons.prems s by simp_all
  moreover have "\<forall>e \<in> set (op_entries (s + 1) ops). s < entry_seq e"
    using calculation by (meson order.strict_trans2)
  ultimately show ?case by (simp add: e increasing_def order.strict_implies_order)
qed (simp add: increasing_def)

fun op_fits :: "(bytes \<Rightarrow> bool) \<Rightarrow> BatchOp \<Rightarrow> bool" where
  "op_fits D (PutOp k v) \<longleftrightarrow> D k \<and> length k + 8 < 2 ^ 32 \<and> length v < 2 ^ 32"
| "op_fits D (DeleteOp k) \<longleftrightarrow> D k \<and> length k + 8 < 2 ^ 32"

lemma op_fits_ok: "op_fits D x \<Longrightarrow> op_ok x"
  by (cases x) simp_all

lemma op_entries_ok:
  assumes "unat s + length ops \<le> 2 ^ 56" "\<forall>x \<in> set ops. op_fits D x"
  shows "\<forall>e \<in> set (op_entries s ops). entry_ok D e"
  using assms
proof (induction ops arbitrary: s)
  case (Cons x ops)
  then have "unat (s + 1) = Suc (unat s)" by (simp add: unat_word_ariths)
  with Cons.IH [of "s + 1"] Cons.prems have "\<forall>e \<in> set (op_entries (s + 1) ops). entry_ok D e" by simp
  moreover have "entry_ok D (op_entry s x)"
    using Cons.prems by (cases x) (simp_all add: word_le_nat_alt kMaxSequenceNumber_def)
  ultimately show ?case by simp
qed simp

lemma increasing_append:
  "increasing (xs @ ys) \<longleftrightarrow> increasing xs \<and> increasing ys \<and> (\<forall>x \<in> set xs. \<forall>y \<in> set ys. entry_seq x < entry_seq y)"
  by (simp add: increasing_def sorted_wrt_append)

lemma build_abs:
  assumes "\<forall>x \<in> set ops. op_ok x" "batch_abs rep seq ops0" "length ops0 + length ops \<le> 2 ^ 31"
  shows "batch_abs (fold update_batch ops rep) seq (ops0 @ ops)"
  using assms
proof (induction ops arbitrary: rep ops0)
  case (Cons x ops)
  then have "batch_abs (update_batch x rep) seq (ops0 @ [x])" by (intro update_batch_abs) simp_all
  with Cons show ?case by fastforce
qed simp

section \<open>Truncated batches\<close>

lemma varint_loop_prefix:
  fixes v :: "'a::len word"
  assumes "8 \<le> LENGTH('a)"
  shows "n < length (varint_bytes v) \<Longrightarrow> varint_loop bound shift (result :: 'a word) (take n (varint_bytes v)) = None"
proof (induction v arbitrary: n shift result rule: varint_bytes.induct)
  case (1 v)
  show ?case
  proof (cases "128 \<le> unat v \<and> n \<noteq> 0")
    case True
    then obtain n' where n: "n = Suc n'" by (cases n) auto
    have vb: "varint_bytes v = ucast (v OR 128) # varint_bytes (drop_bit 7 v)"
      using True by (simp add: varint_bytes.simps [of v])
    have "n' < length (varint_bytes (drop_bit 7 v))" using 1(2) n vb by simp
    moreover have "(ucast (ucast (v OR 128) :: byte) :: 'a word) AND 128 \<noteq> 0"
      using assms by (simp add: test_bit_128 bit_ucast_iff bit_or_iff)
    ultimately show ?thesis using 1(1) True by (simp add: n vb Let_def)
  next
    case False
    then have "n = 0" using 1(2) by (auto simp: varint_bytes.simps [of v] split: if_splits)
    then show ?thesis by simp
  qed
qed

lemma GetVarint32_prefix: "n < length (EncodeVarint32 v) \<Longrightarrow> GetVarint32 (take n (EncodeVarint32 v)) = None"
  using varint_loop_prefix [of n v 28 0 0]
  by (simp add: GetVarint32_def GetVarint32Ptr_fallback GetVarint32PtrFallback_def EncodeVarint32_loop)

lemma GetLengthPrefixedSlice_prefix:
  assumes "n < length (PutLengthPrefixedSlice [] k)" "length k < 2 ^ 32"
  shows "fst (GetLengthPrefixedSlice (take n (PutLengthPrefixedSlice [] k))) = None"
proof -
  let ?e = "EncodeVarint32 (of_nat (length k))"
  have p: "PutLengthPrefixedSlice [] k = ?e @ k" by (simp add: PutLengthPrefixedSlice_def PutVarint32_def)
  show ?thesis
  proof (cases "n < length ?e")
    case True
    then show ?thesis unfolding p by (simp add: GetLengthPrefixedSlice_def GetVarint32_prefix)
  next
    case False
    then show ?thesis
      using assms unfolding p
      by (simp add: GetLengthPrefixedSlice_def roundtrip unat_of_nat take_bit_nat_eq_self)
  qed
qed

lemma Corruption_not_OK [simp]: "Corruption a b \<noteq> OK"
  by (simp add: Corruption_def make_Status_def)

lemma Iterate_loop_truncated:
  assumes "op_ok x" "0 < n" "n < length (enc_op x)"
  shows "\<exists>st. st \<noteq> OK \<and> Iterate_loop H (take n (enc_op x)) found h = Some (Inl st, h)"
proof (cases x)
  case (PutOp k v)
  let ?k = "PutLengthPrefixedSlice [] k" and ?v = "PutLengthPrefixedSlice [] v"
  obtain n' where n: "n = Suc n'" using assms(2) by (cases n) auto
  show ?thesis
  proof (cases "n' < length ?k")
    case True
    then have "fst (GetLengthPrefixedSlice (take n' ?k)) = None"
      using assms PutOp by (intro GetLengthPrefixedSlice_prefix) simp_all
    then show ?thesis using True by (cases "GetLengthPrefixedSlice (take n' ?k)") (auto simp: PutOp n)
  next
    case False
    then have "fst (GetLengthPrefixedSlice (take (n' - length ?k) ?v)) = None"
      using assms PutOp n by (intro GetLengthPrefixedSlice_prefix) simp_all
    then show ?thesis
      using False assms PutOp
      by (cases "GetLengthPrefixedSlice (take (n' - length ?k) ?v)") (auto simp: n roundtrip)
  qed
next
  case (DeleteOp k)
  obtain n' where n: "n = Suc n'" using assms(2) by (cases n) auto
  have "fst (GetLengthPrefixedSlice (take n' (PutLengthPrefixedSlice [] k))) = None"
    using assms DeleteOp n by (intro GetLengthPrefixedSlice_prefix) simp_all
  then show ?thesis
    by (cases "GetLengthPrefixedSlice (take n' (PutLengthPrefixedSlice [] k))") (auto simp: DeleteOp n)
qed

lemma run_op_collector: "run_op collector x h = Some (h @ [x])"
  by (cases x) (simp_all add: collector_def)

lemma Iterate_loop_prefix:
  assumes "\<forall>x \<in> set ops. op_ok x" "n < length (concat (map enc_op ops))"
  shows "\<exists>r k. Iterate_loop collector (take n (concat (map enc_op ops))) found h = Some (r, h @ take k ops) \<and>
    k < length ops \<and> (case r of Inl st \<Rightarrow> st \<noteq> OK | Inr f \<Rightarrow> f = found + int k)"
  using assms
proof (induction ops arbitrary: n found h)
  case (Cons x ops)
  consider "n = 0" | "0 < n" "n < length (enc_op x)" | "length (enc_op x) \<le> n" by linarith
  then show ?case
  proof cases
    case 1
    then show ?thesis by (intro exI [of _ "Inr found"] exI [of _ 0]) simp
  next
    case 2
    then obtain st where "st \<noteq> OK" "Iterate_loop collector (take n (enc_op x)) found h = Some (Inl st, h)"
      using Iterate_loop_truncated [of x n collector found h] Cons.prems by auto
    with 2 show ?thesis by (intro exI [of _ "Inl st"] exI [of _ 0]) simp
  next
    case 3
    let ?n = "n - length (enc_op x)"
    have "?n < length (concat (map enc_op ops))" using Cons.prems(2) 3 by simp
    then obtain r k where "Iterate_loop collector (take ?n (concat (map enc_op ops))) (found + 1) (h @ [x]) =
        Some (r, (h @ [x]) @ take k ops)" "k < length ops" "case r of Inl st \<Rightarrow> st \<noteq> OK | Inr f \<Rightarrow> f = found + 1 + int k"
      using Cons.IH [of ?n "found + 1" "h @ [x]"] Cons.prems(1) by auto
    moreover have "take n (concat (map enc_op (x # ops))) = enc_op x @ take ?n (concat (map enc_op ops))"
      using 3 by simp
    ultimately show ?thesis
      using Iterate_loop_op [of x collector "take ?n (concat (map enc_op ops))" found h] Cons.prems
      by (intro exI [of _ r] exI [of _ "Suc k"]) (auto simp: run_op_collector split: sum.splits)
  qed
qed simp

lemma Iterate_truncated:
  assumes "batch_abs rep seq ops" "length ops < 2 ^ 31" "n < length rep"
  shows "\<exists>st k. Iterate collector (take n rep) [] = Some (st, take k ops) \<and> st \<noteq> OK"
proof (cases "n < wb_kHeader")
  case True
  then show ?thesis using assms(3) by (intro exI [of _ "_ :: Status"] exI [of _ 0]) (auto simp: Iterate_def)
next
  case False
  let ?hd = "EncodeFixed64 seq @ EncodeFixed32 (of_nat (length ops))" and ?recs = "concat (map enc_op ops)"
  have rep: "rep = ?hd @ ?recs" and ok: "\<forall>x \<in> set ops. op_ok x" using assms by (auto simp: batch_abs_def)
  have tk: "take n rep = ?hd @ take (n - 12) ?recs" using False by (simp add: rep wb_kHeader_def)
  have c: "Count (take n rep) = int (length ops)"
    unfolding tk using Count_header [OF assms(2), of seq "take (n - 12) ?recs"] by simp
  have "n - 12 < length ?recs" using assms(3) False by (simp add: rep wb_kHeader_def)
  then obtain r k where "Iterate_loop collector (take (n - 12) ?recs) 0 [] = Some (r, take k ops)" "k < length ops"
    "case r of Inl st \<Rightarrow> st \<noteq> OK | Inr f \<Rightarrow> f = 0 + int k"
    using Iterate_loop_prefix [OF ok, of "n - 12" 0 "[]"] by auto
  moreover have "drop wb_kHeader (take n rep) = take (n - 12) ?recs" "\<not> length (take n rep) < wb_kHeader"
    using False assms(3) unfolding tk by (simp_all add: wb_kHeader_def)
  ultimately show ?thesis
    by (intro exI [of _ "case r of Inl st \<Rightarrow> st | Inr f \<Rightarrow> Corruption (str ''WriteBatch has wrong count'') []"] exI [of _ k])
      (auto simp: Iterate_def c split: sum.splits)
qed

section \<open>Properties\<close>

text \<open>
  C14. A batch holds the updates put into it: iterating over a batch built by insertions and
  deletions calls the handler with exactly these, in order, and returns success; its count and
  sequence number are those set; appending a batch to another concatenates their updates.
\<close>

theorem write_batch_holds_updates:
  assumes "\<forall>x \<in> set xs. op_ok x" "\<forall>x \<in> set ys. op_ok x" "length xs + length ys < 2 ^ 31"
  shows "let a = SetSequence (fold update_batch xs new_WriteBatch) seq; b = fold update_batch ys new_WriteBatch
    in Iterate collector a [] = Some (OK, xs) \<and> Count a = int (length xs) \<and> Sequence a = seq \<and>
      (\<exists>ab. wb_Append a b = Some ab \<and> Iterate collector ab [] = Some (OK, xs @ ys) \<and> Sequence ab = seq)"
proof -
  let ?a = "SetSequence (fold update_batch xs new_WriteBatch) seq" and ?b = "fold update_batch ys new_WriteBatch"
  have a: "batch_abs ?a seq xs" and b: "batch_abs ?b 0 ys"
    using SetSequence_abs [OF build_abs [OF assms(1) Clear_abs]] build_abs [OF assms(2) Clear_abs] assms(3)
    by (simp_all add: new_WriteBatch_def)
  obtain ab where ab: "wb_Append ?a ?b = Some ab" "batch_abs ab seq (xs @ ys)"
    using Append_abs [OF a b assms(3)] by blast
  have "Count ?a = int (length xs)" using a Count_header [of "length xs" seq] assms(3) by (auto simp: batch_abs_def)
  then show ?thesis
    using ab Iterate_abs [OF a, of collector "[]"] Iterate_abs [OF ab(2), of collector "[]"] assms(3)
      Sequence_abs [OF a] Sequence_abs [OF ab(2)]
    by (simp add: run_collector Let_def)
qed

theorem write_batch_holds_updates_witness:
  "Iterate collector (SetSequence (fold update_batch [PutOp [0x61] [1], DeleteOp [0x62]] new_WriteBatch) 7) []
     = Some (OK, [PutOp [0x61] [1], DeleteOp [0x62]])"
  using write_batch_holds_updates [of "[PutOp [0x61] [1], DeleteOp [0x62]]" "[]" 7] by (simp add: Let_def)

text \<open>
  C20. A truncated batch is refused: iterating over any proper prefix of a batch returns an
  error, after handing the handler only updates of the batch, in order from the first.
\<close>

theorem write_batch_truncation_detected:
  assumes "\<forall>x \<in> set xs. op_ok x" "length xs < 2 ^ 31"
    and "n < length (SetSequence (fold update_batch xs new_WriteBatch) seq)"
  shows "\<exists>st k. Iterate collector (take n (SetSequence (fold update_batch xs new_WriteBatch) seq)) [] =
    Some (st, take k xs) \<and> st \<noteq> OK"
proof -
  have "batch_abs (SetSequence (fold update_batch xs new_WriteBatch) seq) seq xs"
    using SetSequence_abs [OF build_abs [OF assms(1) Clear_abs]] assms(2) by (simp add: new_WriteBatch_def)
  from Iterate_truncated [OF this assms(2,3)] show ?thesis .
qed

theorem write_batch_truncation_detected_witness:
  "\<exists>st k. Iterate collector (take 5 (SetSequence (fold update_batch [] new_WriteBatch) 7)) [] =
    Some (st, take k []) \<and> st \<noteq> OK"
  using write_batch_truncation_detected [of "[]" 5 7]
  by (simp add: SetSequence_def new_WriteBatch_def Clear_def wb_kHeader_def)

text \<open>
  C4. Inserting a batch into a memtable makes its updates visible: a read afterwards returns
  the newest update of the key, at or before the snapshot, among the history of the table
  followed by the updates of the batch at consecutive sequence numbers.
\<close>

theorem write_batch_visible:
  assumes "user_comparator c D" "increasing hist" "\<forall>e \<in> set hist. entry_ok D e \<and> entry_seq e < seq"
    and "\<forall>x \<in> set xs. op_fits D x" "length xs < 2 ^ 31" "unat seq + length xs \<le> 2 ^ 56"
    and "D u" "length u + 8 < 2 ^ 32" "s \<le> kMaxSequenceNumber"
  shows "\<exists>m m'. Add_all hist (new_MemTable c) = Some m \<and>
    InsertInto (SetSequence (fold update_batch xs new_WriteBatch) seq) m = Some (OK, m') \<and>
    Get (LookupKey u s) value st m' =
      Some (read_result value st (find (visible c u s) (rev (hist @ op_entries seq xs))))"
proof -
  have "\<forall>x \<in> set xs. op_ok x" using assms(4) op_fits_ok by blast
  then have b: "batch_abs (SetSequence (fold update_batch xs new_WriteBatch) seq) seq xs"
    using SetSequence_abs [OF build_abs [OF _ Clear_abs]] assms(5) by (simp add: new_WriteBatch_def)
  have seqs: "increasing (op_entries seq xs)" "\<forall>e \<in> set (op_entries seq xs). seq \<le> entry_seq e"
    using op_entries_seqs [OF assms(6)] by auto
  have inc: "increasing (hist @ op_entries seq xs)"
    using assms(2,3) seqs by (auto simp: increasing_append intro: order.strict_trans2)
  have ok: "\<forall>e \<in> set (hist @ op_entries seq xs). entry_ok D e"
    using assms(3) op_entries_ok [OF assms(6,4)] by auto
  obtain m' es where m': "Add_all (hist @ op_entries seq xs) (new_MemTable c) = Some m'" "mt_comparator m' = c"
    "mt_abs D m' es" "set es = set (hist @ op_entries seq xs)"
    using user_comparator.Add_all_abs [OF assms(1) mt_abs_new _ ok inc, of c] by (auto simp: new_MemTable_def)
  obtain m where m: "Add_all hist (new_MemTable c) = Some m" "Add_all (op_entries seq xs) m = Some m'"
    using m'(1) unfolding Add_all_append by (auto split: bind_splits)
  have "Get (LookupKey u s) value st m' = Some (read_result value st (find (visible c u s) (rev (hist @ op_entries seq xs))))"
    using user_comparator.Get_abs [OF assms(1) m'(3,2) assms(7-9)]
      user_comparator.newest_of_history [OF assms(1) m'(3,2,4) inc ok assms(7)] by simp
  then show ?thesis using m InsertInto_abs [OF b assms(5), of m] by simp
qed

theorem write_batch_visible_witness:
  "\<exists>m m'. Add_all [([0x61], 1, kTypeValue, [7])] (new_MemTable BytewiseComparator) = Some m \<and>
     InsertInto (SetSequence (fold update_batch [PutOp [0x61] [8], DeleteOp [0x62]] new_WriteBatch) 2) m = Some (OK, m') \<and>
     Get (LookupKey [0x61] 9) [] OK m' = Some (True, [8], OK)"
proof -
  have "increasing [([0x61], 1, kTypeValue, [7])]"
    "\<forall>e \<in> set [([0x61], 1, kTypeValue, [7])]. entry_ok (\<lambda>_. True) e \<and> entry_seq e < 2"
    by (simp_all add: increasing_def kMaxSequenceNumber_def)
  from write_batch_visible [OF bytewise_db.user_comparator_axioms this,
      of "[PutOp [0x61] [8], DeleteOp [0x62]]" "[0x61]" 9 "[]" OK]
  show ?thesis by (simp add: kMaxSequenceNumber_def BytewiseComparator_def)
qed

end
