(* ===== verification/Iter.thy ===== *)
theory Iter
  imports Comparator Env "HOL-Library.Monad_Syntax"
begin

text \<open>
  \<open>include/leveldb/iterator.h\<close>, \<open>table/iterator.cc\<close> and \<open>table/iterator_wrapper.h\<close>: the
  iterator interface with the contract its comments state, the empty and error iterators, the
  cleanup list of an iterator and the wrapper that caches \<open>Valid()\<close> and \<open>key()\<close>. Every iterator
  of the development is an interpretation of the contract; the wrapper is shown to keep it.
\<close>

section \<open>The interface\<close>

text \<open>
  The methods of an iterator with the state \<open>'s\<close>. The result \<open>None\<close> is undefined behaviour: a
  failed assertion or a read outside the data.
\<close>

record 's Iterator =
  it_Valid :: "'s \<Rightarrow> bool"
  it_SeekToFirst :: "'s \<Rightarrow> 's option"
  it_SeekToLast :: "'s \<Rightarrow> 's option"
  it_Seek :: "bytes \<Rightarrow> 's \<Rightarrow> 's option"
  it_Next :: "'s \<Rightarrow> 's option"
  it_Prev :: "'s \<Rightarrow> 's option"
  it_key :: "'s \<Rightarrow> bytes option"
  it_value :: "'s \<Rightarrow> bytes option"
  it_status :: "'s \<Rightarrow> Status"

section \<open>Cleanup functions\<close>

text \<open>The inlined head node, unused at first, and the nodes after it.\<close>

record 'c CleanupList =
  cleanup_head :: "'c option"
  cleanup_next :: "'c list"

definition new_cleanup :: "'c CleanupList" where
  "new_cleanup = \<lparr>cleanup_head = None, cleanup_next = []\<rparr>"

definition RegisterCleanup :: "'c \<Rightarrow> 'c CleanupList \<Rightarrow> 'c CleanupList" where
  "RegisterCleanup c l =
     (if cleanup_head l = None then l\<lparr>cleanup_head := Some c\<rparr>
      else l\<lparr>cleanup_next := c # cleanup_next l\<rparr>)"

text \<open>The functions the destructor runs, in order.\<close>

definition run_cleanups :: "'c CleanupList \<Rightarrow> 'c list" where
  "run_cleanups l = (case cleanup_head l of None \<Rightarrow> [] | Some c \<Rightarrow> c # cleanup_next l)"

section \<open>Empty and error iterators\<close>

definition EmptyIterator :: "Status Iterator" where
  "EmptyIterator =
     \<lparr>it_Valid = (\<lambda>s. False), it_SeekToFirst = (\<lambda>s. Some s), it_SeekToLast = (\<lambda>s. Some s),
      it_Seek = (\<lambda>target s. Some s), it_Next = (\<lambda>s. None), it_Prev = (\<lambda>s. None),
      it_key = (\<lambda>s. None), it_value = (\<lambda>s. None), it_status = (\<lambda>s. s)\<rparr>"

definition NewEmptyIterator :: Status where
  "NewEmptyIterator = OK"

definition NewErrorIterator :: "Status \<Rightarrow> Status" where
  "NewErrorIterator status = status"

section \<open>The wrapper\<close>

record 's IteratorWrapper =
  w_iter :: "'s option"
  w_valid :: bool
  w_key :: bytes

definition new_IteratorWrapper :: "'s IteratorWrapper" where
  "new_IteratorWrapper = \<lparr>w_iter = None, w_valid = False, w_key = []\<rparr>"

definition wrapper_Update :: "'s Iterator \<Rightarrow> 's \<Rightarrow> 's IteratorWrapper \<Rightarrow> 's IteratorWrapper option" where
  "wrapper_Update I s w =
     (let w = w\<lparr>w_iter := Some s, w_valid := it_Valid I s\<rparr>
      in if w_valid w then do { k \<leftarrow> it_key I s; Some (w\<lparr>w_key := k\<rparr>) } else Some w)"

definition wrapper_Set :: "'s Iterator \<Rightarrow> 's option \<Rightarrow> 's IteratorWrapper \<Rightarrow> 's IteratorWrapper option" where
  "wrapper_Set I iter w =
     (case iter of
        None \<Rightarrow> Some (w\<lparr>w_iter := None, w_valid := False\<rparr>)
      | Some s \<Rightarrow> wrapper_Update I s w)"

definition wrapper_key :: "'s IteratorWrapper \<Rightarrow> bytes option" where
  "wrapper_key w = (if w_valid w then Some (w_key w) else None)"

definition wrapper_value :: "'s Iterator \<Rightarrow> 's IteratorWrapper \<Rightarrow> bytes option" where
  "wrapper_value I w = (if w_valid w then do { s \<leftarrow> w_iter w; it_value I s } else None)"

definition wrapper_status :: "'s Iterator \<Rightarrow> 's IteratorWrapper \<Rightarrow> Status option" where
  "wrapper_status I w = do { s \<leftarrow> w_iter w; Some (it_status I s) }"

text \<open>A positioning method: the assertion, the call, the update of the cached results.\<close>

definition wrapper_move ::
  "'s Iterator \<Rightarrow> ('s \<Rightarrow> 's option) \<Rightarrow> 's IteratorWrapper \<Rightarrow> 's IteratorWrapper option" where
  "wrapper_move I move w = do { s \<leftarrow> w_iter w; s' \<leftarrow> move s; wrapper_Update I s' w }"

definition wrapper_Next :: "'s Iterator \<Rightarrow> 's IteratorWrapper \<Rightarrow> 's IteratorWrapper option" where
  "wrapper_Next I = wrapper_move I (it_Next I)"

definition wrapper_Prev :: "'s Iterator \<Rightarrow> 's IteratorWrapper \<Rightarrow> 's IteratorWrapper option" where
  "wrapper_Prev I = wrapper_move I (it_Prev I)"

definition wrapper_Seek :: "'s Iterator \<Rightarrow> bytes \<Rightarrow> 's IteratorWrapper \<Rightarrow> 's IteratorWrapper option" where
  "wrapper_Seek I k = wrapper_move I (it_Seek I k)"

definition wrapper_SeekToFirst :: "'s Iterator \<Rightarrow> 's IteratorWrapper \<Rightarrow> 's IteratorWrapper option" where
  "wrapper_SeekToFirst I = wrapper_move I (it_SeekToFirst I)"

definition wrapper_SeekToLast :: "'s Iterator \<Rightarrow> 's IteratorWrapper \<Rightarrow> 's IteratorWrapper option" where
  "wrapper_SeekToLast I = wrapper_move I (it_SeekToLast I)"

text \<open>The wrapper with the methods of an iterator; \<open>status()\<close> of an unset wrapper is not called.\<close>

definition wrapper :: "'s Iterator \<Rightarrow> 's IteratorWrapper Iterator" where
  "wrapper I =
     \<lparr>it_Valid = w_valid, it_SeekToFirst = wrapper_SeekToFirst I, it_SeekToLast = wrapper_SeekToLast I,
      it_Seek = wrapper_Seek I, it_Next = wrapper_Next I, it_Prev = wrapper_Prev I,
      it_key = wrapper_key, it_value = wrapper_value I,
      it_status = (\<lambda>w. case wrapper_status I w of None \<Rightarrow> OK | Some st \<Rightarrow> st)\<rparr>"

section \<open>The contract\<close>

text \<open>
  \<open>rep kvs s p\<close>: the state \<open>s\<close> iterates over the sorted list \<open>kvs\<close> of entries and stands at the
  position \<open>p\<close>, which is \<open>None\<close> when the iterator is not valid.
\<close>

definition pos_of :: "'a list \<Rightarrow> nat \<Rightarrow> nat option" where
  "pos_of kvs i = (if i < length kvs then Some i else None)"

definition pos_before :: "nat \<Rightarrow> nat option" where
  "pos_before i = (if i = 0 then None else Some (i - 1))"

definition lower_bound :: "(bytes \<Rightarrow> bytes \<Rightarrow> int) \<Rightarrow> (bytes \<times> bytes) list \<Rightarrow> bytes \<Rightarrow> nat" where
  "lower_bound cmp kvs k = length (takeWhile (\<lambda>kv. cmp (fst kv) k < 0) kvs)"

definition sorted_kvs :: "(bytes \<Rightarrow> bytes \<Rightarrow> int) \<Rightarrow> (bytes \<Rightarrow> bool) \<Rightarrow> (bytes \<times> bytes) list \<Rightarrow> bool" where
  "sorted_kvs cmp D kvs \<longleftrightarrow> sorted_wrt (\<lambda>a b. cmp (fst a) (fst b) < 0) kvs \<and> (\<forall>kv \<in> set kvs. D (fst kv))"

lemma sorted_kvs_less:
  "sorted_kvs cmp D kvs \<Longrightarrow> i < j \<Longrightarrow> j < length kvs \<Longrightarrow> cmp (fst (kvs ! i)) (fst (kvs ! j)) < 0"
  unfolding sorted_kvs_def using sorted_wrt_nth_less by blast

lemma sorted_kvs_key: "sorted_kvs cmp D kvs \<Longrightarrow> i < length kvs \<Longrightarrow> D (fst (kvs ! i))"
  by (simp add: sorted_kvs_def)

lemma lower_bound_le: "lower_bound cmp kvs k \<le> length kvs"
  by (simp add: lower_bound_def length_takeWhile_le)

text \<open>The entries before the lower bound of a key are exactly those with a smaller key.\<close>

lemma lower_bound_iff:
  assumes "key_order cmp D" "sorted_kvs cmp D kvs" "D k" "i < length kvs"
  shows "cmp (fst (kvs ! i)) k < 0 \<longleftrightarrow> i < lower_bound cmp kvs k"
proof
  assume lt: "cmp (fst (kvs ! i)) k < 0"
  let ?l = "lower_bound cmp kvs k"
  show "i < ?l"
  proof (rule ccontr)
    assume "\<not> i < ?l"
    then have l: "?l \<le> i" "?l < length kvs" using assms(4) by simp_all
    then have nl: "\<not> cmp (fst (kvs ! ?l)) k < 0"
      using nth_length_takeWhile [of "\<lambda>kv. cmp (fst kv) k < 0" kvs] by (simp add: lower_bound_def)
    then have "?l < i" using l lt by (cases "?l = i") auto
    then have "cmp (fst (kvs ! ?l)) (fst (kvs ! i)) < 0" using sorted_kvs_less [OF assms(2)] assms(4) by blast
    then show False
      using nl lt key_order.less_trans [OF assms(1), of "fst (kvs ! ?l)" "fst (kvs ! i)" k] assms
        sorted_kvs_key [OF assms(2) l(2)] sorted_kvs_key [OF assms(2,4)] by blast
  qed
next
  assume i: "i < lower_bound cmp kvs k"
  let ?t = "takeWhile (\<lambda>kv. cmp (fst kv) k < 0) kvs"
  have "kvs ! i = ?t ! i" using i by (simp add: lower_bound_def takeWhile_nth)
  moreover have "?t ! i \<in> set ?t" using i by (simp add: lower_bound_def)
  ultimately show "cmp (fst (kvs ! i)) k < 0" using set_takeWhileD by metis
qed

lemma lower_bound_eqI:
  assumes "key_order cmp D" "sorted_kvs cmp D kvs" "D k" "i \<le> length kvs"
    and "\<forall>j < i. cmp (fst (kvs ! j)) k < 0" "i < length kvs \<Longrightarrow> \<not> cmp (fst (kvs ! i)) k < 0"
  shows "lower_bound cmp kvs k = i"
proof (rule antisym)
  show "lower_bound cmp kvs k \<le> i"
    using lower_bound_iff [OF assms(1-3), of i] assms(6) lower_bound_le [of cmp kvs k] assms(4)
    by (cases "i < length kvs") auto
  show "i \<le> lower_bound cmp kvs k"
  proof (cases i)
    case (Suc j)
    then have "j < lower_bound cmp kvs k" using lower_bound_iff [OF assms(1-3), of j] assms(4,5) by simp
    with Suc show ?thesis by simp
  qed simp
qed

locale iterator =
  fixes I :: "'s Iterator"
    and cmp :: "bytes \<Rightarrow> bytes \<Rightarrow> int"
    and D :: "bytes \<Rightarrow> bool"
    and rep :: "(bytes \<times> bytes) list \<Rightarrow> 's \<Rightarrow> nat option \<Rightarrow> bool"
  assumes rep_range: "rep kvs s (Some i) \<Longrightarrow> i < length kvs"
    and rep_sorted: "rep kvs s p \<Longrightarrow> sorted_kvs cmp D kvs"
    and valid_rep: "rep kvs s p \<Longrightarrow> it_Valid I s \<longleftrightarrow> p \<noteq> None"
    and key_rep: "rep kvs s (Some i) \<Longrightarrow> it_key I s = Some (fst (kvs ! i))"
    and value_rep: "rep kvs s (Some i) \<Longrightarrow> it_value I s = Some (snd (kvs ! i))"
    and status_rep: "rep kvs s p \<Longrightarrow> it_status I s = OK"
    and first_rep: "rep kvs s p \<Longrightarrow> \<exists>s'. it_SeekToFirst I s = Some s' \<and> rep kvs s' (pos_of kvs 0)"
    and last_rep: "rep kvs s p \<Longrightarrow> \<exists>s'. it_SeekToLast I s = Some s' \<and> rep kvs s' (pos_before (length kvs))"
    and seek_rep: "rep kvs s p \<Longrightarrow> D k \<Longrightarrow>
      \<exists>s'. it_Seek I k s = Some s' \<and> rep kvs s' (pos_of kvs (lower_bound cmp kvs k))"
    and next_rep: "rep kvs s (Some i) \<Longrightarrow> \<exists>s'. it_Next I s = Some s' \<and> rep kvs s' (pos_of kvs (Suc i))"
    and prev_rep: "rep kvs s (Some i) \<Longrightarrow> \<exists>s'. it_Prev I s = Some s' \<and> rep kvs s' (pos_before i)"

text \<open>The entries from the current position on, as a client reads them.\<close>

partial_function (option) it_collect :: "'s Iterator \<Rightarrow> 's \<Rightarrow> (bytes \<times> bytes) list option" where
  "it_collect I s =
     (if it_Valid I s then
        do { k \<leftarrow> it_key I s; v \<leftarrow> it_value I s; s' \<leftarrow> it_Next I s; kvs \<leftarrow> it_collect I s'; Some ((k, v) # kvs) }
      else Some [])"

text \<open>The same towards the front.\<close>

partial_function (option) it_collect_back :: "'s Iterator \<Rightarrow> 's \<Rightarrow> (bytes \<times> bytes) list option" where
  "it_collect_back I s =
     (if it_Valid I s then
        do { k \<leftarrow> it_key I s; v \<leftarrow> it_value I s; s' \<leftarrow> it_Prev I s; kvs \<leftarrow> it_collect_back I s'; Some ((k, v) # kvs) }
      else Some [])"

context iterator
begin

lemma collect_rep:
  assumes "rep kvs s (pos_of kvs i)" "i \<le> length kvs"
  shows "it_collect I s = Some (drop i kvs)"
  using assms
proof (induction "length kvs - i" arbitrary: i s)
  case 0
  then have "\<not> it_Valid I s" using valid_rep by (simp add: pos_of_def)
  then show ?case using 0 by (subst it_collect.simps) simp
next
  case (Suc n)
  then have i: "i < length kvs" by linarith
  then have r: "rep kvs s (Some i)" using Suc.prems by (simp add: pos_of_def)
  obtain s' where s': "it_Next I s = Some s'" "rep kvs s' (pos_of kvs (Suc i))" using next_rep [OF r] by blast
  have "it_collect I s' = Some (drop (Suc i) kvs)" using Suc.hyps(1) [of "Suc i" s'] Suc.hyps(2) s'(2) i by simp
  then show ?case
    using s'(1) valid_rep [OF r] key_rep [OF r] value_rep [OF r] i
    by (subst it_collect.simps) (simp add: Cons_nth_drop_Suc)
qed

lemma collect_back_rep:
  assumes "rep kvs s (pos_before i)" "i \<le> length kvs"
  shows "it_collect_back I s = Some (rev (take i kvs))"
  using assms
proof (induction i arbitrary: s)
  case 0
  then have "\<not> it_Valid I s" using valid_rep by (simp add: pos_before_def)
  then show ?case by (subst it_collect_back.simps) simp
next
  case (Suc i)
  then have r: "rep kvs s (Some i)" by (simp add: pos_before_def)
  obtain s' where s': "it_Prev I s = Some s'" "rep kvs s' (pos_before i)" using prev_rep [OF r] by blast
  then have "it_collect_back I s' = Some (rev (take i kvs))" using Suc by simp
  then show ?case
    using s'(1) valid_rep [OF r] key_rep [OF r] value_rep [OF r] Suc.prems(2)
    by (subst it_collect_back.simps) (simp add: take_Suc_conv_app_nth)
qed

text \<open>The three ways to start a scan.\<close>

lemma collect_first:
  assumes "rep kvs s p"
  shows "(it_SeekToFirst I s \<bind> it_collect I) = Some kvs"
    and "(it_SeekToLast I s \<bind> it_collect_back I) = Some (rev kvs)"
    and "D k \<Longrightarrow> (it_Seek I k s \<bind> it_collect I) = Some (dropWhile (\<lambda>kv. cmp (fst kv) k < 0) kvs)"
proof -
  show "(it_SeekToFirst I s \<bind> it_collect I) = Some kvs"
    using first_rep [OF assms] collect_rep [of kvs _ 0] by auto
  show "(it_SeekToLast I s \<bind> it_collect_back I) = Some (rev kvs)"
    using last_rep [OF assms] collect_back_rep [of kvs _ "length kvs"] by auto
  show "(it_Seek I k s \<bind> it_collect I) = Some (dropWhile (\<lambda>kv. cmp (fst kv) k < 0) kvs)" if "D k"
    using seek_rep [OF assms that] collect_rep [of kvs _ "lower_bound cmp kvs k"] lower_bound_le [of cmp kvs k]
    by (auto simp: dropWhile_eq_drop lower_bound_def)
qed

end

section \<open>The wrapper keeps the contract\<close>

definition wrapper_rep ::
  "((bytes \<times> bytes) list \<Rightarrow> 's \<Rightarrow> nat option \<Rightarrow> bool) \<Rightarrow> (bytes \<times> bytes) list \<Rightarrow> 's IteratorWrapper \<Rightarrow> nat option \<Rightarrow> bool" where
  "wrapper_rep rep kvs w p \<longleftrightarrow>
     (\<exists>s. w_iter w = Some s \<and> rep kvs s p \<and> (w_valid w \<longleftrightarrow> p \<noteq> None) \<and>
       (\<forall>i. p = Some i \<longrightarrow> w_key w = fst (kvs ! i)))"

context iterator
begin

lemma Update_rep:
  assumes "rep kvs s p"
  shows "\<exists>w'. wrapper_Update I s w = Some w' \<and> wrapper_rep rep kvs w' p"
  using valid_rep [OF assms] key_rep assms
  by (cases p) (auto simp: wrapper_Update_def wrapper_rep_def)

lemma move_rep:
  assumes "wrapper_rep rep kvs w p" "\<And>s. rep kvs s p \<Longrightarrow> \<exists>s'. move s = Some s' \<and> rep kvs s' q"
  shows "\<exists>w'. wrapper_move I move w = Some w' \<and> wrapper_rep rep kvs w' q"
proof -
  obtain s where s: "w_iter w = Some s" "rep kvs s p" using assms(1) by (auto simp: wrapper_rep_def)
  obtain s' where "move s = Some s'" "rep kvs s' q" using assms(2) [OF s(2)] by blast
  with s(1) Update_rep [of kvs s' q w] show ?thesis by (auto simp: wrapper_move_def)
qed

end

locale child_iterator = iterator

sublocale child_iterator \<subseteq> wrapped: iterator "wrapper I" cmp D "wrapper_rep rep"
proof unfold_locales
  fix kvs w p i k
  show "wrapper_rep rep kvs w (Some i) \<Longrightarrow> i < length kvs"
    using rep_range by (auto simp: wrapper_rep_def)
  show "wrapper_rep rep kvs w p \<Longrightarrow> sorted_kvs cmp D kvs"
    using rep_sorted by (auto simp: wrapper_rep_def)
  show "wrapper_rep rep kvs w p \<Longrightarrow> it_Valid (wrapper I) w \<longleftrightarrow> p \<noteq> None"
    by (auto simp: wrapper_rep_def wrapper_def)
  show "wrapper_rep rep kvs w (Some i) \<Longrightarrow> it_key (wrapper I) w = Some (fst (kvs ! i))"
    by (auto simp: wrapper_rep_def wrapper_def wrapper_key_def)
  show "wrapper_rep rep kvs w (Some i) \<Longrightarrow> it_value (wrapper I) w = Some (snd (kvs ! i))"
    using value_rep by (auto simp: wrapper_rep_def wrapper_def wrapper_value_def)
  show "wrapper_rep rep kvs w p \<Longrightarrow> it_status (wrapper I) w = OK"
    using status_rep by (auto simp: wrapper_rep_def wrapper_def wrapper_status_def)
  show "wrapper_rep rep kvs w p \<Longrightarrow> \<exists>w'. it_SeekToFirst (wrapper I) w = Some w' \<and> wrapper_rep rep kvs w' (pos_of kvs 0)"
    using move_rep [of kvs w p "it_SeekToFirst I"] first_rep by (simp add: wrapper_def wrapper_SeekToFirst_def)
  show "wrapper_rep rep kvs w p \<Longrightarrow> \<exists>w'. it_SeekToLast (wrapper I) w = Some w' \<and> wrapper_rep rep kvs w' (pos_before (length kvs))"
    using move_rep [of kvs w p "it_SeekToLast I"] last_rep by (simp add: wrapper_def wrapper_SeekToLast_def)
  show "wrapper_rep rep kvs w p \<Longrightarrow> D k \<Longrightarrow>
      \<exists>w'. it_Seek (wrapper I) k w = Some w' \<and> wrapper_rep rep kvs w' (pos_of kvs (lower_bound cmp kvs k))"
    using move_rep [of kvs w p "it_Seek I k"] seek_rep by (simp add: wrapper_def wrapper_Seek_def)
  show "wrapper_rep rep kvs w (Some i) \<Longrightarrow> \<exists>w'. it_Next (wrapper I) w = Some w' \<and> wrapper_rep rep kvs w' (pos_of kvs (Suc i))"
    using move_rep [of kvs w "Some i" "it_Next I"] next_rep by (simp add: wrapper_def wrapper_Next_def)
  show "wrapper_rep rep kvs w (Some i) \<Longrightarrow> \<exists>w'. it_Prev (wrapper I) w = Some w' \<and> wrapper_rep rep kvs w' (pos_before i)"
    using move_rep [of kvs w "Some i" "it_Prev I"] prev_rep by (simp add: wrapper_def wrapper_Prev_def)
qed

interpretation empty_iterator: iterator EmptyIterator cmp D "\<lambda>kvs s p. kvs = [] \<and> p = None \<and> s = OK" for cmp D
  by unfold_locales
    (auto simp: EmptyIterator_def sorted_kvs_def pos_of_def pos_before_def)

interpretation empty_child: child_iterator EmptyIterator cmp D "\<lambda>kvs s p. kvs = [] \<and> p = None \<and> s = OK" for cmp D
  by (rule child_iterator.intro) (rule empty_iterator.iterator_axioms)

lemma run_cleanups_registered:
  "run_cleanups (fold RegisterCleanup cs new_cleanup) = (case cs of [] \<Rightarrow> [] | c # cs' \<Rightarrow> c # rev cs')"
proof (cases cs)
  case (Cons c cs')
  have "fold RegisterCleanup cs' \<lparr>cleanup_head = Some c, cleanup_next = r\<rparr> =
      \<lparr>cleanup_head = Some c, cleanup_next = rev cs' @ r\<rparr>" for r
    by (induction cs' arbitrary: r) (simp_all add: RegisterCleanup_def)
  then show ?thesis by (simp add: Cons RegisterCleanup_def new_cleanup_def run_cleanups_def)
qed (simp add: run_cleanups_def new_cleanup_def)

end
