(* ===== verification/DbOptions.thy ===== *)
theory DbOptions
  imports DbFormat
begin

text \<open>
  \<open>include/leveldb/options.h\<close>, \<open>util/options.cc\<close> and the option handling of \<open>db/db_impl.cc\<close>: the
  options of a database with their defaults, and the clipping of user-supplied values. The
  environment, the info log and the block cache are objects of other components and not part
  of the record.
\<close>

datatype CompressionType = kNoCompression | kSnappyCompression | kZstdCompression

record Options =
  opt_comparator :: Comparator
  create_if_missing :: bool
  error_if_exists :: bool
  paranoid_checks :: bool
  write_buffer_size :: u64
  max_open_files :: int
  block_size :: u64
  block_restart_interval :: int
  max_file_size :: u64
  compression :: CompressionType
  zstd_compression_level :: int
  reuse_logs :: bool
  opt_filter_policy :: "FilterPolicy option"

definition default_Options :: Options where
  "default_Options =
     \<lparr>opt_comparator = BytewiseComparator, create_if_missing = False, error_if_exists = False,
      paranoid_checks = False, write_buffer_size = 4 * 1024 * 1024, max_open_files = 1000,
      block_size = 4 * 1024, block_restart_interval = 16, max_file_size = 2 * 1024 * 1024,
      compression = kSnappyCompression, zstd_compression_level = 1, reuse_logs = False,
      opt_filter_policy = None\<rparr>"

text \<open>\<open>snapshot\<close> is the sequence number of the snapshot, if one is given.\<close>

record ReadOptions =
  verify_checksums :: bool
  fill_cache :: bool
  ro_snapshot :: "u64 option"

definition default_ReadOptions :: ReadOptions where
  "default_ReadOptions = \<lparr>verify_checksums = False, fill_cache = True, ro_snapshot = None\<rparr>"

record WriteOptions =
  wo_sync :: bool

definition default_WriteOptions :: WriteOptions where
  "default_WriteOptions = \<lparr>wo_sync = False\<rparr>"

section \<open>Sanitizing\<close>

text \<open>
  The two instances of the template \<open>ClipToRange\<close>: the bounds are of type \<open>int\<close>, so a \<open>size_t\<close>
  is converted to a 32-bit signed integer for the comparisons.
\<close>

definition ClipToRange_int :: "int \<Rightarrow> int \<Rightarrow> int \<Rightarrow> int" where
  "ClipToRange_int v minvalue maxvalue =
     (let v = (if v > maxvalue then maxvalue else v)
      in if v < minvalue then minvalue else v)"

definition to_int :: "u64 \<Rightarrow> int" where
  "to_int v = sint (ucast v :: u32)"

definition ClipToRange_size :: "u64 \<Rightarrow> int \<Rightarrow> int \<Rightarrow> u64" where
  "ClipToRange_size v minvalue maxvalue =
     (let v = (if to_int v > maxvalue then word_of_int maxvalue else v)
      in if to_int v < minvalue then word_of_int minvalue else v)"

definition kNumNonTableCacheFiles :: int where
  "kNumNonTableCacheFiles = 10"

definition SanitizeOptions :: "Options \<Rightarrow> Options" where
  "SanitizeOptions src =
     src\<lparr>opt_comparator := InternalKeyComparator (opt_comparator src),
        opt_filter_policy := map_option InternalFilterPolicy (opt_filter_policy src),
        max_open_files := ClipToRange_int (max_open_files src) (64 + kNumNonTableCacheFiles) 50000,
        write_buffer_size := ClipToRange_size (write_buffer_size src) (64 * 2 ^ 10) (2 ^ 30),
        max_file_size := ClipToRange_size (max_file_size src) (2 ^ 20) (2 ^ 30),
        block_size := ClipToRange_size (block_size src) (2 ^ 10) (4 * 2 ^ 20)\<rparr>"

definition TableCacheSize :: "Options \<Rightarrow> int" where
  "TableCacheSize o_sane = max_open_files o_sane - kNumNonTableCacheFiles"

lemma ClipToRange_int_range:
  "lo \<le> hi \<Longrightarrow> lo \<le> ClipToRange_int v lo hi \<and> ClipToRange_int v lo hi \<le> hi"
  by (simp add: ClipToRange_int_def Let_def)

lemma to_int_small:
  assumes "uint v < 2 ^ 31"
  shows "to_int v = uint v"
proof -
  obtain n where n: "uint v = n" by simp
  then have "(ucast v :: u32) = word_of_int n" by auto
  moreover have "0 \<le> n" using n by auto
  ultimately have "to_int v = n"
    using assms n by (simp add: to_int_def signed_of_int signed_take_bit_int_eq_self)
  with n show ?thesis by simp
qed

lemma ClipToRange_size_range:
  assumes "0 \<le> lo" "lo \<le> hi" "hi < 2 ^ 31" "uint v < 2 ^ 31"
  shows "lo \<le> uint (ClipToRange_size v lo hi) \<and> uint (ClipToRange_size v lo hi) \<le> hi"
proof -
  have u: "uint (word_of_int x :: u64) = x" if "0 \<le> x" "x < 2 ^ 31" for x
    using that by (simp add: unsigned_of_int take_bit_int_eq_self)
  have t: "to_int (word_of_int x) = x" if "0 \<le> x" "x < 2 ^ 31" for x
    using to_int_small [of "word_of_int x"] u [OF that] that by simp
  show ?thesis
    using assms u [of lo] u [of hi] t [of hi] to_int_small [OF assms(4)]
    by (auto simp: ClipToRange_size_def Let_def)
qed

text \<open>The same without a bound on the size: what the 32-bit comparisons make of it.\<close>

lemma to_int_eq: "to_int v = (if uint v mod 2 ^ 32 < 2 ^ 31 then uint v mod 2 ^ 32 else uint v mod 2 ^ 32 - 2 ^ 32)"
proof -
  have u: "uint (ucast v :: u32) = uint v mod 2 ^ 32"
    by (simp add: unsigned_ucast_eq take_bit_eq_mod)
  have lt: "uint (ucast v :: u32) < 2 ^ 32" using uint_bounded [of "ucast v :: u32"] by simp
  then have "uint (ucast v :: u32) div 2 ^ 31 = 1" if "\<not> uint (ucast v :: u32) < 2 ^ 31"
    using that by (intro int_div_pos_eq [where r = "uint (ucast v :: u32) - 2 ^ 31"]) simp_all
  with lt show ?thesis
    unfolding to_int_def u [symmetric] sint_uint
    by (auto simp: signed_take_bit_eq_take_bit_minus bit_iff_odd take_bit_int_eq_self)
qed

text \<open>\<open>r\<close> is what becomes of the size \<open>v\<close>, and when it exceeds the maximum.\<close>

definition clipped_size :: "int \<Rightarrow> int \<Rightarrow> int \<Rightarrow> int \<Rightarrow> bool" where
  "clipped_size lo hi v r \<longleftrightarrow>
     (let m = v mod 2 ^ 32
      in r = (if m < lo \<or> 2 ^ 31 \<le> m then lo else if hi < m then hi else v) \<and>
         (hi < r \<longleftrightarrow> 2 ^ 32 \<le> v \<and> lo \<le> m \<and> m \<le> hi))"

lemma ClipToRange_size_exact:
  assumes "0 \<le> lo" "lo \<le> hi" "hi < 2 ^ 31"
  shows "clipped_size lo hi (uint v) (uint (ClipToRange_size v lo hi))"
proof -
  have u: "uint (word_of_int x :: u64) = x" if "0 \<le> x" "x < 2 ^ 31" for x
    using that by (simp add: unsigned_of_int take_bit_int_eq_self)
  have t: "to_int (word_of_int x) = x" if "0 \<le> x" "x < 2 ^ 31" for x
    using to_int_small [of "word_of_int x"] u [OF that] that by simp
  have "uint v mod 2 ^ 32 < 2 ^ 32" "0 \<le> uint v mod 2 ^ 32" by simp_all
  then have "uint (ClipToRange_size v lo hi)
      = (if uint v mod 2 ^ 32 < lo \<or> 2 ^ 31 \<le> uint v mod 2 ^ 32 then lo
         else if hi < uint v mod 2 ^ 32 then hi else uint v)"
    using assms u [of lo] u [of hi] t [of hi] by (auto simp: ClipToRange_size_def to_int_eq [of v] Let_def)
  moreover have "uint v mod 2 ^ 32 = uint v" if "\<not> 2 ^ 32 \<le> uint v" using that by simp
  moreover have "uint v mod 2 ^ 32 \<le> uint v" by (simp add: zmod_le_nonneg_dividend)
  ultimately show ?thesis
    using assms by (cases "2 ^ 32 \<le> uint v") (simp_all add: clipped_size_def Let_def)
qed

section \<open>Properties\<close>

text \<open>
  C31. Sanitized options are in their documented ranges, for sizes below two gigabytes.
\<close>

theorem sanitized_options_in_range:
  assumes "uint (write_buffer_size src) < 2 ^ 31" "uint (max_file_size src) < 2 ^ 31" "uint (block_size src) < 2 ^ 31"
  shows "let r = SanitizeOptions src
    in 64 * 2 ^ 10 \<le> uint (write_buffer_size r) \<and> uint (write_buffer_size r) \<le> 2 ^ 30 \<and>
      2 ^ 20 \<le> uint (max_file_size r) \<and> uint (max_file_size r) \<le> 2 ^ 30 \<and>
      2 ^ 10 \<le> uint (block_size r) \<and> uint (block_size r) \<le> 4 * 2 ^ 20 \<and>
      64 \<le> TableCacheSize r \<and> TableCacheSize r \<le> 49990"
proof -
  have "64 + kNumNonTableCacheFiles \<le> (50000 :: int)" by (simp add: kNumNonTableCacheFiles_def)
  from ClipToRange_int_range [OF this, of "max_open_files src"]
    ClipToRange_size_range [of "64 * 2 ^ 10" "2 ^ 30", OF _ _ _ assms(1)]
    ClipToRange_size_range [of "2 ^ 20" "2 ^ 30", OF _ _ _ assms(2)]
    ClipToRange_size_range [of "2 ^ 10" "4 * 2 ^ 20", OF _ _ _ assms(3)]
  show ?thesis
    by (simp add: SanitizeOptions_def TableCacheSize_def kNumNonTableCacheFiles_def Let_def)
qed

theorem sanitized_options_in_range_witness:
  "let r = SanitizeOptions (default_Options\<lparr>write_buffer_size := 7\<rparr>)
   in 64 * 2 ^ 10 \<le> uint (write_buffer_size r) \<and> 64 \<le> TableCacheSize r"
  using sanitized_options_in_range [of "default_Options\<lparr>write_buffer_size := 7\<rparr>"]
  by (simp add: default_Options_def Let_def)

text \<open>
  C33. The clipping of every size, exactly. The comparisons convert the size \<open>v\<close> to a 32-bit
  signed integer, so they see only \<open>m = v mod 2^32\<close>. A size is set to the minimum when \<open>m\<close> is
  below the minimum or at least two gigabytes, to the maximum when \<open>m\<close> is between the maximum
  and two gigabytes, and is left alone otherwise. It follows which sizes escape the maximum:
  those of four gigabytes or more whose \<open>m\<close> is in the range. Sizes such as three gigabytes are
  set to the minimum although they exceed the maximum.
\<close>

theorem size_clipping_exact:
  "let r = SanitizeOptions src
   in clipped_size (64 * 2 ^ 10) (2 ^ 30) (uint (write_buffer_size src)) (uint (write_buffer_size r)) \<and>
     clipped_size (2 ^ 20) (2 ^ 30) (uint (max_file_size src)) (uint (max_file_size r)) \<and>
     clipped_size (2 ^ 10) (4 * 2 ^ 20) (uint (block_size src)) (uint (block_size r))"
  by (simp add: SanitizeOptions_def Let_def ClipToRange_size_exact)

end
