(* ===== verification/Block.thy ===== *)
theory Block
  imports Coding Iter DbOptions
begin

text \<open>
  \<open>table/block_builder.h\<close>, \<open>table/block_builder.cc\<close>, \<open>table/block.h\<close> and \<open>table/block.cc\<close>: the
  prefix-compressed blocks of a table. A finished block is shown to be a faithful encoding of
  the entries added, and the iterator over it to fulfil the iterator contract, the binary
  search over the restart points included. Offsets into a block are natural numbers; the
  results about well-formed blocks are for blocks below four gigabytes, where they do not wrap.
\<close>

section \<open>Building\<close>

record BlockBuilder =
  bb_options :: Options
  bb_buffer :: bytes
  bb_restarts :: "u32 list"
  bb_counter :: int
  bb_finished :: bool
  bb_last_key :: bytes

definition new_BlockBuilder :: "Options \<Rightarrow> BlockBuilder option" where
  "new_BlockBuilder options =
     (if block_restart_interval options \<ge> 1
      then Some \<lparr>bb_options = options, bb_buffer = [], bb_restarts = [0], bb_counter = 0,
                 bb_finished = False, bb_last_key = []\<rparr>
      else None)"

definition bb_Reset :: "BlockBuilder \<Rightarrow> BlockBuilder" where
  "bb_Reset b = b\<lparr>bb_buffer := [], bb_restarts := [0], bb_counter := 0, bb_finished := False, bb_last_key := []\<rparr>"

definition bb_CurrentSizeEstimate :: "BlockBuilder \<Rightarrow> nat" where
  "bb_CurrentSizeEstimate b = length (bb_buffer b) + length (bb_restarts b) * 4 + 4"

definition bb_empty :: "BlockBuilder \<Rightarrow> bool" where
  "bb_empty b \<longleftrightarrow> bb_buffer b = []"

definition bb_Finish :: "BlockBuilder \<Rightarrow> bytes \<times> BlockBuilder" where
  "bb_Finish b =
     (let buffer = fold (\<lambda>r buf. PutFixed32 buf r) (bb_restarts b) (bb_buffer b);
          buffer = PutFixed32 buffer (of_nat (length (bb_restarts b)))
      in (buffer, b\<lparr>bb_buffer := buffer, bb_finished := True\<rparr>))"

function shared_loop :: "bytes \<Rightarrow> bytes \<Rightarrow> nat \<Rightarrow> nat \<Rightarrow> nat" where
  "shared_loop last_key_piece key min_length shared =
     (if shared < min_length \<and> last_key_piece ! shared = key ! shared
      then shared_loop last_key_piece key min_length (shared + 1)
      else shared)"
  by pat_completeness auto
termination
  by (relation "measure (\<lambda>(l, k, n, i). n - i)") auto

definition bb_Add :: "bytes \<Rightarrow> bytes \<Rightarrow> BlockBuilder \<Rightarrow> BlockBuilder option" where
  "bb_Add key value b =
     (let last_key_piece = bb_last_key b in
      if bb_finished b then None
      else if \<not> bb_counter b \<le> block_restart_interval (bb_options b) then None
      else if \<not> (bb_buffer b = [] \<or> Compare (opt_comparator (bb_options b)) key last_key_piece > 0) then None
      else
        (let (shared, b) =
           (if bb_counter b < block_restart_interval (bb_options b)
            then (shared_loop last_key_piece key (min (length last_key_piece) (length key)) 0, b)
            else (0, b\<lparr>bb_restarts := bb_restarts b @ [of_nat (length (bb_buffer b))], bb_counter := 0\<rparr>));
           non_shared = length key - shared;
           buffer = PutVarint32 (bb_buffer b) (of_nat shared);
           buffer = PutVarint32 buffer (of_nat non_shared);
           buffer = PutVarint32 buffer (of_nat (length value));
           buffer = buffer @ drop shared key;
           buffer = buffer @ value;
           last_key = take shared (bb_last_key b) @ drop shared key
         in if last_key = key
            then Some (b\<lparr>bb_buffer := buffer, bb_last_key := last_key, bb_counter := bb_counter b + 1\<rparr>)
            else None))"

section \<open>Reading\<close>

record Block =
  b_data :: bytes
  b_size :: nat
  b_restart_offset :: nat

definition NumRestarts :: "bytes \<Rightarrow> nat \<Rightarrow> u32 option" where
  "NumRestarts data sz = (if sz \<ge> 4 then Some (DecodeFixed32 (drop (sz - 4) data)) else None)"

text \<open>\<open>restart_offset_\<close> is left uninitialized, here 0, when the contents are too small.\<close>

definition new_Block :: "bytes \<Rightarrow> Block" where
  "new_Block contents =
     (let sz = length contents in
      case NumRestarts contents sz of
        None \<Rightarrow> \<lparr>b_data = contents, b_size = 0, b_restart_offset = 0\<rparr>
      | Some num_restarts \<Rightarrow>
          (let max_restarts_allowed = (sz - 4) div 4
           in if unat num_restarts > max_restarts_allowed
              then \<lparr>b_data = contents, b_size = 0, b_restart_offset = 0\<rparr>
              else \<lparr>b_data = contents, b_size = sz, b_restart_offset = sz - (1 + unat num_restarts) * 4\<rparr>))"

text \<open>
  The entry at offset \<open>p\<close> of the first \<open>limit\<close> bytes: the three lengths and the offset of the key
  delta, or \<open>None\<close> for \<open>nullptr\<close>. The sum of the last comparison is a 32-bit sum.
\<close>

definition DecodeEntry :: "bytes \<Rightarrow> nat \<Rightarrow> nat \<Rightarrow> (u32 \<times> u32 \<times> u32 \<times> nat) option" where
  "DecodeEntry data p limit =
     (if int limit - int p < 3 then None
      else
        (let r = drop p (take limit data);
             shared = (ucast (r ! 0) :: u32);
             non_shared = (ucast (r ! 1) :: u32);
             value_length = (ucast (r ! 2) :: u32)
         in do {
           (shared, non_shared, value_length, p) \<leftarrow>
             (if shared OR non_shared OR value_length < 128
              then Some (shared, non_shared, value_length, p + 3)
              else do {
                (shared, r) \<leftarrow> GetVarint32Ptr r;
                (non_shared, r) \<leftarrow> GetVarint32Ptr r;
                (value_length, r) \<leftarrow> GetVarint32Ptr r;
                Some (shared, non_shared, value_length, limit - length r)
              });
           if of_nat (limit - p) < non_shared + value_length then None
           else Some (shared, non_shared, value_length, p)
         }))"

text \<open>
  \<open>value_\<close> is the offset and length of a slice of the block, \<open>None\<close> when it has been cleared.
\<close>

record BlockIter =
  bi_comparator :: Comparator
  bi_data :: bytes
  bi_restarts :: nat
  bi_num_restarts :: nat
  bi_current :: nat
  bi_restart_index :: nat
  bi_key :: bytes
  bi_value :: "(nat \<times> nat) option"
  bi_status :: Status

definition NextEntryOffset :: "BlockIter \<Rightarrow> nat option" where
  "NextEntryOffset it = map_option (\<lambda>(off, n). off + n) (bi_value it)"

definition GetRestartPoint :: "BlockIter \<Rightarrow> nat \<Rightarrow> nat option" where
  "GetRestartPoint it index =
     (if index < bi_num_restarts it \<and> bi_restarts it + index * 4 + 4 \<le> length (bi_data it)
      then Some (unat (DecodeFixed32 (drop (bi_restarts it + index * 4) (bi_data it))))
      else None)"

definition SeekToRestartPoint :: "nat \<Rightarrow> BlockIter \<Rightarrow> BlockIter option" where
  "SeekToRestartPoint index it =
     do {
       offset \<leftarrow> GetRestartPoint it index;
       Some (it\<lparr>bi_key := [], bi_restart_index := index, bi_value := Some (offset, 0)\<rparr>)
     }"

definition new_BlockIter :: "Comparator \<Rightarrow> bytes \<Rightarrow> nat \<Rightarrow> nat \<Rightarrow> BlockIter option" where
  "new_BlockIter c data restarts num_restarts =
     (if num_restarts > 0
      then Some \<lparr>bi_comparator = c, bi_data = data, bi_restarts = restarts, bi_num_restarts = num_restarts,
                 bi_current = restarts, bi_restart_index = num_restarts, bi_key = [], bi_value = None,
                 bi_status = OK\<rparr>
      else None)"

definition bi_Valid :: "BlockIter \<Rightarrow> bool" where
  "bi_Valid it \<longleftrightarrow> bi_current it < bi_restarts it"

definition bi_get_key :: "BlockIter \<Rightarrow> bytes option" where
  "bi_get_key it = (if bi_Valid it then Some (bi_key it) else None)"

definition bi_get_value :: "BlockIter \<Rightarrow> bytes option" where
  "bi_get_value it =
     (if bi_Valid it then
        (case bi_value it of
           None \<Rightarrow> Some []
         | Some (off, n) \<Rightarrow> if off + n \<le> length (bi_data it) then Some (take n (drop off (bi_data it))) else None)
      else None)"

definition CorruptionError :: "BlockIter \<Rightarrow> BlockIter" where
  "CorruptionError it =
     it\<lparr>bi_current := bi_restarts it, bi_restart_index := bi_num_restarts it,
        bi_status := Corruption (str ''bad entry in block'') [], bi_key := [], bi_value := None\<rparr>"

text \<open>The loop that advances \<open>restart_index_\<close>.\<close>

function advance_restart :: "BlockIter \<Rightarrow> nat \<Rightarrow> nat option" where
  "advance_restart it index =
     (if index + 1 < bi_num_restarts it
      then do {
        rp \<leftarrow> GetRestartPoint it (index + 1);
        if rp < bi_current it then advance_restart it (index + 1) else Some index
      }
      else Some index)"
  by pat_completeness auto
termination
  by (relation "measure (\<lambda>(it, index). bi_num_restarts it - index)") auto

definition ParseNextKey :: "BlockIter \<Rightarrow> (bool \<times> BlockIter) option" where
  "ParseNextKey it =
     do {
       current \<leftarrow> NextEntryOffset it;
       let it = it\<lparr>bi_current := current\<rparr>;
       if current \<ge> bi_restarts it
       then Some (False, it\<lparr>bi_current := bi_restarts it, bi_restart_index := bi_num_restarts it\<rparr>)
       else
         (case DecodeEntry (bi_data it) current (bi_restarts it) of
            None \<Rightarrow> Some (False, CorruptionError it)
          | Some (shared, non_shared, value_length, p) \<Rightarrow>
              if length (bi_key it) < unat shared then Some (False, CorruptionError it)
              else if length (bi_data it) < p + unat non_shared then None
              else do {
                let it = it\<lparr>bi_key := take (unat shared) (bi_key it) @ take (unat non_shared) (drop p (bi_data it)),
                            bi_value := Some (p + unat non_shared, unat value_length)\<rparr>;
                index \<leftarrow> advance_restart it (bi_restart_index it);
                Some (True, it\<lparr>bi_restart_index := index\<rparr>)
              })
     }"

definition bi_Next :: "BlockIter \<Rightarrow> BlockIter option" where
  "bi_Next it = (if bi_Valid it then map_option snd (ParseNextKey it) else None)"

text \<open>The first loop of \<open>Prev\<close>: the last restart point before \<open>original\<close>, if there is one.\<close>

fun Prev_restart :: "BlockIter \<Rightarrow> nat \<Rightarrow> nat \<Rightarrow> nat option option" where
  "Prev_restart it original 0 =
     do { rp \<leftarrow> GetRestartPoint it 0; if rp \<ge> original then Some None else Some (Some 0) }"
| "Prev_restart it original (Suc index) =
     do {
       rp \<leftarrow> GetRestartPoint it (Suc index);
       if rp \<ge> original then Prev_restart it original index else Some (Some (Suc index))
     }"

text \<open>Parse entries until one ends at or after the bound; this is also the loop of \<open>SeekToLast\<close>.\<close>

partial_function (option) parse_until :: "nat \<Rightarrow> BlockIter \<Rightarrow> BlockIter option" where
  "parse_until bound it =
     do {
       (ok, it) \<leftarrow> ParseNextKey it;
       if ok then do {
         e \<leftarrow> NextEntryOffset it;
         if e < bound then parse_until bound it else Some it
       }
       else Some it
     }"

definition bi_Prev :: "BlockIter \<Rightarrow> BlockIter option" where
  "bi_Prev it =
     (if bi_Valid it then do {
        let original = bi_current it;
        r \<leftarrow> Prev_restart it original (bi_restart_index it);
        case r of
          None \<Rightarrow> Some (it\<lparr>bi_current := bi_restarts it, bi_restart_index := bi_num_restarts it\<rparr>)
        | Some index \<Rightarrow> do { it \<leftarrow> SeekToRestartPoint index it; parse_until original it }
      }
      else None)"

text \<open>The binary search of \<open>Seek\<close>: the final \<open>left\<close>, or \<open>Inl\<close> after a corrupted entry.\<close>

function seek_search :: "BlockIter \<Rightarrow> bytes \<Rightarrow> nat \<Rightarrow> nat \<Rightarrow> (unit + nat) option" where
  "seek_search it target left right =
     (if left < right then do {
        let mid = (left + right + 1) div 2;
        region_offset \<leftarrow> GetRestartPoint it mid;
        case DecodeEntry (bi_data it) region_offset (bi_restarts it) of
          None \<Rightarrow> Some (Inl ())
        | Some (shared, non_shared, value_length, key_ptr) \<Rightarrow>
            if shared \<noteq> 0 then Some (Inl ())
            else if length (bi_data it) < key_ptr + unat non_shared then None
            else if Compare (bi_comparator it) (take (unat non_shared) (drop key_ptr (bi_data it))) target < 0
            then seek_search it target mid right
            else seek_search it target left (mid - 1)
      }
      else Some (Inr left))"
  by pat_completeness auto
termination
  by (relation "measure (\<lambda>(it, target, left, right). right - left)") auto

partial_function (option) seek_linear :: "bytes \<Rightarrow> BlockIter \<Rightarrow> BlockIter option" where
  "seek_linear target it =
     do {
       (ok, it) \<leftarrow> ParseNextKey it;
       if \<not> ok then Some it
       else if Compare (bi_comparator it) (bi_key it) target \<ge> 0 then Some it
       else seek_linear target it
     }"

definition bi_Seek :: "bytes \<Rightarrow> BlockIter \<Rightarrow> BlockIter option" where
  "bi_Seek target it =
     (let current_key_compare = (if bi_Valid it then Compare (bi_comparator it) (bi_key it) target else 0) in
      if bi_Valid it \<and> current_key_compare = 0 then Some it
      else
        (let left = (if current_key_compare < 0 then bi_restart_index it else 0);
             right = (if current_key_compare > 0 then bi_restart_index it else bi_num_restarts it - 1)
         in do {
           r \<leftarrow> seek_search it target left right;
           case r of
             Inl _ \<Rightarrow> Some (CorruptionError it)
           | Inr left \<Rightarrow>
               (let skip_seek = (left = bi_restart_index it \<and> current_key_compare < 0)
                in do {
                  it \<leftarrow> (if skip_seek then Some it else SeekToRestartPoint left it);
                  seek_linear target it
                })
         }))"

definition bi_SeekToFirst :: "BlockIter \<Rightarrow> BlockIter option" where
  "bi_SeekToFirst it =
     do { it \<leftarrow> SeekToRestartPoint 0 it; map_option snd (ParseNextKey it) }"

definition bi_SeekToLast :: "BlockIter \<Rightarrow> BlockIter option" where
  "bi_SeekToLast it =
     do { it \<leftarrow> SeekToRestartPoint (bi_num_restarts it - 1) it; parse_until (bi_restarts it) it }"

definition BlockIterator :: "BlockIter Iterator" where
  "BlockIterator =
     \<lparr>it_Valid = bi_Valid, it_SeekToFirst = bi_SeekToFirst, it_SeekToLast = bi_SeekToLast,
      it_Seek = bi_Seek, it_Next = bi_Next, it_Prev = bi_Prev, it_key = bi_get_key,
      it_value = bi_get_value, it_status = bi_status\<rparr>"

text \<open>\<open>NewIterator\<close> gives an error iterator, an empty iterator or an iterator over the entries.\<close>

definition Block_NewIterator :: "Comparator \<Rightarrow> Block \<Rightarrow> (Status + BlockIter) option" where
  "Block_NewIterator c b =
     (if b_size b < 4 then Some (Inl (NewErrorIterator (Corruption (str ''bad block contents'') [])))
      else do {
        num_restarts \<leftarrow> NumRestarts (b_data b) (b_size b);
        if num_restarts = 0 then Some (Inl NewEmptyIterator)
        else map_option Inr (new_BlockIter c (b_data b) (b_restart_offset b) (unat num_restarts))
      })"

declare shared_loop.simps [simp del] advance_restart.simps [simp del] seek_search.simps [simp del]

section \<open>The layout of a block\<close>

text \<open>
  A block over \<open>kvs\<close> is determined by the number of key bytes each entry shares with its
  predecessor and by the indices of the entries at restart points.
\<close>

definition entry_header :: "nat \<Rightarrow> bytes \<Rightarrow> bytes \<Rightarrow> bytes" where
  "entry_header sh d v =
     EncodeVarint32 (of_nat sh) @ EncodeVarint32 (of_nat (length d)) @ EncodeVarint32 (of_nat (length v))"

definition entry_rec :: "nat \<Rightarrow> bytes \<times> bytes \<Rightarrow> bytes" where
  "entry_rec sh kv = entry_header sh (drop sh (fst kv)) (snd kv) @ drop sh (fst kv) @ snd kv"

definition block_recs :: "(bytes \<times> bytes) list \<Rightarrow> nat list \<Rightarrow> bytes list" where
  "block_recs kvs shs = map2 entry_rec shs kvs"

definition block_off :: "(bytes \<times> bytes) list \<Rightarrow> nat list \<Rightarrow> nat \<Rightarrow> nat" where
  "block_off kvs shs i = length (concat (take i (block_recs kvs shs)))"

definition restart_array :: "(bytes \<times> bytes) list \<Rightarrow> nat list \<Rightarrow> nat list \<Rightarrow> bytes" where
  "restart_array kvs shs rs = concat (map (\<lambda>r. EncodeFixed32 (of_nat (block_off kvs shs r))) rs)"

definition block_bytes :: "(bytes \<times> bytes) list \<Rightarrow> nat list \<Rightarrow> nat list \<Rightarrow> bytes" where
  "block_bytes kvs shs rs =
     concat (block_recs kvs shs) @ restart_array kvs shs rs @ EncodeFixed32 (of_nat (length rs))"

definition shares_ok :: "(bytes \<times> bytes) list \<Rightarrow> nat list \<Rightarrow> bool" where
  "shares_ok kvs shs \<longleftrightarrow> length shs = length kvs \<and>
     (\<forall>i < length kvs. 0 < shs ! i \<longrightarrow> 0 < i \<and> shs ! i \<le> length (fst (kvs ! i)) \<and>
       shs ! i \<le> length (fst (kvs ! (i - 1))) \<and>
       take (shs ! i) (fst (kvs ! (i - 1))) = take (shs ! i) (fst (kvs ! i)))"

definition restarts_ok :: "nat list \<Rightarrow> nat \<Rightarrow> nat list \<Rightarrow> bool" where
  "restarts_ok shs n rs \<longleftrightarrow> rs \<noteq> [] \<and> hd rs = 0 \<and> sorted_wrt (<) rs \<and>
     (\<forall>r \<in> set rs. (r < n \<or> r = 0) \<and> (r < n \<longrightarrow> shs ! r = 0))"

definition block_ok ::
  "(bytes \<Rightarrow> bytes \<Rightarrow> int) \<Rightarrow> (bytes \<Rightarrow> bool) \<Rightarrow> (bytes \<times> bytes) list \<Rightarrow> nat list \<Rightarrow> nat list \<Rightarrow> bool" where
  "block_ok cmp D kvs shs rs \<longleftrightarrow> sorted_kvs cmp D kvs \<and> shares_ok kvs shs \<and>
     restarts_ok shs (length kvs) rs \<and> length (block_bytes kvs shs rs) < 2 ^ 32"

lemma length_EncodeVarint32_pos: "0 < length (EncodeVarint32 v)"
  by (simp add: EncodeVarint32_loop varint_bytes.simps [of v])

lemma length_entry_header: "3 \<le> length (entry_header sh d v)"
  using length_EncodeVarint32_pos [of "of_nat sh"] length_EncodeVarint32_pos [of "of_nat (length d)"]
    length_EncodeVarint32_pos [of "of_nat (length v)"]
  unfolding entry_header_def length_append by linarith

lemma length_block_recs [simp]: "length shs = length kvs \<Longrightarrow> length (block_recs kvs shs) = length kvs"
  by (simp add: block_recs_def)

lemma block_off_0 [simp]: "block_off kvs shs 0 = 0"
  by (simp add: block_off_def)

lemma block_off_Suc:
  "length shs = length kvs \<Longrightarrow> i < length kvs \<Longrightarrow>
   block_off kvs shs (Suc i) = block_off kvs shs i + length (entry_rec (shs ! i) (kvs ! i))"
  by (simp add: block_off_def take_Suc_conv_app_nth block_recs_def)

lemma length_entry_rec: "3 \<le> length (entry_rec sh kv)"
  using length_entry_header [of sh "drop sh (fst kv)" "snd kv"] by (simp add: entry_rec_def)

lemma block_off_less:
  assumes "length shs = length kvs" "j \<le> length kvs" "i < j"
  shows "block_off kvs shs i + 3 \<le> block_off kvs shs j"
  using assms(3,2)
proof (induction j)
  case (Suc j)
  have "block_off kvs shs j + 3 \<le> block_off kvs shs (Suc j)"
    using block_off_Suc [OF assms(1), of j] length_entry_rec [of "shs ! j" "kvs ! j"] Suc.prems by linarith
  with Suc show ?case by (cases "i = j") auto
qed simp

lemma block_off_less_iff:
  "length shs = length kvs \<Longrightarrow> i \<le> length kvs \<Longrightarrow> j \<le> length kvs \<Longrightarrow>
   block_off kvs shs i < block_off kvs shs j \<longleftrightarrow> i < j"
  using block_off_less [of shs kvs j i] block_off_less [of shs kvs i j] by (cases i j rule: linorder_cases) auto

lemma block_off_le_length:
  "length shs = length kvs \<Longrightarrow> block_off kvs shs i \<le> length (concat (block_recs kvs shs))"
  by (metis append_take_drop_id block_off_def concat_append le_add1 length_append)

lemma block_off_end:
  "length shs = length kvs \<Longrightarrow> block_off kvs shs (length kvs) = length (concat (block_recs kvs shs))"
  by (simp add: block_off_def)

lemma drop_block_off:
  assumes "length shs = length kvs" "i < length kvs"
  shows "drop (block_off kvs shs i) (concat (block_recs kvs shs)) =
    entry_rec (shs ! i) (kvs ! i) @ concat (drop (Suc i) (block_recs kvs shs))"
proof -
  let ?r = "block_recs kvs shs"
  have "concat ?r = concat (take i ?r) @ concat (drop i ?r)" by (metis append_take_drop_id concat_append)
  moreover have "drop i ?r = ?r ! i # drop (Suc i) ?r" using assms by (simp add: Cons_nth_drop_Suc)
  moreover have "?r ! i = entry_rec (shs ! i) (kvs ! i)" using assms by (simp add: block_recs_def)
  ultimately show ?thesis by (simp add: block_off_def)
qed

section \<open>Decoding an entry\<close>

text \<open>The fast path of \<open>DecodeEntry\<close> gives what the general path gives.\<close>

lemma GetVarint32Ptr_small:
  "\<not> bit b 7 \<Longrightarrow> GetVarint32Ptr (b # p) = Some (ucast b, p)"
  using test_bit_128 [of "ucast b :: u32"] by (simp add: GetVarint32Ptr_def bit_ucast_iff)

lemma or_less_128:
  fixes a b c :: byte
  assumes "(ucast a OR ucast b OR ucast c :: u32) < 128"
  shows "\<not> bit a 7 \<and> \<not> bit b 7 \<and> \<not> bit c 7"
proof -
  let ?w = "ucast a OR ucast b OR ucast c :: u32"
  have "unat ?w < 2 ^ 7" using assms by (simp add: word_less_nat_alt)
  then have "\<not> bit ?w 7" using small_word_bit [of ?w 7 7] by blast
  then show ?thesis by (simp add: bit_or_iff bit_ucast_iff)
qed

lemma DecodeEntry_general:
  assumes "limit \<le> length data" "p + 3 \<le> limit"
  shows "DecodeEntry data p limit =
    do {
      (shared, r) \<leftarrow> GetVarint32Ptr (drop p (take limit data));
      (non_shared, r) \<leftarrow> GetVarint32Ptr r;
      (value_length, r) \<leftarrow> GetVarint32Ptr r;
      if of_nat (length r) < non_shared + value_length then None
      else Some (shared, non_shared, value_length, limit - length r)
    }"
proof -
  let ?r = "drop p (take limit data)"
  have len: "length ?r = limit - p" using assms by simp
  obtain a b c r where r: "?r = a # b # c # r"
  proof -
    have "3 \<le> length ?r" using assms by simp
    then show ?thesis using that by (metis Suc_le_length_iff numeral_3_eq_3)
  qed
  have lr: "limit - length r = p + 3" "length r = limit - (p + 3)" using len r assms by simp_all
  have suffix: "length t \<le> limit" if "GetVarint32Ptr ?r = Some (x, s)" "GetVarint32Ptr s = Some (y, q)" "GetVarint32Ptr q = Some (z, t)" for x s y q z t
    using GetVarint32_consumes [of ?r x s] GetVarint32_consumes [of s y q] GetVarint32_consumes [of q z t] that len
    by (auto simp: GetVarint32_def)
  show ?thesis
  proof (cases "(ucast a OR ucast b OR ucast c :: u32) < 128")
    case True
    then show ?thesis
      using or_less_128 [OF True] assms(2) lr
      by (simp add: DecodeEntry_def r GetVarint32Ptr_small Let_def)
  next
    case False
    then show ?thesis
      using assms(2) suffix by (auto simp: DecodeEntry_def r Let_def split: bind_split)
  qed
qed

lemma DecodeEntry_rec:
  assumes "drop p (take limit data) = entry_header sh d v @ d @ v @ rest"
    and "limit \<le> length data" "p \<le> limit" "limit < 2 ^ 32" "sh < 2 ^ 32"
  shows "DecodeEntry data p limit =
    Some (of_nat sh, of_nat (length d), of_nat (length v), p + length (entry_header sh d v))"
proof -
  let ?h = "entry_header sh d v"
  have len: "p + length ?h + length d + length v + length rest = limit"
    using arg_cong [OF assms(1), of length] assms(2,3) by simp
  have p3: "p + 3 \<le> limit" using len length_entry_header [of sh d v] by linarith
  have sum: "\<not> of_nat (length d + (length v + length rest)) < (of_nat (length d) + of_nat (length v) :: u32)"
  proof -
    have "unat (of_nat (length d + (length v + length rest)) :: u32) = length d + (length v + length rest)"
      using len assms(4) by (intro unat_of_nat_u32) simp
    moreover have "unat (of_nat (length d + length v) :: u32) = length d + length v"
      using len assms(4) by (intro unat_of_nat_u32) simp
    ultimately show ?thesis unfolding of_nat_add [symmetric] word_less_nat_alt by linarith
  qed
  have "DecodeEntry data p limit = Some (of_nat sh, of_nat (length d), of_nat (length v),
      limit - (length d + (length v + length rest)))"
    unfolding DecodeEntry_general [OF assms(2) p3] assms(1) entry_header_def
    using sum GetVarint32_Encode by (simp add: GetVarint32_def)
  then show ?thesis using len by simp
qed

section \<open>Positions of the iterator\<close>

definition bi_over ::
  "(bytes \<Rightarrow> bytes \<Rightarrow> int) \<Rightarrow> (bytes \<Rightarrow> bool) \<Rightarrow> (bytes \<times> bytes) list \<Rightarrow> nat list \<Rightarrow> nat list \<Rightarrow> BlockIter \<Rightarrow> bool" where
  "bi_over cmp D kvs shs rs it \<longleftrightarrow> block_ok cmp D kvs shs rs \<and> bi_data it = block_bytes kvs shs rs \<and>
     bi_restarts it = block_off kvs shs (length kvs) \<and> bi_num_restarts it = length rs \<and>
     Compare (bi_comparator it) = cmp \<and> bi_status it = OK"

text \<open>The restart index names the last restart point before the entry, or one at the entry.\<close>

definition index_ok :: "nat list \<Rightarrow> nat \<Rightarrow> nat \<Rightarrow> bool" where
  "index_ok rs i ri \<longleftrightarrow> ri < length rs \<and> rs ! ri \<le> i \<and> (Suc ri < length rs \<longrightarrow> i \<le> rs ! Suc ri)"

definition bi_at :: "(bytes \<times> bytes) list \<Rightarrow> nat list \<Rightarrow> nat list \<Rightarrow> BlockIter \<Rightarrow> nat \<Rightarrow> bool" where
  "bi_at kvs shs rs it i \<longleftrightarrow> i < length kvs \<and> bi_current it = block_off kvs shs i \<and>
     bi_key it = fst (kvs ! i) \<and>
     bi_value it = Some (block_off kvs shs (Suc i) - length (snd (kvs ! i)), length (snd (kvs ! i))) \<and>
     index_ok rs i (bi_restart_index it)"

text \<open>Just before the entry \<open>i\<close>, with enough of a key to decode it.\<close>

definition bi_ready :: "(bytes \<times> bytes) list \<Rightarrow> nat list \<Rightarrow> nat list \<Rightarrow> BlockIter \<Rightarrow> nat \<Rightarrow> bool" where
  "bi_ready kvs shs rs it i \<longleftrightarrow> i \<le> length kvs \<and> NextEntryOffset it = Some (block_off kvs shs i) \<and>
     (i < length kvs \<longrightarrow> shs ! i \<le> length (bi_key it) \<and> take (shs ! i) (bi_key it) = take (shs ! i) (fst (kvs ! i))) \<and>
     bi_restart_index it < length rs \<and> rs ! bi_restart_index it \<le> i"

definition bi_invalid :: "BlockIter \<Rightarrow> bool" where
  "bi_invalid it \<longleftrightarrow> bi_current it = bi_restarts it \<and> bi_restart_index it = bi_num_restarts it"

lemma length_restart_array [simp]: "length (restart_array kvs shs rs) = 4 * length rs"
  by (induction rs) (simp_all add: restart_array_def)

lemma drop_restart_array:
  "j < length rs \<Longrightarrow> drop (4 * j) (restart_array kvs shs rs) =
    EncodeFixed32 (of_nat (block_off kvs shs (rs ! j))) @ restart_array kvs shs (drop (Suc j) rs)"
proof (induction rs arbitrary: j)
  case (Cons r rs)
  then show ?case by (cases j) (simp_all add: restart_array_def)
qed simp

lemma block_ok_lengths:
  assumes "block_ok cmp D kvs shs rs"
  shows "length shs = length kvs" "length (block_bytes kvs shs rs) = block_off kvs shs (length kvs) + 4 * length rs + 4"
    "block_off kvs shs (length kvs) + 4 * length rs + 4 < 2 ^ 32"
proof -
  show l: "length shs = length kvs" using assms by (simp add: block_ok_def shares_ok_def)
  show b: "length (block_bytes kvs shs rs) = block_off kvs shs (length kvs) + 4 * length rs + 4"
    by (simp add: block_bytes_def block_off_end [OF l])
  show "block_off kvs shs (length kvs) + 4 * length rs + 4 < 2 ^ 32"
    using assms b by (simp add: block_ok_def)
qed

lemma restarts_ok_le:
  assumes "restarts_ok shs n rs" "r \<in> set rs"
  shows "r \<le> n"
proof -
  have "\<forall>r \<in> set rs. r < n \<or> r = 0" using assms(1) by (simp add: restarts_ok_def)
  then have "r < n \<or> r = 0" by (rule bspec) (rule assms(2))
  then show ?thesis by auto
qed

lemma restart_le:
  assumes "block_ok cmp D kvs shs rs" "j < length rs"
  shows "rs ! j \<le> length kvs"
  using assms by (intro restarts_ok_le [of shs, OF _ nth_mem]) (simp_all add: block_ok_def)

lemma restart_0: "block_ok cmp D kvs shs rs \<Longrightarrow> rs ! 0 = 0"
  by (cases rs) (simp_all add: block_ok_def restarts_ok_def)

lemma restart_pos:
  assumes "block_ok cmp D kvs shs rs" "0 < j" "j < length rs"
  shows "rs ! j < length kvs" "shs ! (rs ! j) = 0"
proof -
  have all: "\<forall>r \<in> set rs. (r < length kvs \<or> r = 0) \<and> (r < length kvs \<longrightarrow> shs ! r = 0)"
    and srt: "sorted_wrt (<) rs"
    using assms(1) by (simp_all add: block_ok_def restarts_ok_def)
  have "rs ! 0 < rs ! j" using sorted_wrt_nth_less [OF srt assms(2,3)] .
  then show "rs ! j < length kvs" "shs ! (rs ! j) = 0"
    using bspec [OF all nth_mem [OF assms(3)]] restart_0 [OF assms(1)] by auto
qed

lemma key_length_le:
  assumes "shares_ok kvs shs" "i < length kvs"
  shows "length (fst (kvs ! i)) \<le> block_off kvs shs (Suc i)"
  using assms(2)
proof (induction i)
  case 0
  then have "shs ! 0 = 0" using assms(1) by (auto simp: shares_ok_def)
  with 0 assms(1) show ?case by (simp add: shares_ok_def block_off_Suc entry_rec_def)
next
  case (Suc i)
  then have "length (fst (kvs ! i)) \<le> block_off kvs shs (Suc i)" by simp
  moreover have "shs ! Suc i \<le> length (fst (kvs ! i))" using assms(1) Suc.prems by (fastforce simp: shares_ok_def)
  moreover have "length (fst (kvs ! Suc i)) - shs ! Suc i \<le> length (entry_rec (shs ! Suc i) (kvs ! Suc i))"
    by (simp add: entry_rec_def)
  ultimately show ?case
    using assms(1) Suc.prems block_off_Suc [of shs kvs "Suc i"] by (simp add: shares_ok_def)
qed

lemma GetRestartPoint_over:
  assumes "bi_over cmp D kvs shs rs it" "j < length rs"
  shows "GetRestartPoint it j = Some (block_off kvs shs (rs ! j))"
proof -
  have ok: "block_ok cmp D kvs shs rs" using assms by (simp add: bi_over_def)
  note l = block_ok_lengths [OF ok]
  have small: "block_off kvs shs (rs ! j) < 2 ^ 32"
    using l block_off_le_length [OF l(1), of "rs ! j"] block_off_end [OF l(1)] by linarith
  have "drop (block_off kvs shs (length kvs) + j * 4) (block_bytes kvs shs rs) =
      drop (4 * j) (restart_array kvs shs rs) @ EncodeFixed32 (of_nat (length rs))"
    unfolding block_bytes_def block_off_end [OF l(1)] using assms(2) by (simp add: mult.commute)
  then have "DecodeFixed32 (drop (block_off kvs shs (length kvs) + j * 4) (block_bytes kvs shs rs)) =
      of_nat (block_off kvs shs (rs ! j))"
    using drop_restart_array [OF assms(2), of kvs shs] by (simp add: roundtrip)
  then show ?thesis
    using assms l(2) unat_of_nat_u32 [OF small] by (simp add: GetRestartPoint_def bi_over_def)
qed

lemma SeekToRestartPoint_ready:
  assumes "bi_over cmp D kvs shs rs it" "j < length rs"
  shows "\<exists>it'. SeekToRestartPoint j it = Some it' \<and> bi_over cmp D kvs shs rs it' \<and>
    bi_ready kvs shs rs it' (rs ! j) \<and> bi_restart_index it' = j"
proof -
  have ok: "block_ok cmp D kvs shs rs" using assms by (simp add: bi_over_def)
  have "rs ! j < length kvs \<Longrightarrow> shs ! (rs ! j) = 0"
    using ok nth_mem [OF assms(2)] by (auto simp: block_ok_def restarts_ok_def)
  then show ?thesis
    using assms GetRestartPoint_over [OF assms] restart_le [OF ok assms(2)]
    by (auto simp: SeekToRestartPoint_def bi_over_def bi_ready_def NextEntryOffset_def)
qed

lemma bi_at_ready:
  assumes "bi_over cmp D kvs shs rs it" "bi_at kvs shs rs it i"
  shows "bi_ready kvs shs rs it (Suc i)"
proof -
  have l: "length shs = length kvs" and sh: "shares_ok kvs shs"
    using assms(1) block_ok_lengths(1) by (auto simp: bi_over_def block_ok_def)
  have i: "i < length kvs" using assms(2) by (simp add: bi_at_def)
  have "length (snd (kvs ! i)) \<le> block_off kvs shs (Suc i)"
    using block_off_Suc [OF l i] by (simp add: entry_rec_def)
  then show ?thesis
    using assms(2) sh i by (auto simp: bi_at_def bi_ready_def NextEntryOffset_def shares_ok_def index_ok_def)
qed

lemma sorted_nth_less: "sorted_wrt (<) (rs :: nat list) \<Longrightarrow> i < j \<Longrightarrow> j < length rs \<Longrightarrow> rs ! i < rs ! j"
  by (rule sorted_wrt_nth_less)

lemma advance_restart_over:
  assumes "bi_over cmp D kvs shs rs it" "bi_current it = block_off kvs shs i" "i \<le> length kvs"
    "ri < length rs" "rs ! ri \<le> i"
  shows "\<exists>ri'. advance_restart it ri = Some ri' \<and> index_ok rs i ri'"
  using assms(4,5)
proof (induction "length rs - ri" arbitrary: ri)
  case (Suc n)
  have ok: "block_ok cmp D kvs shs rs" using assms by (simp add: bi_over_def)
  show ?case
  proof (cases "Suc ri < length rs \<and> rs ! Suc ri < i")
    case True
    then have "block_off kvs shs (rs ! Suc ri) < bi_current it"
      using block_off_less_iff [OF block_ok_lengths(1) [OF ok] restart_le [OF ok, of "Suc ri"] assms(3)] assms(2) by simp
    then show ?thesis
      using Suc.hyps(1) [of "Suc ri"] Suc.hyps(2) True GetRestartPoint_over [OF assms(1), of "Suc ri"] assms(1)
      by (subst advance_restart.simps) (simp add: bi_over_def)
  next
    case False
    then have "Suc ri < length rs \<Longrightarrow> \<not> block_off kvs shs (rs ! Suc ri) < bi_current it"
      using block_off_less_iff [OF block_ok_lengths(1) [OF ok] restart_le [OF ok, of "Suc ri"] assms(3)] assms(2) by simp
    then show ?thesis
      using False Suc.prems GetRestartPoint_over [OF assms(1), of "Suc ri"] assms(1)
      by (subst advance_restart.simps) (auto simp: bi_over_def index_ok_def)
  qed
qed simp

lemma DecodeEntry_over:
  assumes "bi_over cmp D kvs shs rs it" "i < length kvs"
  shows "\<exists>p. DecodeEntry (bi_data it) (block_off kvs shs i) (bi_restarts it) =
      Some (of_nat (shs ! i), of_nat (length (fst (kvs ! i)) - shs ! i), of_nat (length (snd (kvs ! i))), p) \<and>
    p + (length (fst (kvs ! i)) - shs ! i) + length (snd (kvs ! i)) = block_off kvs shs (Suc i) \<and>
    take (length (fst (kvs ! i)) - shs ! i) (drop p (bi_data it)) = drop (shs ! i) (fst (kvs ! i)) \<and>
    take (length (snd (kvs ! i))) (drop (block_off kvs shs (Suc i) - length (snd (kvs ! i))) (bi_data it)) = snd (kvs ! i)"
proof -
  have ok: "block_ok cmp D kvs shs rs" and data: "bi_data it = block_bytes kvs shs rs"
    and limit: "bi_restarts it = block_off kvs shs (length kvs)" using assms(1) by (auto simp: bi_over_def)
  note l = block_ok_lengths [OF ok]
  let ?k = "fst (kvs ! i)" and ?v = "snd (kvs ! i)" and ?sh = "shs ! i" and ?off = "block_off kvs shs i"
  let ?d = "drop ?sh ?k"
  let ?h = "entry_header ?sh ?d ?v" and ?rest = "concat (drop (Suc i) (block_recs kvs shs))"
  have recs: "take (bi_restarts it) (bi_data it) = concat (block_recs kvs shs)"
    unfolding data limit block_off_end [OF l(1)] block_bytes_def by simp
  have at: "drop ?off (concat (block_recs kvs shs)) = ?h @ ?d @ ?v @ ?rest"
    using drop_block_off [OF l(1) assms(2)] by (simp add: entry_rec_def)
  have "?off \<le> bi_restarts it" using block_off_le_length [OF l(1)] by (simp add: limit block_off_end [OF l(1)])
  moreover have "?sh < 2 ^ 32"
  proof -
    have "?sh \<le> length ?k \<or> ?sh = 0" using ok assms(2) by (auto simp: block_ok_def shares_ok_def)
    moreover have "length ?k \<le> block_off kvs shs (Suc i)"
      using ok assms(2) by (intro key_length_le) (simp_all add: block_ok_def)
    moreover have "block_off kvs shs (Suc i) \<le> block_off kvs shs (length kvs)"
      using block_off_le_length [OF l(1)] by (simp add: block_off_end [OF l(1)])
    ultimately show ?thesis using l(3) by linarith
  qed
  ultimately have "DecodeEntry (bi_data it) ?off (bi_restarts it) =
      Some (of_nat ?sh, of_nat (length ?d), of_nat (length ?v), ?off + length ?h)"
    using l recs at limit data by (intro DecodeEntry_rec [where rest = ?rest]) simp_all
  moreover have suc: "block_off kvs shs (Suc i) = ?off + length ?h + length ?d + length ?v"
    using block_off_Suc [OF l(1) assms(2)] by (simp add: entry_rec_def)
  moreover have d: "drop ?off (bi_data it) = ?h @ ?d @ ?v @ ?rest @ drop (bi_restarts it) (bi_data it)"
    using at block_off_le_length [OF l(1), of i] recs unfolding data by (simp add: block_bytes_def limit block_off_end [OF l(1)])
  moreover have "drop (?off + length ?h) (bi_data it) = ?d @ ?v @ ?rest @ drop (bi_restarts it) (bi_data it)"
    using arg_cong [OF d, of "drop (length ?h)"] by (simp add: add.commute)
  moreover from arg_cong [OF this, of "drop (length ?d)"]
  have "drop (?off + length ?h + length ?d) (bi_data it) = ?v @ ?rest @ drop (bi_restarts it) (bi_data it)"
    by (simp add: add.commute add.left_commute)
  ultimately show ?thesis
    by (intro exI [of _ "?off + length ?h"]) simp
qed

lemma ParseNextKey_ready:
  assumes over: "bi_over cmp D kvs shs rs it" and ready: "bi_ready kvs shs rs it i"
  shows "\<exists>it'. ParseNextKey it = Some (i < length kvs, it') \<and> bi_over cmp D kvs shs rs it' \<and>
    (if i < length kvs then bi_at kvs shs rs it' i else bi_invalid it')"
proof (cases "i < length kvs")
  case False
  then have "i = length kvs" using ready by (simp add: bi_ready_def)
  then show ?thesis
    using over ready by (simp add: ParseNextKey_def bi_ready_def bi_over_def bi_invalid_def Let_def)
next
  case True
  let ?k = "fst (kvs ! i)" and ?v = "snd (kvs ! i)" and ?sh = "shs ! i"
  have ok: "block_ok cmp D kvs shs rs" using over by (simp add: bi_over_def)
  note l = block_ok_lengths [OF ok]
  obtain ns where ns: "length ?k - ?sh = ns" by simp
  obtain p where p: "DecodeEntry (bi_data it) (block_off kvs shs i) (bi_restarts it) =
      Some (of_nat ?sh, of_nat ns, of_nat (length ?v), p)"
    "p + ns + length ?v = block_off kvs shs (Suc i)"
    "take ns (drop p (bi_data it)) = drop ?sh ?k"
    using DecodeEntry_over [OF over True] unfolding ns by blast
  have le: "block_off kvs shs (Suc i) \<le> block_off kvs shs (length kvs)"
    using block_off_le_length [OF l(1)] by (simp add: block_off_end [OF l(1)])
  have rd: "NextEntryOffset it = Some (block_off kvs shs i)" "?sh \<le> length (bi_key it)"
    "take ?sh (bi_key it) = take ?sh ?k" "bi_restart_index it < length rs" "rs ! bi_restart_index it \<le> i"
    using ready True by (auto simp: bi_ready_def)
  have "?sh \<le> length ?k" using arg_cong [OF rd(3), of length] rd(2) by simp
  moreover have "length ?k \<le> block_off kvs shs (Suc i)"
    using ok True by (intro key_length_le) (simp_all add: block_ok_def)
  ultimately have u: "unat (of_nat ?sh :: u32) = ?sh" "unat (of_nat ns :: u32) = ns"
    "unat (of_nat (length ?v) :: u32) = length ?v"
    using p(2) le l(3) ns by (intro unat_of_nat_u32; linarith)+
  have restarts: "bi_restarts it = block_off kvs shs (length kvs)" and data: "length (bi_data it) = length (block_bytes kvs shs rs)"
    using over by (auto simp: bi_over_def)
  have cur: "block_off kvs shs i < bi_restarts it"
    using block_off_less_iff [OF l(1), of i "length kvs"] True restarts by simp
  let ?it = "it\<lparr>bi_current := block_off kvs shs i, bi_key := ?k, bi_value := Some (p + ns, length ?v)\<rparr>"
  have over': "bi_over cmp D kvs shs rs ?it" using over by (simp add: bi_over_def)
  obtain ri where ri: "advance_restart ?it (bi_restart_index it) = Some ri" "index_ok rs i ri"
    using advance_restart_over [OF over' _ _ rd(4,5)] True by auto
  have "\<not> length (bi_data it) < p + ns" using p(2) le l(2) data by linarith
  then have "ParseNextKey it = Some (True, ?it\<lparr>bi_restart_index := ri\<rparr>)"
    using rd p(1,3) u cur ri(1) \<open>?sh \<le> length ?k\<close> by (simp add: ParseNextKey_def Let_def)
  moreover have "bi_at kvs shs rs (?it\<lparr>bi_restart_index := ri\<rparr>) i"
    using True ri(2) p(2) by (auto simp: bi_at_def)
  ultimately show ?thesis using True over' by (simp add: bi_over_def)
qed

lemma parse_until_ready:
  assumes "bi_over cmp D kvs shs rs it" "bi_ready kvs shs rs it i" "i < j" "j \<le> length kvs"
  shows "\<exists>it'. parse_until (block_off kvs shs j) it = Some it' \<and> bi_over cmp D kvs shs rs it' \<and> bi_at kvs shs rs it' (j - 1)"
  using assms
proof (induction "j - i" arbitrary: i it)
  case (Suc n)
  have l: "length shs = length kvs" using Suc.prems(1) block_ok_lengths(1) by (auto simp: bi_over_def)
  have i: "i < length kvs" using Suc.prems by simp
  obtain it' where it': "ParseNextKey it = Some (True, it')" "bi_over cmp D kvs shs rs it'" "bi_at kvs shs rs it' i"
    using ParseNextKey_ready [OF Suc.prems(1,2)] i by auto
  have rd: "bi_ready kvs shs rs it' (Suc i)" using bi_at_ready [OF it'(2,3)] .
  then have e: "NextEntryOffset it' = Some (block_off kvs shs (Suc i))" by (simp add: bi_ready_def)
  show ?case
  proof (cases "Suc i < j")
    case True
    then have "block_off kvs shs (Suc i) < block_off kvs shs j"
      using block_off_less_iff [OF l, of "Suc i" j] Suc.prems i by simp
    then show ?thesis
      using Suc.hyps(1) [of "Suc i" it'] Suc.hyps(2) Suc.prems True it'(1,2) rd e
      by (subst parse_until.simps) simp
  next
    case False
    then have "j = Suc i" using Suc.prems by simp
    then show ?thesis using it' e by (subst parse_until.simps) simp
  qed
qed simp

lemma Prev_restart_over:
  assumes "bi_over cmp D kvs shs rs it" "i < length kvs" "ri < length rs"
  shows "\<exists>r. Prev_restart it (block_off kvs shs i) ri = Some r \<and>
    (case r of None \<Rightarrow> i = 0 | Some j \<Rightarrow> j < length rs \<and> rs ! j < i)"
  using assms(3)
proof (induction ri)
  case 0
  have ok: "block_ok cmp D kvs shs rs" using assms by (simp add: bi_over_def)
  have "rs ! 0 = 0" using restart_0 [OF ok] .
  moreover have "block_off kvs shs i = 0 \<longleftrightarrow> i = 0"
    using block_off_less_iff [OF block_ok_lengths(1) [OF ok], of 0 i] assms(2) by auto
  ultimately show ?case
    using GetRestartPoint_over [OF assms(1) 0] 0 by (cases "i = 0") auto
next
  case (Suc ri)
  have ok: "block_ok cmp D kvs shs rs" using assms by (simp add: bi_over_def)
  have "block_off kvs shs (rs ! Suc ri) < block_off kvs shs i \<longleftrightarrow> rs ! Suc ri < i"
    using block_off_less_iff [OF block_ok_lengths(1) [OF ok] restart_le [OF ok Suc.prems]] assms(2) by simp
  then show ?case
    using Suc GetRestartPoint_over [OF assms(1) Suc.prems] by (cases "rs ! Suc ri < i") auto
qed

section \<open>Seeking\<close>

lemma seek_linear_ready:
  assumes "key_order cmp D" "bi_over cmp D kvs shs rs it" "bi_ready kvs shs rs it i" "D target"
    "i \<le> lower_bound cmp kvs target"
  shows "\<exists>it'. seek_linear target it = Some it' \<and> bi_over cmp D kvs shs rs it' \<and>
    (case pos_of kvs (lower_bound cmp kvs target) of None \<Rightarrow> bi_invalid it' | Some j \<Rightarrow> bi_at kvs shs rs it' j)"
  using assms(2,3,5)
proof (induction "length kvs - i" arbitrary: i it)
  case 0
  have lb: "lower_bound cmp kvs target \<le> length kvs" by (rule lower_bound_le)
  then have i: "i = length kvs" using 0 by linarith
  then obtain it' where "ParseNextKey it = Some (False, it')" "bi_over cmp D kvs shs rs it'" "bi_invalid it'"
    using ParseNextKey_ready [OF 0(2,3)] by auto
  then show ?case using 0(4) lb i by (subst seek_linear.simps) (simp add: pos_of_def)
next
  case (Suc n)
  then have i: "i < length kvs" by linarith
  have srt: "sorted_kvs cmp D kvs" and c: "\<And>it. bi_over cmp D kvs shs rs it \<Longrightarrow> Compare (bi_comparator it) = cmp"
    using Suc.prems(1) by (auto simp: bi_over_def block_ok_def)
  obtain it' where it': "ParseNextKey it = Some (True, it')" "bi_over cmp D kvs shs rs it'" "bi_at kvs shs rs it' i"
    using ParseNextKey_ready [OF Suc.prems(1,2)] i by auto
  have k: "bi_key it' = fst (kvs ! i)" using it'(3) by (simp add: bi_at_def)
  have lb: "cmp (fst (kvs ! i)) target < 0 \<longleftrightarrow> i < lower_bound cmp kvs target"
    by (rule lower_bound_iff [OF assms(1) srt assms(4) i])
  show ?case
  proof (cases "i < lower_bound cmp kvs target")
    case True
    then have "\<exists>it''. seek_linear target it' = Some it'' \<and> bi_over cmp D kvs shs rs it'' \<and>
        (case pos_of kvs (lower_bound cmp kvs target) of None \<Rightarrow> bi_invalid it'' | Some j \<Rightarrow> bi_at kvs shs rs it'' j)"
      using Suc.hyps(1) [of "Suc i" it'] Suc.hyps(2) it'(2) bi_at_ready [OF it'(2,3)] by simp
    moreover have "seek_linear target it = seek_linear target it'"
      using True lb k it'(1) c [OF it'(2)] by (subst seek_linear.simps) simp
    ultimately show ?thesis by simp
  next
    case False
    then have "lower_bound cmp kvs target = i" using Suc.prems(3) by simp
    then show ?thesis
      using lb k it' c [OF it'(2)] i by (subst seek_linear.simps) (simp add: pos_of_def)
  qed
qed

lemma seek_search_over:
  assumes "key_order cmp D" "bi_over cmp D kvs shs rs it" "D target"
  shows "l \<le> r \<Longrightarrow> r < length rs \<Longrightarrow> rs ! l \<le> lower_bound cmp kvs target \<Longrightarrow>
    \<exists>l'. seek_search it target l r = Some (Inr l') \<and> l' < length rs \<and> rs ! l' \<le> lower_bound cmp kvs target"
proof (induction "r - l" arbitrary: l r rule: less_induct)
  case less
  show ?case
  proof (cases "l < r")
    case False
    then show ?thesis using less.prems by (subst seek_search.simps) simp
  next
    case True
    let ?mid = "(l + r + 1) div 2"
    have mid: "0 < ?mid" "l < ?mid" "?mid \<le> r" "?mid < length rs" using True less.prems by auto
    have ok: "block_ok cmp D kvs shs rs" and c: "Compare (bi_comparator it) = cmp"
      using assms(2) by (auto simp: bi_over_def)
    note l = block_ok_lengths [OF ok]
    have i: "rs ! ?mid < length kvs" and sh: "shs ! (rs ! ?mid) = 0" using restart_pos [OF ok mid(1,4)] by auto
    let ?k = "fst (kvs ! (rs ! ?mid))"
    obtain p where p: "DecodeEntry (bi_data it) (block_off kvs shs (rs ! ?mid)) (bi_restarts it) =
        Some (0, of_nat (length ?k), of_nat (length (snd (kvs ! (rs ! ?mid)))), p)"
      "p + length ?k + length (snd (kvs ! (rs ! ?mid))) = block_off kvs shs (Suc (rs ! ?mid))"
      "take (length ?k) (drop p (bi_data it)) = ?k"
      using DecodeEntry_over [OF assms(2) i] unfolding sh by auto
    have "block_off kvs shs (Suc (rs ! ?mid)) \<le> block_off kvs shs (length kvs)"
      using block_off_le_length [OF l(1)] by (simp add: block_off_end [OF l(1)])
    then have u: "unat (of_nat (length ?k) :: u32) = length ?k" and bound: "\<not> length (bi_data it) < p + length ?k"
      using p(2) l assms(2) by (auto simp: bi_over_def intro: unat_of_nat_u32)
    have eq: "seek_search it target l r =
        (if cmp ?k target < 0 then seek_search it target ?mid r else seek_search it target l (?mid - 1))"
      using True GetRestartPoint_over [OF assms(2) mid(4)] p(1,3) u bound c
      by (subst seek_search.simps) (simp add: Let_def)
    have "cmp ?k target < 0 \<longleftrightarrow> rs ! ?mid < lower_bound cmp kvs target"
      using ok by (intro lower_bound_iff [OF assms(1) _ assms(3) i]) (simp add: block_ok_def)
    then show ?thesis
      using less.hyps [of r ?mid] less.hyps [of "?mid - 1" l] mid less.prems unfolding eq
      by (cases "cmp ?k target < 0") auto
  qed
qed

section \<open>The iterator fulfils the contract\<close>

definition bi_rep ::
  "(bytes \<Rightarrow> bytes \<Rightarrow> int) \<Rightarrow> (bytes \<Rightarrow> bool) \<Rightarrow> (bytes \<times> bytes) list \<Rightarrow> BlockIter \<Rightarrow> nat option \<Rightarrow> bool" where
  "bi_rep cmp D kvs it p \<longleftrightarrow> (\<exists>shs rs. bi_over cmp D kvs shs rs it \<and>
     (case p of None \<Rightarrow> bi_invalid it | Some i \<Rightarrow> bi_at kvs shs rs it i))"

lemma bi_repI: "bi_over cmp D kvs shs rs it \<Longrightarrow> (case p of None \<Rightarrow> bi_invalid it | Some i \<Rightarrow> bi_at kvs shs rs it i) \<Longrightarrow> bi_rep cmp D kvs it p"
  by (auto simp: bi_rep_def)

lemma bi_at_Valid:
  assumes "bi_over cmp D kvs shs rs it" "bi_at kvs shs rs it i"
  shows "bi_Valid it"
proof -
  have ok: "block_ok cmp D kvs shs rs" using assms by (simp add: bi_over_def)
  show ?thesis
    using assms block_off_less_iff [OF block_ok_lengths(1) [OF ok], of i "length kvs"]
    by (simp add: bi_at_def bi_over_def bi_Valid_def)
qed

lemma bi_parse_rep:
  assumes "bi_over cmp D kvs shs rs it" "bi_ready kvs shs rs it i"
  shows "\<exists>it'. map_option snd (ParseNextKey it) = Some it' \<and> bi_rep cmp D kvs it' (pos_of kvs i)"
  using ParseNextKey_ready [OF assms] by (auto simp: pos_of_def intro!: bi_repI split: if_splits)

lemma bi_SeekToFirst_rep:
  assumes "bi_over cmp D kvs shs rs it"
  shows "\<exists>it'. bi_SeekToFirst it = Some it' \<and> bi_rep cmp D kvs it' (pos_of kvs 0)"
proof -
  have ok: "block_ok cmp D kvs shs rs" using assms by (simp add: bi_over_def)
  then have 0: "0 < length rs" by (simp add: block_ok_def restarts_ok_def)
  obtain it1 where it1: "SeekToRestartPoint 0 it = Some it1" "bi_over cmp D kvs shs rs it1" "bi_ready kvs shs rs it1 0"
    using SeekToRestartPoint_ready [OF assms 0] restart_0 [OF ok] by auto
  from bi_parse_rep [OF it1(2,3)] it1(1) show ?thesis by (simp add: bi_SeekToFirst_def)
qed

lemma bi_SeekToLast_rep:
  assumes "bi_over cmp D kvs shs rs it"
  shows "\<exists>it'. bi_SeekToLast it = Some it' \<and> bi_rep cmp D kvs it' (pos_before (length kvs))"
proof -
  have ok: "block_ok cmp D kvs shs rs" using assms by (simp add: bi_over_def)
  then have last: "length rs - 1 < length rs" by (simp add: block_ok_def restarts_ok_def)
  obtain it1 where it1: "SeekToRestartPoint (length rs - 1) it = Some it1" "bi_over cmp D kvs shs rs it1"
    "bi_ready kvs shs rs it1 (rs ! (length rs - 1))"
    using SeekToRestartPoint_ready [OF assms last] by auto
  have r: "bi_restarts it1 = block_off kvs shs (length kvs)" "bi_num_restarts it = length rs"
    using it1(2) assms by (auto simp: bi_over_def)
  show ?thesis
  proof (cases "rs ! (length rs - 1) < length kvs")
    case True
    from parse_until_ready [OF it1(2,3) True order.refl] True show ?thesis
      using it1(1) r by (auto simp: bi_SeekToLast_def pos_before_def intro!: bi_repI)
  next
    case False
    then have e: "rs ! (length rs - 1) = length kvs" using restart_le [OF ok last] by simp
    then have "length kvs = 0" using restart_pos(1) [OF ok _ last] restart_0 [OF ok] by (cases "length rs - 1 = 0") auto
    moreover obtain it2 where "ParseNextKey it1 = Some (False, it2)" "bi_over cmp D kvs shs rs it2" "bi_invalid it2"
      using ParseNextKey_ready [OF it1(2,3)] e by auto
    ultimately show ?thesis
      using it1(1) r by (auto simp: bi_SeekToLast_def pos_before_def parse_until.simps intro!: bi_repI)
  qed
qed

lemma bi_Prev_rep:
  assumes over: "bi_over cmp D kvs shs rs it" and at: "bi_at kvs shs rs it i"
  shows "\<exists>it'. bi_Prev it = Some it' \<and> bi_rep cmp D kvs it' (pos_before i)"
proof -
  have i: "i < length kvs" "bi_current it = block_off kvs shs i" "bi_restart_index it < length rs"
    using at by (auto simp: bi_at_def index_ok_def)
  obtain r where r: "Prev_restart it (block_off kvs shs i) (bi_restart_index it) = Some r"
    "case r of None \<Rightarrow> i = 0 | Some j \<Rightarrow> j < length rs \<and> rs ! j < i"
    using Prev_restart_over [OF over i(1,3)] by blast
  show ?thesis
  proof (cases r)
    case None
    then show ?thesis
      using r i bi_at_Valid [OF over at] over
      by (auto simp: bi_Prev_def pos_before_def bi_invalid_def bi_over_def intro!: bi_repI [of _ _ _ shs rs])
  next
    case (Some j)
    then have j: "j < length rs" "rs ! j < i" using r(2) by auto
    obtain it1 where it1: "SeekToRestartPoint j it = Some it1" "bi_over cmp D kvs shs rs it1" "bi_ready kvs shs rs it1 (rs ! j)"
      using SeekToRestartPoint_ready [OF over j(1)] by auto
    obtain it2 where "parse_until (block_off kvs shs i) it1 = Some it2" "bi_over cmp D kvs shs rs it2" "bi_at kvs shs rs it2 (i - 1)"
      using parse_until_ready [OF it1(2,3) j(2)] i(1) by auto
    then show ?thesis
      using r(1) Some it1(1) i bi_at_Valid [OF over at] j(2)
      by (auto simp: bi_Prev_def pos_before_def Let_def intro!: bi_repI)
  qed
qed

lemma seek_linear_rep:
  assumes "key_order cmp D" "bi_over cmp D kvs shs rs it" "bi_ready kvs shs rs it i" "D target"
    "i \<le> lower_bound cmp kvs target"
  shows "\<exists>it'. seek_linear target it = Some it' \<and> bi_rep cmp D kvs it' (pos_of kvs (lower_bound cmp kvs target))"
  using seek_linear_ready [OF assms] bi_repI by blast

lemma seek_from_restart:
  assumes "key_order cmp D" "bi_over cmp D kvs shs rs it" "D target" "j < length rs" "rs ! j \<le> lower_bound cmp kvs target"
  shows "\<exists>it'. SeekToRestartPoint j it \<bind> seek_linear target = Some it' \<and>
    bi_rep cmp D kvs it' (pos_of kvs (lower_bound cmp kvs target))"
proof -
  obtain it1 where it1: "SeekToRestartPoint j it = Some it1" "bi_over cmp D kvs shs rs it1" "bi_ready kvs shs rs it1 (rs ! j)"
    using SeekToRestartPoint_ready [OF assms(2,4)] by auto
  from seek_linear_rep [OF assms(1) it1(2,3) assms(3,5)] it1(1) show ?thesis by simp
qed

lemma bi_Seek_invalid:
  assumes "key_order cmp D" "bi_over cmp D kvs shs rs it" "D target" "bi_invalid it"
  shows "\<exists>it'. bi_Seek target it = Some it' \<and> bi_rep cmp D kvs it' (pos_of kvs (lower_bound cmp kvs target))"
proof -
  have ok: "block_ok cmp D kvs shs rs" and n: "bi_num_restarts it = length rs" using assms(2) by (auto simp: bi_over_def)
  then have "0 < length rs" by (simp add: block_ok_def restarts_ok_def)
  then obtain j where "seek_search it target 0 (length rs - 1) = Some (Inr j)" "j < length rs" "rs ! j \<le> lower_bound cmp kvs target"
    using seek_search_over [OF assms(1-3), of 0 "length rs - 1"] restart_0 [OF ok] by auto
  moreover have "\<not> bi_Valid it" using assms(4) by (simp add: bi_invalid_def bi_Valid_def)
  ultimately show ?thesis
    using seek_from_restart [OF assms(1-3)] n by (simp add: bi_Seek_def)
qed

lemma bi_Seek_at:
  assumes "key_order cmp D" "bi_over cmp D kvs shs rs it" "D target" "bi_at kvs shs rs it i"
  shows "\<exists>it'. bi_Seek target it = Some it' \<and> bi_rep cmp D kvs it' (pos_of kvs (lower_bound cmp kvs target))"
proof -
  let ?lb = "lower_bound cmp kvs target" and ?k = "fst (kvs ! i)" and ?ri = "bi_restart_index it"
  have ok: "block_ok cmp D kvs shs rs" and n: "bi_num_restarts it = length rs" and c: "Compare (bi_comparator it) = cmp"
    using assms(2) by (auto simp: bi_over_def)
  have srt: "sorted_kvs cmp D kvs" using ok by (simp add: block_ok_def)
  have i: "i < length kvs" "bi_key it = ?k" "?ri < length rs" "rs ! ?ri \<le> i"
    using assms(4) by (auto simp: bi_at_def index_ok_def)
  have v: "bi_Valid it" using bi_at_Valid [OF assms(2,4)] .
  note lb = lower_bound_iff [OF assms(1) srt assms(3) i(1)]
  consider "cmp ?k target = 0" | "cmp ?k target < 0" | "0 < cmp ?k target" by linarith
  then show ?thesis
  proof cases
    case 1
    have "cmp (fst (kvs ! j)) target < 0" if "j < i" for j
      using key_order.less_le_trans [OF assms(1), of "fst (kvs ! j)" ?k target] sorted_kvs_less [OF srt that i(1)]
        sorted_kvs_key [OF srt] i(1) that assms(3) 1 by simp
    then have "?lb = i" using i(1) 1 by (intro lower_bound_eqI [OF assms(1) srt assms(3)]) auto
    then show ?thesis
      using 1 v c i assms(2,4) by (auto simp: bi_Seek_def pos_of_def intro!: bi_repI [of _ _ _ shs rs])
  next
    case 2
    then have "i < ?lb" using lb by simp
    moreover have "?ri \<le> length rs - 1" "length rs - 1 < length rs" using i(3) by linarith+
    ultimately obtain j where j: "seek_search it target ?ri (length rs - 1) = Some (Inr j)" "j < length rs" "rs ! j \<le> ?lb"
      using seek_search_over [OF assms(1-3), of ?ri "length rs - 1"] i(4) by auto
    show ?thesis
    proof (cases "j = ?ri")
      case True
      then show ?thesis
        using 2 v c i n j(1) seek_linear_rep [OF assms(1,2) bi_at_ready [OF assms(2,4)] assms(3)] \<open>i < ?lb\<close>
        by (simp add: bi_Seek_def)
    next
      case False
      then show ?thesis
        using 2 v c i n j(1) seek_from_restart [OF assms(1-3) j(2,3)] by (simp add: bi_Seek_def)
    qed
  next
    case 3
    obtain j where j: "seek_search it target 0 ?ri = Some (Inr j)" "j < length rs" "rs ! j \<le> ?lb"
      using seek_search_over [OF assms(1-3), of 0 ?ri] i restart_0 [OF ok] by auto
    then show ?thesis
      using 3 v c i seek_from_restart [OF assms(1-3) j(2,3)] by (simp add: bi_Seek_def)
  qed
qed

sublocale comparator \<subseteq> block: iterator BlockIterator "Compare c" dom "bi_rep (Compare c) dom"
proof unfold_locales
  fix kvs it p i k
  note BI [simp] = BlockIterator_def
  show "bi_rep (Compare c) dom kvs it (Some i) \<Longrightarrow> i < length kvs"
    by (auto simp: bi_rep_def bi_at_def)
  show "bi_rep (Compare c) dom kvs it p \<Longrightarrow> sorted_kvs (Compare c) dom kvs"
    by (auto simp: bi_rep_def bi_over_def block_ok_def)
  show "bi_rep (Compare c) dom kvs it p \<Longrightarrow> it_Valid BlockIterator it \<longleftrightarrow> p \<noteq> None"
    using bi_at_Valid by (cases p) (auto simp: bi_rep_def bi_invalid_def bi_Valid_def)
  show "bi_rep (Compare c) dom kvs it (Some i) \<Longrightarrow> it_key BlockIterator it = Some (fst (kvs ! i))"
    using bi_at_Valid by (auto simp: bi_rep_def bi_get_key_def bi_at_def)
  show "bi_rep (Compare c) dom kvs it p \<Longrightarrow> it_status BlockIterator it = OK"
    by (auto simp: bi_rep_def bi_over_def)
  show "bi_rep (Compare c) dom kvs it p \<Longrightarrow> \<exists>it'. it_SeekToFirst BlockIterator it = Some it' \<and>
      bi_rep (Compare c) dom kvs it' (pos_of kvs 0)"
    using bi_SeekToFirst_rep by (auto simp: bi_rep_def [of _ _ _ it])
  show "bi_rep (Compare c) dom kvs it p \<Longrightarrow> \<exists>it'. it_SeekToLast BlockIterator it = Some it' \<and>
      bi_rep (Compare c) dom kvs it' (pos_before (length kvs))"
    using bi_SeekToLast_rep by (auto simp: bi_rep_def [of _ _ _ it])
  show "bi_rep (Compare c) dom kvs it (Some i) \<Longrightarrow> \<exists>it'. it_Prev BlockIterator it = Some it' \<and>
      bi_rep (Compare c) dom kvs it' (pos_before i)"
    using bi_Prev_rep by (auto simp: bi_rep_def [of _ _ _ it])
  show "bi_rep (Compare c) dom kvs it (Some i) \<Longrightarrow> \<exists>it'. it_Next BlockIterator it = Some it' \<and>
      bi_rep (Compare c) dom kvs it' (pos_of kvs (Suc i))"
    using bi_at_Valid bi_at_ready bi_parse_rep by (fastforce simp: bi_rep_def [of _ _ _ it] bi_Next_def)
  show "bi_rep (Compare c) dom kvs it p \<Longrightarrow> dom k \<Longrightarrow> \<exists>it'. it_Seek BlockIterator k it = Some it' \<and>
      bi_rep (Compare c) dom kvs it' (pos_of kvs (lower_bound (Compare c) kvs k))"
    using bi_Seek_invalid [OF key_order_axioms] bi_Seek_at [OF key_order_axioms]
    by (cases p) (auto simp: bi_rep_def [of _ _ _ it])
  show "bi_rep (Compare c) dom kvs it (Some i) \<Longrightarrow> it_value BlockIterator it = Some (snd (kvs ! i))"
  proof -
    assume "bi_rep (Compare c) dom kvs it (Some i)"
    then obtain shs rs where over: "bi_over (Compare c) dom kvs shs rs it" and at: "bi_at kvs shs rs it i"
      by (auto simp: bi_rep_def)
    have i: "i < length kvs" using at by (simp add: bi_at_def)
    have ok: "block_ok (Compare c) dom kvs shs rs" using over by (simp add: bi_over_def)
    note l = block_ok_lengths [OF ok]
    have "block_off kvs shs (Suc i) \<le> length (bi_data it)" "length (snd (kvs ! i)) \<le> block_off kvs shs (Suc i)"
      using block_off_le_length [OF l(1), of "Suc i"] l(2) over block_off_Suc [OF l(1) i]
      by (auto simp: block_off_end [OF l(1)] bi_over_def entry_rec_def)
    then show ?thesis
      using DecodeEntry_over [OF over i] at bi_at_Valid [OF over at] by (auto simp: bi_get_value_def bi_at_def)
  qed
qed

context comparator
begin

lemma block_iterator: "iterator BlockIterator (Compare c) dom (bi_rep (Compare c) dom)"
  by unfold_locales

end

section \<open>A finished block encodes the entries added\<close>

lemma shared_loop_spec:
  "shared \<le> n \<Longrightarrow> n \<le> length a \<Longrightarrow> n \<le> length b \<Longrightarrow> take shared a = take shared b \<Longrightarrow>
   shared_loop a b n shared \<le> n \<and> take (shared_loop a b n shared) a = take (shared_loop a b n shared) b"
proof (induction a b n shared rule: shared_loop.induct)
  case (1 a b n shared)
  show ?case
  proof (cases "shared < n \<and> a ! shared = b ! shared")
    case True
    then have "take (Suc shared) a = take (Suc shared) b" using 1 by (simp add: take_Suc_conv_app_nth)
    then show ?thesis using 1 True by (subst (1 2 3) shared_loop.simps) simp
  next
    case False
    then have "shared_loop a b n shared = shared" by (subst shared_loop.simps) (simp only: if_False)
    then show ?thesis using 1 by simp
  qed
qed

definition bb_inv :: "BlockBuilder \<Rightarrow> (bytes \<times> bytes) list \<Rightarrow> nat list \<Rightarrow> nat list \<Rightarrow> bool" where
  "bb_inv b kvs shs rs \<longleftrightarrow> bb_buffer b = concat (block_recs kvs shs) \<and>
     bb_restarts b = map (\<lambda>r. of_nat (block_off kvs shs r)) rs \<and> shares_ok kvs shs \<and>
     restarts_ok shs (length kvs) rs \<and> bb_last_key b = (if kvs = [] then [] else fst (last kvs)) \<and>
     \<not> bb_finished b \<and> bb_counter b \<le> block_restart_interval (bb_options b) \<and>
     1 \<le> block_restart_interval (bb_options b) \<and> (kvs = [] \<longrightarrow> bb_counter b = 0)"

lemma block_recs_snoc: "length shs = length kvs \<Longrightarrow> block_recs (kvs @ [kv]) (shs @ [sh]) = block_recs kvs shs @ [entry_rec sh kv]"
  by (simp add: block_recs_def)

lemma block_off_snoc: "length shs = length kvs \<Longrightarrow> i \<le> length kvs \<Longrightarrow> block_off (kvs @ [kv]) (shs @ [sh]) i = block_off kvs shs i"
  by (simp add: block_off_def block_recs_snoc)

lemma shares_ok_snoc:
  assumes "shares_ok kvs shs" "sh \<le> length k" "kvs = [] \<Longrightarrow> sh = 0"
    "kvs \<noteq> [] \<Longrightarrow> sh \<le> length (fst (last kvs)) \<and> take sh (fst (last kvs)) = take sh k"
  shows "shares_ok (kvs @ [(k, v)]) (shs @ [sh])"
  using assms by (auto simp: shares_ok_def nth_append less_Suc_eq last_conv_nth)

lemma buffer_empty_iff: "length shs = length kvs \<Longrightarrow> concat (block_recs kvs shs) = [] \<longleftrightarrow> kvs = []"
proof -
  assume l: "length shs = length kvs"
  have "3 \<le> length (concat (block_recs kvs shs))" if "kvs \<noteq> []"
    using block_off_less [OF l, of "length kvs" 0] that unfolding block_off_end [OF l] by simp
  moreover have "kvs = [] \<Longrightarrow> concat (block_recs kvs shs) = []" by (simp add: block_recs_def)
  ultimately show ?thesis by (metis list.size(3) not_numeral_le_zero)
qed

lemma bb_Add_inv:
  assumes inv: "bb_inv b kvs shs rs"
    and gt: "kvs \<noteq> [] \<Longrightarrow> 0 < Compare (opt_comparator (bb_options b)) k (fst (last kvs))"
  shows "\<exists>b' shs' rs'. bb_Add k v b = Some b' \<and> bb_options b' = bb_options b \<and> bb_inv b' (kvs @ [(k, v)]) shs' rs'"
proof -
  let ?lk = "bb_last_key b" and ?I = "block_restart_interval (bb_options b)"
  let ?go = "bb_counter b < ?I"
  define sh where "sh = (if ?go then shared_loop ?lk k (min (length ?lk) (length k)) 0 else 0)"
  define rs' where "rs' = (if ?go then rs else rs @ [length kvs])"
  have l: "length shs = length kvs" using inv by (simp add: bb_inv_def shares_ok_def)
  have sl: "sh \<le> length ?lk" "sh \<le> length k" "take sh ?lk = take sh k"
    using shared_loop_spec [of 0 "min (length ?lk) (length k)" ?lk k] by (auto simp: sh_def)
  have lk: "?lk = (if kvs = [] then [] else fst (last kvs))" using inv by (simp add: bb_inv_def)
  have ne: "\<not> ?go \<Longrightarrow> kvs \<noteq> []" using inv by (auto simp: bb_inv_def)
  have shares: "shares_ok (kvs @ [(k, v)]) (shs @ [sh])"
    using inv sl lk by (intro shares_ok_snoc) (auto simp: bb_inv_def)
  have sh0: "kvs = [] \<Longrightarrow> sh = 0" "\<not> ?go \<Longrightarrow> sh = 0" using sl(1) lk by (auto simp: sh_def)
  have restarts: "restarts_ok (shs @ [sh]) (length (kvs @ [(k, v)])) rs'"
    using inv ne l sh0 by (auto simp: bb_inv_def restarts_ok_def rs'_def nth_append sorted_wrt_append)
  have guard: "bb_buffer b = [] \<or> 0 < Compare (opt_comparator (bb_options b)) k ?lk"
    using gt lk buffer_empty_iff [OF l] inv by (cases "kvs = []") (auto simp: bb_inv_def)
  have last: "take sh ?lk @ drop sh k = k" using sl(3) by simp
  define b' where "b' = b\<lparr>bb_restarts := (if ?go then bb_restarts b else bb_restarts b @ [of_nat (length (bb_buffer b))]),
      bb_buffer := bb_buffer b @ entry_rec sh (k, v), bb_last_key := k, bb_counter := (if ?go then bb_counter b else 0) + 1\<rparr>"
  have "bb_Add k v b = Some b'"
    using guard inv last
    by (auto simp: bb_Add_def b'_def sh_def bb_inv_def PutVarint32_def entry_rec_def entry_header_def Let_def)
  moreover have "bb_inv b' (kvs @ [(k, v)]) (shs @ [sh]) rs'"
  proof -
    have "map (\<lambda>r. of_nat (block_off kvs shs r) :: u32) rs = map (\<lambda>r. of_nat (block_off (kvs @ [(k, v)]) (shs @ [sh]) r)) rs"
    proof (intro map_cong refl)
      fix r assume "r \<in> set rs"
      moreover have "restarts_ok shs (length kvs) rs" using inv by (simp add: bb_inv_def)
      ultimately have "r \<le> length kvs" by (rule restarts_ok_le [rotated])
      then show "of_nat (block_off kvs shs r) = (of_nat (block_off (kvs @ [(k, v)]) (shs @ [sh]) r) :: u32)"
        by (simp add: block_off_snoc [OF l])
    qed
    then show ?thesis
      using inv shares restarts block_off_snoc [OF l, of "length kvs"] block_off_end [OF l]
      by (auto simp: bb_inv_def b'_def rs'_def block_recs_snoc [OF l])
  qed
  ultimately show ?thesis by (intro exI [of _ b'] exI [of _ "shs @ [sh]"] exI [of _ rs']) (simp add: b'_def)
qed

lemma new_BlockBuilder_inv:
  assumes "1 \<le> block_restart_interval opts"
  shows "\<exists>b0. new_BlockBuilder opts = Some b0 \<and> bb_options b0 = opts \<and> bb_inv b0 [] [] [0]"
  using assms by (simp add: new_BlockBuilder_def bb_inv_def block_recs_def shares_ok_def restarts_ok_def)

fun bb_Add_all :: "(bytes \<times> bytes) list \<Rightarrow> BlockBuilder \<Rightarrow> BlockBuilder option" where
  "bb_Add_all [] b = Some b"
| "bb_Add_all ((k, v) # kvs) b = do { b' \<leftarrow> bb_Add k v b; bb_Add_all kvs b' }"

lemma bb_Add_all_inv:
  assumes "bb_inv b kvs0 shs rs" "comparator (opt_comparator (bb_options b)) D"
    "sorted_kvs (Compare (opt_comparator (bb_options b))) D (kvs0 @ kvs)"
  shows "\<exists>b' shs' rs'. bb_Add_all kvs b = Some b' \<and> bb_options b' = bb_options b \<and> bb_inv b' (kvs0 @ kvs) shs' rs'"
  using assms
proof (induction kvs arbitrary: b kvs0 shs rs)
  case (Cons kv kvs)
  obtain k v where kv: "kv = (k, v)" by (cases kv)
  have "0 < Compare (opt_comparator (bb_options b)) k (fst (last kvs0))" if "kvs0 \<noteq> []"
  proof -
    have "Compare (opt_comparator (bb_options b)) (fst (last kvs0)) k < 0" "D (fst (last kvs0))" "D k"
      using Cons.prems(3) that kv by (auto simp: sorted_kvs_def sorted_wrt_append)
    then show ?thesis using comparator.compare_sign [OF Cons.prems(2)] by blast
  qed
  then obtain b1 shs1 rs1 where b1: "bb_Add k v b = Some b1" "bb_options b1 = bb_options b" "bb_inv b1 (kvs0 @ [(k, v)]) shs1 rs1"
    using bb_Add_inv [OF Cons.prems(1)] by blast
  have "\<exists>b' shs' rs'. bb_Add_all kvs b1 = Some b' \<and> bb_options b' = bb_options b1 \<and> bb_inv b' ((kvs0 @ [(k, v)]) @ kvs) shs' rs'"
    using Cons.prems(2,3) b1(2) kv by (intro Cons.IH [OF b1(3)]) simp_all
  then show ?case using b1(1,2) kv by simp
qed auto

lemma bb_Finish_bytes:
  assumes "bb_inv b kvs shs rs"
  shows "fst (bb_Finish b) = block_bytes kvs shs rs" "bb_CurrentSizeEstimate b = length (fst (bb_Finish b))"
proof -
  have "fold (\<lambda>r buf. PutFixed32 buf r) xs buf = buf @ concat (map EncodeFixed32 xs)" for xs buf
    by (induction xs arbitrary: buf) (simp_all add: PutFixed32_def)
  then show *: "fst (bb_Finish b) = block_bytes kvs shs rs"
    using assms by (simp add: bb_Finish_def bb_inv_def block_bytes_def restart_array_def PutFixed32_def Let_def comp_def)
  show "bb_CurrentSizeEstimate b = length (fst (bb_Finish b))"
    unfolding * using assms by (simp add: bb_CurrentSizeEstimate_def bb_inv_def block_bytes_def)
qed

lemma NewIterator_rep:
  assumes "block_ok (Compare c) D kvs shs rs"
  shows "\<exists>it. Block_NewIterator c (new_Block (block_bytes kvs shs rs)) = Some (Inr it) \<and> bi_rep (Compare c) D kvs it None"
proof -
  note l = block_ok_lengths [OF assms]
  let ?d = "block_bytes kvs shs rs"
  have "drop (length ?d - 4) ?d = EncodeFixed32 (of_nat (length rs))" by (simp add: block_bytes_def)
  then have n: "NumRestarts ?d (length ?d) = Some (of_nat (length rs))"
    using l(2) DecodeFixed32_Encode [of "of_nat (length rs)" "[]"] by (simp add: NumRestarts_def)
  have u: "unat (of_nat (length rs) :: u32) = length rs" using l(3) by (intro unat_of_nat_u32) linarith
  have rs: "0 < length rs" using assms by (simp add: block_ok_def restarts_ok_def)
  then have nz: "(of_nat (length rs) :: u32) \<noteq> 0" using u by (metis less_numeral_extra(3) unat_0)
  have "new_Block ?d = \<lparr>b_data = ?d, b_size = length ?d, b_restart_offset = block_off kvs shs (length kvs)\<rparr>"
    using l(2) n u by (simp add: new_Block_def Let_def)
  then show ?thesis
    using n nz u rs l(2) assms
    by (auto simp: Block_NewIterator_def new_BlockIter_def bi_over_def bi_invalid_def intro!: bi_repI)
qed

section \<open>Properties\<close>

text \<open>
  C3. Blocks round-trip: building a block from sorted entries never fails and the size estimate is
  its size; reading it back yields exactly the entries, forwards from the first and backwards
  from the last, and a seek finds the first entry that is not before its target.
\<close>

theorem block_roundtrip:
  assumes "comparator (opt_comparator opts) D" "1 \<le> block_restart_interval opts"
    and "sorted_kvs (Compare (opt_comparator opts)) D kvs"
  shows "\<exists>b0 b. new_BlockBuilder opts = Some b0 \<and> bb_Add_all kvs b0 = Some b \<and>
    bb_CurrentSizeEstimate b = length (fst (bb_Finish b)) \<and>
    (bb_CurrentSizeEstimate b < 2 ^ 32 \<longrightarrow>
      (\<exists>it. Block_NewIterator (opt_comparator opts) (new_Block (fst (bb_Finish b))) = Some (Inr it) \<and>
        (bi_SeekToFirst it \<bind> it_collect BlockIterator) = Some kvs \<and>
        (bi_SeekToLast it \<bind> it_collect_back BlockIterator) = Some (rev kvs) \<and>
        (\<forall>k. D k \<longrightarrow> (bi_Seek k it \<bind> it_collect BlockIterator) =
          Some (dropWhile (\<lambda>kv. Compare (opt_comparator opts) (fst kv) k < 0) kvs))))"
proof -
  let ?c = "opt_comparator opts"
  obtain b0 where b0: "new_BlockBuilder opts = Some b0" "bb_options b0 = opts" "bb_inv b0 [] [] [0]"
    using new_BlockBuilder_inv [OF assms(2)] by blast
  obtain b shs rs where b: "bb_Add_all kvs b0 = Some b" "bb_inv b kvs shs rs"
    using bb_Add_all_inv [OF b0(3), of D kvs] assms b0(2) by auto
  note fin = bb_Finish_bytes [OF b(2)]
  have "\<exists>it. Block_NewIterator ?c (new_Block (fst (bb_Finish b))) = Some (Inr it) \<and>
        (bi_SeekToFirst it \<bind> it_collect BlockIterator) = Some kvs \<and>
        (bi_SeekToLast it \<bind> it_collect_back BlockIterator) = Some (rev kvs) \<and>
        (\<forall>k. D k \<longrightarrow> (bi_Seek k it \<bind> it_collect BlockIterator) = Some (dropWhile (\<lambda>kv. Compare ?c (fst kv) k < 0) kvs))"
    if small: "bb_CurrentSizeEstimate b < 2 ^ 32"
  proof -
    have ok: "block_ok (Compare ?c) D kvs shs rs" using assms(3) b(2) small fin by (simp add: block_ok_def bb_inv_def)
    obtain it where it: "Block_NewIterator ?c (new_Block (fst (bb_Finish b))) = Some (Inr it)" "bi_rep (Compare ?c) D kvs it None"
      using NewIterator_rep [OF ok] fin(1) by auto
    from iterator.collect_first [OF comparator.block_iterator [OF assms(1)] it(2)] it(1) show ?thesis
      by (auto simp: BlockIterator_def)
  qed
  then show ?thesis using b0(1) b(1) fin(2) by blast
qed

theorem block_roundtrip_witness:
  "\<exists>b0 b it. new_BlockBuilder default_Options = Some b0 \<and> bb_Add_all [([0x61, 0x61], [1]), ([0x61, 0x62], [2])] b0 = Some b \<and>
     bb_CurrentSizeEstimate b = 19 \<and>
     Block_NewIterator BytewiseComparator (new_Block (fst (bb_Finish b))) = Some (Inr it) \<and>
     (bi_Seek [0x61, 0x62] it \<bind> it_collect BlockIterator) = Some [([0x61, 0x62], [2])]"
proof -
  let ?kvs = "[([0x61, 0x61], [1]), ([0x61, 0x62], [2])] :: (bytes \<times> bytes) list"
  have c: "opt_comparator default_Options = BytewiseComparator" "1 \<le> block_restart_interval default_Options"
    by (simp_all add: default_Options_def)
  have srt: "sorted_kvs (Compare BytewiseComparator) (\<lambda>_. True) ?kvs"
    by (simp add: sorted_kvs_def BytewiseComparator_def)
  from block_roundtrip [of default_Options "\<lambda>_. True" ?kvs] c srt bytewise.comparator_axioms
  obtain b0 b where b: "new_BlockBuilder default_Options = Some b0" "bb_Add_all ?kvs b0 = Some b"
    "bb_CurrentSizeEstimate b < 2 ^ 32 \<longrightarrow>
      (\<exists>it. Block_NewIterator BytewiseComparator (new_Block (fst (bb_Finish b))) = Some (Inr it) \<and>
        (bi_Seek [0x61, 0x62] it \<bind> it_collect BlockIterator) =
          Some (dropWhile (\<lambda>kv. Compare BytewiseComparator (fst kv) [0x61, 0x62] < 0) ?kvs))"
    by auto
  have sz: "bb_CurrentSizeEstimate b = 19"
    using b(1,2)
    by (auto simp: new_BlockBuilder_def default_Options_def bb_Add_def Let_def PutVarint32_def
        EncodeVarint32_def bb_CurrentSizeEstimate_def shared_loop.simps BytewiseComparator_def)
  have "dropWhile (\<lambda>kv. Compare BytewiseComparator (fst kv) [0x61, 0x62] < 0) ?kvs = [([0x61, 0x62], [2])]"
    by (simp add: BytewiseComparator_def)
  with b sz show ?thesis by auto
qed

definition wrapping_block :: bytes where
  "wrapping_block =
     EncodeVarint32 0 @ EncodeVarint32 0xffffffff @ EncodeVarint32 1 @ EncodeFixed32 0 @ EncodeFixed32 1"

text \<open>
  C34. The bounds check of an entry can be passed by a corrupted block: the lengths of the key
  delta and the value are added in 32 bits. In this block of 15 bytes they are \<open>2 ^ 32 - 1\<close> and 1,
  the sum wraps to 0, the check succeeds and the iterator reads the key delta past the end of
  the block.
\<close>

theorem decode_entry_wraps:
  "\<exists>p. DecodeEntry wrapping_block 0 7 = Some (0, 0xffffffff, 1, p) \<and> length wrapping_block < p + unat (0xffffffff :: u32) \<and>
   (\<exists>it. Block_NewIterator BytewiseComparator (new_Block wrapping_block) = Some (Inr it) \<and> bi_SeekToFirst it = None)"
proof -
  have b: "wrapping_block = [0, 0xff, 0xff, 0xff, 0xff, 0x0f, 1, 0, 0, 0, 0, 1, 0, 0, 0]"
    by (simp add: wrapping_block_def EncodeVarint32_def EncodeFixed32_def)
  have d: "DecodeEntry wrapping_block 0 7 = Some (0, 0xffffffff, 1, 7)"
    by (simp add: DecodeEntry_def b GetVarint32Ptr_def GetVarint32PtrFallback_def Let_def)
  have n: "NumRestarts wrapping_block 15 = Some 1"
    by (simp add: NumRestarts_def b DecodeFixed32_def)
  have len: "length wrapping_block = 15" by (simp add: b)
  have blk: "new_Block wrapping_block = \<lparr>b_data = wrapping_block, b_size = 15, b_restart_offset = 7\<rparr>"
    using n by (simp add: new_Block_def len Let_def)
  let ?it = "\<lparr>bi_comparator = BytewiseComparator, bi_data = wrapping_block, bi_restarts = 7, bi_num_restarts = 1,
      bi_current = 7, bi_restart_index = 1, bi_key = [], bi_value = None, bi_status = OK\<rparr>"
  have it: "Block_NewIterator BytewiseComparator (new_Block wrapping_block) = Some (Inr ?it)"
    using n by (simp add: blk Block_NewIterator_def new_BlockIter_def)
  have "DecodeFixed32 (drop 7 wrapping_block) = 0" by (simp add: b DecodeFixed32_def)
  then have "bi_SeekToFirst ?it = None"
    using d by (simp add: bi_SeekToFirst_def SeekToRestartPoint_def GetRestartPoint_def ParseNextKey_def
        NextEntryOffset_def len Let_def)
  then show ?thesis
    using d it len by auto
qed

end
