(* ===== verification/Format.thy ===== *)
theory Format
  imports Coding Crc32c Env DbOptions "HOL-Library.Monad_Syntax"
begin

text \<open>
  \<open>table/format.h\<close> and \<open>table/format.cc\<close>: block handles, the footer of a table file and reading
  a block with its trailer. Sizes are 64-bit words, so that the sum of a size and the length
  of the trailer wraps as it does in the code.
\<close>

section \<open>Block handles\<close>

record BlockHandle =
  bh_offset :: u64
  bh_size :: u64

definition kMaxEncodedLength :: nat where
  "kMaxEncodedLength = 10 + 10"

definition new_BlockHandle :: BlockHandle where
  "new_BlockHandle = \<lparr>bh_offset = NOT 0, bh_size = NOT 0\<rparr>"

definition BlockHandle_EncodeTo :: "BlockHandle \<Rightarrow> bytes \<Rightarrow> bytes option" where
  "BlockHandle_EncodeTo h dst =
     (if bh_offset h = NOT 0 \<or> bh_size h = NOT 0 then None
      else Some (PutVarint64 (PutVarint64 dst (bh_offset h)) (bh_size h)))"

text \<open>The status, the handle and the rest of the input; a failed read leaves its target alone.\<close>

definition BlockHandle_DecodeFrom :: "BlockHandle \<Rightarrow> bytes \<Rightarrow> Status \<times> BlockHandle \<times> bytes" where
  "BlockHandle_DecodeFrom h input =
     (case GetVarint64 input of
        None \<Rightarrow> (Corruption (str ''bad block handle'') [], h, input)
      | Some (off, input1) \<Rightarrow>
          (case GetVarint64 input1 of
             None \<Rightarrow> (Corruption (str ''bad block handle'') [], h\<lparr>bh_offset := off\<rparr>, input1)
           | Some (sz, input2) \<Rightarrow> (OK, h\<lparr>bh_offset := off, bh_size := sz\<rparr>, input2)))"

section \<open>The footer\<close>

record Footer =
  metaindex_handle :: BlockHandle
  index_handle :: BlockHandle

definition kEncodedLength :: nat where
  "kEncodedLength = 2 * kMaxEncodedLength + 8"

definition kTableMagicNumber :: u64 where
  "kTableMagicNumber = 0xdb4775248b80fb57"

text \<open>\<open>std::string::resize\<close>: truncate, or pad with zero bytes.\<close>

definition resize :: "bytes \<Rightarrow> nat \<Rightarrow> bytes" where
  "resize s n = take n s @ replicate (n - length s) 0"

definition Footer_EncodeTo :: "Footer \<Rightarrow> bytes \<Rightarrow> bytes option" where
  "Footer_EncodeTo f dst =
     do {
       let original_size = length dst;
       dst \<leftarrow> BlockHandle_EncodeTo (metaindex_handle f) dst;
       dst \<leftarrow> BlockHandle_EncodeTo (index_handle f) dst;
       let dst = resize dst (2 * kMaxEncodedLength);
       let dst = PutFixed32 dst (ucast (kTableMagicNumber AND 0xffffffff));
       let dst = PutFixed32 dst (ucast (drop_bit 32 kTableMagicNumber));
       if length dst = original_size + kEncodedLength then Some dst else None
     }"

definition Footer_DecodeFrom :: "Footer \<Rightarrow> bytes \<Rightarrow> Status \<times> Footer \<times> bytes" where
  "Footer_DecodeFrom f input =
     (if length input < kEncodedLength
      then (Corruption (str ''not an sstable (footer too short)'') [], f, input)
      else
        (let magic_ptr = drop (kEncodedLength - 8) input;
             magic_lo = DecodeFixed32 magic_ptr;
             magic_hi = DecodeFixed32 (drop 4 magic_ptr);
             magic = (push_bit 32 (ucast magic_hi) OR ucast magic_lo :: u64)
         in if magic \<noteq> kTableMagicNumber
            then (Corruption (str ''not an sstable (bad magic number)'') [], f, input)
            else
              (let (result, h1, input1) = BlockHandle_DecodeFrom (metaindex_handle f) input;
                   f = f\<lparr>metaindex_handle := h1\<rparr>
               in if result \<noteq> OK then (result, f, input1)
                  else
                    (let (result, h2, input2) = BlockHandle_DecodeFrom (index_handle f) input1;
                         f = f\<lparr>index_handle := h2\<rparr>
                     in if result \<noteq> OK then (result, f, input2)
                        else (OK, f, drop 8 magic_ptr)))))"

section \<open>Reading a block\<close>

definition kBlockTrailerSize :: nat where
  "kBlockTrailerSize = 5"

record BlockContents =
  bc_data :: bytes
  cachable :: bool
  heap_allocated :: bool

text \<open>
  The compression functions of \<open>port/port.h\<close> call libraries outside the sources and are
  parameters: the uncompressed length a block declares, and its uncompressed contents.
\<close>

record Port =
  Snappy_GetUncompressedLength :: "bytes \<Rightarrow> nat option"
  Snappy_Uncompress :: "bytes \<Rightarrow> bytes option"
  Zstd_GetUncompressedLength :: "bytes \<Rightarrow> nat option"
  Zstd_Uncompress :: "bytes \<Rightarrow> bytes option"

definition no_contents :: BlockContents where
  "no_contents = \<lparr>bc_data = [], cachable = False, heap_allocated = False\<rparr>"

text \<open>The blocks of one compressed type: the two calls of the library and their error messages.\<close>

definition read_compressed ::
  "(bytes \<Rightarrow> nat option) \<Rightarrow> (bytes \<Rightarrow> bytes option) \<Rightarrow> string \<Rightarrow> string \<Rightarrow> bytes \<Rightarrow> Status \<times> BlockContents" where
  "read_compressed get_length uncompress bad_length bad_contents data =
     (case get_length data of
        None \<Rightarrow> (Corruption (str bad_length) [], no_contents)
      | Some ulength \<Rightarrow>
          (case uncompress data of
             None \<Rightarrow> (Corruption (str bad_contents) [], no_contents)
           | Some u \<Rightarrow> (OK, \<lparr>bc_data = take ulength u, cachable = True, heap_allocated = True\<rparr>)))"

text \<open>
  \<open>mapped\<close> tells whether the file returned a pointer of its own instead of filling the buffer.
  \<open>None\<close> is an access outside the buffer.
\<close>

definition ReadBlock ::
  "Port \<Rightarrow> 'f RandomAccessFile \<Rightarrow> bool \<Rightarrow> 'f \<Rightarrow> ReadOptions \<Rightarrow> BlockHandle \<Rightarrow> (Status \<times> BlockContents) option" where
  "ReadBlock port R mapped f options handle =
     (let n = bh_size handle;
          total = n + of_nat kBlockTrailerSize;
          (s, contents) = RandomRead R f (unat (bh_offset handle)) (unat total)
      in if s \<noteq> OK then Some (s, no_contents)
         else if length contents \<noteq> unat total
         then Some (Corruption (str ''truncated block read'') [], no_contents)
         else if length contents < unat n + kBlockTrailerSize then None
         else
           (let data = take (unat n) contents;
                crc = Unmask (DecodeFixed32 (drop (unat n + 1) contents));
                actual = crc32c_Value (take (unat n + 1) contents);
                type = contents ! unat n
            in if verify_checksums options \<and> actual \<noteq> crc
               then Some (Corruption (str ''block checksum mismatch'') [], no_contents)
               else if type = 0
               then Some (OK, \<lparr>bc_data = data, cachable = \<not> mapped, heap_allocated = \<not> mapped\<rparr>)
               else if type = 1
               then Some (read_compressed (Snappy_GetUncompressedLength port) (Snappy_Uncompress port)
                 ''corrupted snappy compressed block length'' ''corrupted snappy compressed block contents'' data)
               else if type = 2
               then Some (read_compressed (Zstd_GetUncompressedLength port) (Zstd_Uncompress port)
                 ''corrupted zstd compressed block length'' ''corrupted zstd compressed block contents'' data)
               else Some (Corruption (str ''bad block type'') [], no_contents)))"

section \<open>Handles and footers round-trip\<close>

definition handle_ok :: "BlockHandle \<Rightarrow> bool" where
  "handle_ok h \<longleftrightarrow> bh_offset h \<noteq> NOT 0 \<and> bh_size h \<noteq> NOT 0"

definition handle_bytes :: "BlockHandle \<Rightarrow> bytes" where
  "handle_bytes h = EncodeVarint64 (bh_offset h) @ EncodeVarint64 (bh_size h)"

lemma BlockHandle_EncodeTo_eq: "handle_ok h \<Longrightarrow> BlockHandle_EncodeTo h dst = Some (dst @ handle_bytes h)"
  by (simp add: handle_ok_def BlockHandle_EncodeTo_def handle_bytes_def PutVarint64_def)

lemma BlockHandle_DecodeFrom_bytes [roundtrip]:
  "BlockHandle_DecodeFrom h0 (handle_bytes h @ rest) = (OK, h, rest)"
  by (simp add: BlockHandle_DecodeFrom_def handle_bytes_def roundtrip)

lemma length_handle_bytes: "length (handle_bytes h) \<le> kMaxEncodedLength"
  using length_EncodeVarint64 [of "bh_offset h"] length_EncodeVarint64 [of "bh_size h"]
  by (simp add: handle_bytes_def kMaxEncodedLength_def)

interpretation block_handle: codec handle_bytes
  "\<lambda>i. case BlockHandle_DecodeFrom new_BlockHandle i of (s, h, r) \<Rightarrow> if s = OK then Some (h, r) else None" handle_ok
  by unfold_locales (simp add: roundtrip)

definition footer_bytes :: "Footer \<Rightarrow> bytes" where
  "footer_bytes f =
     resize (handle_bytes (metaindex_handle f) @ handle_bytes (index_handle f)) (2 * kMaxEncodedLength) @
     EncodeFixed32 (ucast (kTableMagicNumber AND 0xffffffff)) @ EncodeFixed32 (ucast (drop_bit 32 kTableMagicNumber))"

lemma length_resize [simp]: "length (resize s n) = n"
  by (simp add: resize_def)

lemma length_footer_bytes [simp]: "length (footer_bytes f) = kEncodedLength"
  by (simp add: footer_bytes_def kEncodedLength_def)

lemma Footer_EncodeTo_eq:
  "handle_ok (metaindex_handle f) \<Longrightarrow> handle_ok (index_handle f) \<Longrightarrow> Footer_EncodeTo f [] = Some (footer_bytes f)"
  using length_footer_bytes [of f]
  by (simp add: Footer_EncodeTo_def BlockHandle_EncodeTo_eq footer_bytes_def PutFixed32_def Let_def)

lemma magic_words:
  "push_bit 32 (ucast (ucast (drop_bit 32 kTableMagicNumber) :: u32)) OR
   ucast (ucast (kTableMagicNumber AND 0xffffffff) :: u32) = kTableMagicNumber"
  by (simp add: kTableMagicNumber_def)

lemma Footer_DecodeFrom_bytes [roundtrip]: "Footer_DecodeFrom f0 (footer_bytes f @ rest) = (OK, f, rest)"
proof -
  let ?h = "handle_bytes (metaindex_handle f) @ handle_bytes (index_handle f)"
  let ?n = "2 * kMaxEncodedLength"
  let ?lo = "ucast (kTableMagicNumber AND 0xffffffff) :: u32" and ?hi = "ucast (drop_bit 32 kTableMagicNumber) :: u32"
  have magic_ptr: "drop (kEncodedLength - 8) (footer_bytes f @ rest) = EncodeFixed32 ?lo @ EncodeFixed32 ?hi @ rest"
    by (simp add: footer_bytes_def kEncodedLength_def)
  have "length ?h \<le> ?n"
    using length_handle_bytes [of "metaindex_handle f"] length_handle_bytes [of "index_handle f"] by simp
  then have pad: "footer_bytes f @ rest = handle_bytes (metaindex_handle f) @ handle_bytes (index_handle f) @
      (replicate (?n - length ?h) 0 @ EncodeFixed32 ?lo @ EncodeFixed32 ?hi @ rest)"
    by (simp add: footer_bytes_def resize_def)
  have len: "\<not> length (footer_bytes f @ rest) < kEncodedLength" by simp
  have "BlockHandle_DecodeFrom h (footer_bytes f @ rest) = (OK, metaindex_handle f, handle_bytes (index_handle f) @
      (replicate (?n - length ?h) 0 @ EncodeFixed32 ?lo @ EncodeFixed32 ?hi @ rest))" for h
    unfolding pad by (simp only: roundtrip)
  moreover have "BlockHandle_DecodeFrom h (handle_bytes (index_handle f) @
      (replicate (?n - length ?h) 0 @ EncodeFixed32 ?lo @ EncodeFixed32 ?hi @ rest)) = (OK, index_handle f,
      replicate (?n - length ?h) 0 @ EncodeFixed32 ?lo @ EncodeFixed32 ?hi @ rest)" for h
    by (simp only: roundtrip)
  ultimately show ?thesis
    unfolding Footer_DecodeFrom_def if_not_P [OF len] magic_ptr Let_def
    by (simp add: roundtrip magic_words)
qed

section \<open>Reading what was written\<close>

text \<open>A stored block: its contents, its type and the masked checksum of both.\<close>

definition stored_block :: "bytes \<Rightarrow> byte \<Rightarrow> bytes" where
  "stored_block data type = data @ type # EncodeFixed32 (Mask (crc32c_Value (data @ [type])))"

lemma length_stored_block [simp]: "length (stored_block data type) = length data + kBlockTrailerSize"
  by (simp add: stored_block_def kBlockTrailerSize_def)

lemma ReadBlock_stored:
  assumes "random_access_file R contents finv" "finv f" "contents f = pre @ stored_block data 0 @ post"
    and "length (contents f) < 2 ^ 64"
  shows "ReadBlock port R mapped f options \<lparr>bh_offset = of_nat (length pre), bh_size = of_nat (length data)\<rparr> =
    Some (OK, \<lparr>bc_data = data, cachable = \<not> mapped, heap_allocated = \<not> mapped\<rparr>)"
proof -
  have len: "length pre + length data + 5 < 2 ^ 64" using assms(3,4) by (simp add: kBlockTrailerSize_def)
  then have u: "unat (of_nat (length pre) :: u64) = length pre" "unat (of_nat (length data) :: u64) = length data"
    "unat (of_nat (length data) + of_nat kBlockTrailerSize :: u64) = length data + 5"
    by (simp_all add: unat_of_nat unat_word_ariths take_bit_nat_eq_self kBlockTrailerSize_def)
  have "RandomRead R f (length pre) (length data + 5) = (OK, stored_block data 0)"
    using random_access_file.random_read [OF assms(1,2), of "length pre" "length data + 5"] assms(3)
    by (simp add: kBlockTrailerSize_def)
  moreover have "Unmask (DecodeFixed32 (drop (length data + 1) (stored_block data 0))) = crc32c_Value (take (length data + 1) (stored_block data 0))"
    using DecodeFixed32_Encode [of _ "[]"] by (simp add: stored_block_def Mask_Unmask)
  moreover have "take (length data) (stored_block data 0) = data" "stored_block data 0 ! length data = 0"
    by (simp_all add: stored_block_def)
  ultimately show ?thesis using u by (simp add: ReadBlock_def Let_def kBlockTrailerSize_def)
qed

text \<open>
  A handle with a size near the top of its range passes the check of the length read, because
  the size of the trailer is added in 64 bits; the block type is then read outside the buffer.
\<close>

theorem read_block_size_wraps:
  assumes "random_access_file R contents finv" "finv f" "4 \<le> length (contents f)"
  shows "ReadBlock port R mapped f options \<lparr>bh_offset = 0, bh_size = NOT 0\<rparr> = None"
proof -
  have "RandomRead R f 0 4 = (OK, take 4 (contents f))"
    using random_access_file.random_read [OF assms(1,2), of 0 4] by simp
  then show ?thesis using assms(3) by (simp add: ReadBlock_def kBlockTrailerSize_def)
qed

end
