(* ===== verification/FilterBlock.thy ===== *)
theory FilterBlock
  imports Coding Bloom "HOL-Library.Monad_Syntax"
begin

text \<open>
  \<open>table/filter_block.h\<close> and \<open>table/filter_block.cc\<close>: the filters of a table, one for every two
  kilobytes of data offsets. With any filter policy that has no false negatives, the reader
  never excludes a key that was added for a data block.
\<close>

section \<open>Building\<close>

definition kFilterBaseLg :: nat where
  "kFilterBaseLg = 11"

definition kFilterBase :: nat where
  "kFilterBase = push_bit kFilterBaseLg 1"

record FilterBlockBuilder =
  fb_policy :: FilterPolicy
  fb_keys :: bytes
  fb_start :: "nat list"
  fb_result :: bytes
  fb_offsets :: "u32 list"

definition new_FilterBlockBuilder :: "FilterPolicy \<Rightarrow> FilterBlockBuilder" where
  "new_FilterBlockBuilder p =
     \<lparr>fb_policy = p, fb_keys = [], fb_start = [], fb_result = [], fb_offsets = []\<rparr>"

definition GenerateFilter :: "FilterBlockBuilder \<Rightarrow> FilterBlockBuilder" where
  "GenerateFilter b =
     (let num_keys = length (fb_start b) in
      if num_keys = 0 then b\<lparr>fb_offsets := fb_offsets b @ [of_nat (length (fb_result b))]\<rparr>
      else
        (let start = fb_start b @ [length (fb_keys b)];
             tmp_keys = map (\<lambda>i. take (start ! (i + 1) - start ! i) (drop (start ! i) (fb_keys b))) [0..<num_keys]
         in b\<lparr>fb_offsets := fb_offsets b @ [of_nat (length (fb_result b))],
              fb_result := CreateFilter (fb_policy b) tmp_keys (fb_result b),
              fb_keys := [], fb_start := []\<rparr>))"

lemma length_GenerateFilter: "length (fb_offsets (GenerateFilter b)) = Suc (length (fb_offsets b))"
  by (simp add: GenerateFilter_def Let_def)

function StartBlock_loop :: "nat \<Rightarrow> FilterBlockBuilder \<Rightarrow> FilterBlockBuilder" where
  "StartBlock_loop filter_index b =
     (if filter_index > length (fb_offsets b) then StartBlock_loop filter_index (GenerateFilter b) else b)"
  by pat_completeness auto
termination
  by (relation "measure (\<lambda>(n, b). n - length (fb_offsets b))") (auto simp: length_GenerateFilter)

definition StartBlock :: "u64 \<Rightarrow> FilterBlockBuilder \<Rightarrow> FilterBlockBuilder option" where
  "StartBlock block_offset b =
     (let filter_index = unat block_offset div kFilterBase
      in if filter_index \<ge> length (fb_offsets b) then Some (StartBlock_loop filter_index b) else None)"

definition AddKey :: "bytes \<Rightarrow> FilterBlockBuilder \<Rightarrow> FilterBlockBuilder" where
  "AddKey key b = b\<lparr>fb_start := fb_start b @ [length (fb_keys b)], fb_keys := fb_keys b @ key\<rparr>"

definition fb_Finish :: "FilterBlockBuilder \<Rightarrow> bytes \<times> FilterBlockBuilder" where
  "fb_Finish b =
     (let b = (if fb_start b \<noteq> [] then GenerateFilter b else b);
          array_offset = of_nat (length (fb_result b));
          result = fold (\<lambda>off r. PutFixed32 r off) (fb_offsets b) (fb_result b);
          result = PutFixed32 result array_offset;
          result = result @ [of_nat kFilterBaseLg]
      in (result, b\<lparr>fb_result := result\<rparr>))"

section \<open>Reading\<close>

text \<open>
  \<open>data_\<close> and \<open>offset_\<close> are the contents and an offset into them; \<open>num_\<close> is 0 when they are null.
  \<open>base_lg_\<close> is the last byte, converted from a signed character to a \<open>size_t\<close>.
\<close>

record FilterBlockReader =
  fr_policy :: FilterPolicy
  fr_data :: bytes
  fr_offset :: nat
  fr_num :: nat
  fr_base_lg :: u64

definition new_FilterBlockReader :: "FilterPolicy \<Rightarrow> bytes \<Rightarrow> FilterBlockReader" where
  "new_FilterBlockReader p contents =
     (let r = \<lparr>fr_policy = p, fr_data = [], fr_offset = 0, fr_num = 0, fr_base_lg = 0\<rparr>;
          n = length contents
      in if n < 5 then r
         else
           (let r = r\<lparr>fr_base_lg := scast (contents ! (n - 1))\<rparr>;
                last_word = unat (DecodeFixed32 (drop (n - 5) contents))
            in if last_word > n - 5 then r
               else r\<lparr>fr_data := contents, fr_offset := last_word, fr_num := (n - 5 - last_word) div 4\<rparr>))"

text \<open>A shift by 64 or more is undefined.\<close>

definition fr_KeyMayMatch :: "FilterBlockReader \<Rightarrow> u64 \<Rightarrow> bytes \<Rightarrow> bool option" where
  "fr_KeyMayMatch r block_offset key =
     (if fr_base_lg r \<ge> 64 then None
      else
        (let index = unat (drop_bit (unat (fr_base_lg r)) block_offset) in
         if index < fr_num r then
           (let start = DecodeFixed32 (drop (fr_offset r + index * 4) (fr_data r));
                limit = DecodeFixed32 (drop (fr_offset r + index * 4 + 4) (fr_data r))
            in if start \<le> limit \<and> unat limit \<le> fr_offset r
               then Some (KeyMayMatch (fr_policy r) key
                 (take (unat limit - unat start) (drop (unat start) (fr_data r))))
               else if start = limit then Some False
               else Some True)
         else Some True))"

declare StartBlock_loop.simps [simp del]

section \<open>The filters of a block\<close>

text \<open>The keys of the finished filters and of the next one.\<close>

definition filter_of :: "FilterPolicy \<Rightarrow> bytes list \<Rightarrow> bytes" where
  "filter_of p ks = (if ks = [] then [] else CreateFilter p ks [])"

definition filter_off :: "FilterPolicy \<Rightarrow> bytes list list \<Rightarrow> nat \<Rightarrow> nat" where
  "filter_off p gs i = length (concat (map (filter_of p) (take i gs)))"

definition fb_inv :: "FilterPolicy \<Rightarrow> (bytes \<Rightarrow> bool) \<Rightarrow> FilterBlockBuilder \<Rightarrow> bytes list list \<Rightarrow> bytes list \<Rightarrow> bool" where
  "fb_inv p D b gs ks \<longleftrightarrow> fb_policy b = p \<and> (\<forall>g \<in> set gs. list_all D g) \<and> list_all D ks \<and>
     fb_result b = concat (map (filter_of p) gs) \<and>
     fb_offsets b = map (\<lambda>i. of_nat (filter_off p gs i)) [0..<length gs] \<and>
     fb_keys b = concat ks \<and> fb_start b = map (\<lambda>i. length (concat (take i ks))) [0..<length ks]"

lemma split_keys:
  "map (\<lambda>i. take ((map (\<lambda>i. length (concat (take i ks))) [0..<length ks] @ [length (concat ks)]) ! (i + 1) -
      (map (\<lambda>i. length (concat (take i ks))) [0..<length ks] @ [length (concat ks)]) ! i)
     (drop ((map (\<lambda>i. length (concat (take i ks))) [0..<length ks] @ [length (concat ks)]) ! i) (concat ks))) [0..<length ks] = ks"
proof (rule nth_equalityI)
  let ?s = "map (\<lambda>i. length (concat (take i ks))) [0..<length ks] @ [length (concat ks)]"
  have s: "?s ! i = length (concat (take i ks))" if "i \<le> length ks" for i
    using that by (cases "i = length ks") (simp_all add: nth_append)
  fix i assume "i < length (map (\<lambda>i. take (?s ! (i + 1) - ?s ! i) (drop (?s ! i) (concat ks))) [0..<length ks])"
  then have i: "i < length ks" by simp
  have "concat ks = concat (take i ks) @ ks ! i @ concat (drop (Suc i) ks)"
    by (metis append_take_drop_id concat.simps(2) concat_append Cons_nth_drop_Suc i)
  moreover have "length (concat (take (Suc i) ks)) = length (concat (take i ks)) + length (ks ! i)"
    using i by (simp add: take_Suc_conv_app_nth)
  ultimately show "map (\<lambda>i. take (?s ! (i + 1) - ?s ! i) (drop (?s ! i) (concat ks))) [0..<length ks] ! i = ks ! i"
    using i s [of i] s [of "Suc i"] by simp
qed simp

lemma filter_off_snoc: "i \<le> length gs \<Longrightarrow> filter_off p (gs @ [g]) i = filter_off p gs i"
  by (simp add: filter_off_def)

context filter_policy
begin

lemma GenerateFilter_inv:
  assumes "fb_inv p dom b gs ks"
  shows "fb_inv p dom (GenerateFilter b) (gs @ [ks]) []"
proof -
  have offs: "map (\<lambda>i. of_nat (filter_off p gs i) :: u32) [0..<length gs] @ [of_nat (length (concat (map (filter_of p) gs)))] =
      map (\<lambda>i. of_nat (filter_off p (gs @ [ks]) i)) [0..<length (gs @ [ks])]"
    by (simp add: filter_off_snoc) (simp add: filter_off_def)
  show ?thesis
  proof (cases "ks = []")
    case True
    then show ?thesis using assms offs by (simp add: fb_inv_def GenerateFilter_def filter_of_def)
  next
    case False
    have "CreateFilter p ks r = r @ filter_of p ks" for r
      using create_append [of ks r] assms False by (simp add: fb_inv_def filter_of_def)
    then show ?thesis
      using assms offs False split_keys [of ks] by (simp add: fb_inv_def GenerateFilter_def Let_def)
  qed
qed

end

text \<open>The calls for a sequence of data blocks: the offset of each and the keys added for it.\<close>

fun fb_blocks :: "(u64 \<times> bytes list) list \<Rightarrow> FilterBlockBuilder \<Rightarrow> FilterBlockBuilder option" where
  "fb_blocks [] b = Some b"
| "fb_blocks ((off, keys) # bs) b = do { b' \<leftarrow> StartBlock off b; fb_blocks bs (fold AddKey keys b') }"

definition filter_index :: "u64 \<Rightarrow> nat" where
  "filter_index off = unat off div kFilterBase"

text \<open>Every key added so far is in the group of its offset.\<close>

definition groups_hold :: "(u64 \<times> bytes list) list \<Rightarrow> bytes list list \<Rightarrow> bytes list \<Rightarrow> bool" where
  "groups_hold bs gs ks \<longleftrightarrow> (\<forall>(off, keys) \<in> set bs. filter_index off \<le> length gs \<and>
     set keys \<subseteq> set ((gs @ [ks]) ! filter_index off))"

lemma AddKey_inv: "fb_inv p D b gs ks \<Longrightarrow> D k \<Longrightarrow> fb_inv p D (AddKey k b) gs (ks @ [k])"
  by (simp add: fb_inv_def AddKey_def)

lemma AddKeys_inv: "fb_inv p D b gs ks \<Longrightarrow> list_all D keys \<Longrightarrow> fb_inv p D (fold AddKey keys b) gs (ks @ keys)"
proof (induction keys arbitrary: b ks)
  case (Cons k keys)
  then have "fb_inv p D (AddKey k b) gs (ks @ [k])" by (intro AddKey_inv) simp_all
  with Cons show ?case by fastforce
qed simp

lemma groups_hold_generate: "groups_hold bs gs ks \<Longrightarrow> groups_hold bs (gs @ [ks]) []"
  by (fastforce simp: groups_hold_def nth_append less_Suc_eq_le)

lemma groups_hold_keys: "groups_hold bs gs ks \<Longrightarrow> groups_hold bs gs (ks @ keys)"
  by (fastforce simp: groups_hold_def nth_append)

context filter_policy
begin

lemma StartBlock_loop_inv:
  assumes "fb_inv p dom b gs ks" "groups_hold bs gs ks" "length gs \<le> n"
  shows "\<exists>gs' ks'. fb_inv p dom (StartBlock_loop n b) gs' ks' \<and> groups_hold bs gs' ks' \<and> length gs' = n"
  using assms
proof (induction "n - length gs" arbitrary: b gs ks)
  case 0
  then have "StartBlock_loop n b = b" by (subst StartBlock_loop.simps) (simp add: fb_inv_def)
  with 0 show ?case by auto
next
  case (Suc m)
  then have "StartBlock_loop n b = StartBlock_loop n (GenerateFilter b)"
    by (subst StartBlock_loop.simps) (simp add: fb_inv_def)
  then show ?case
    using Suc.hyps(1) [of "gs @ [ks]" "GenerateFilter b" "[]"] Suc.hyps(2) Suc.prems GenerateFilter_inv groups_hold_generate
    by simp
qed

lemma fb_blocks_inv:
  assumes "fb_inv p dom b gs ks" "groups_hold bs0 gs ks" "sorted (map (filter_index \<circ> fst) bs)"
    "\<forall>bl \<in> set bs. length gs \<le> filter_index (fst bl)" "\<forall>bl \<in> set bs. list_all dom (snd bl)"
  shows "\<exists>b' gs' ks'. fb_blocks bs b = Some b' \<and> fb_inv p dom b' gs' ks' \<and> groups_hold (bs0 @ bs) gs' ks'"
  using assms
proof (induction bs arbitrary: b gs ks bs0)
  case (Cons bl bs)
  obtain off keys where bl: "bl = (off, keys)" by (cases bl)
  have le: "length gs \<le> filter_index off" using Cons.prems(4) bl by simp
  obtain gs1 ks1 where s: "fb_inv p dom (StartBlock_loop (filter_index off) b) gs1 ks1" "groups_hold bs0 gs1 ks1"
    "length gs1 = filter_index off"
    using StartBlock_loop_inv [OF Cons.prems(1,2) le] by blast
  have start: "StartBlock off b = Some (StartBlock_loop (filter_index off) b)"
    using le Cons.prems(1) by (simp add: StartBlock_def filter_index_def fb_inv_def)
  have inv: "fb_inv p dom (fold AddKey keys (StartBlock_loop (filter_index off) b)) gs1 (ks1 @ keys)"
    using Cons.prems(5) bl by (intro AddKeys_inv [OF s(1)]) simp
  moreover have "groups_hold (bs0 @ [bl]) gs1 (ks1 @ keys)"
    using groups_hold_keys [OF s(2), of keys] s(3) bl by (auto simp: groups_hold_def nth_append)
  moreover have "\<forall>bl \<in> set bs. length gs1 \<le> filter_index (fst bl)" using Cons.prems(3) s(3) bl by simp
  ultimately obtain b' gs' ks' where "fb_blocks bs (fold AddKey keys (StartBlock_loop (filter_index off) b)) = Some b'"
    "fb_inv p dom b' gs' ks'" "groups_hold ((bs0 @ [bl]) @ bs) gs' ks'"
    using Cons.IH [of "fold AddKey keys (StartBlock_loop (filter_index off) b)" gs1 "ks1 @ keys" "bs0 @ [bl]"] Cons.prems(3,5)
    by auto
  then show ?case using start bl by auto
qed auto

end

section \<open>The reader finds the filter of an offset\<close>

definition offset_array :: "FilterPolicy \<Rightarrow> bytes list list \<Rightarrow> bytes" where
  "offset_array p gs = concat (map (\<lambda>i. EncodeFixed32 (of_nat (filter_off p gs i))) [0..<length gs])"

definition filter_bytes :: "FilterPolicy \<Rightarrow> bytes list list \<Rightarrow> bytes" where
  "filter_bytes p gs = concat (map (filter_of p) gs) @ offset_array p gs @
     EncodeFixed32 (of_nat (length (concat (map (filter_of p) gs)))) @ [11]"

lemma length_words [simp]: "length (concat (map (\<lambda>x. EncodeFixed32 (f x)) xs)) = 4 * length xs"
  by (induction xs) simp_all

lemma length_offset_array [simp]: "length (offset_array p gs) = 4 * length gs"
  by (simp add: offset_array_def)

lemma drop_words:
  "j < length xs \<Longrightarrow> drop (4 * j) (concat (map EncodeFixed32 xs)) = EncodeFixed32 (xs ! j) @ concat (map EncodeFixed32 (drop (Suc j) xs))"
proof (induction xs arbitrary: j)
  case (Cons x xs)
  then show ?case by (cases j) simp_all
qed simp

text \<open>The word after the last offset of the array is the offset of the array, the end of the last filter.\<close>

lemma filter_word:
  assumes "i \<le> length gs"
  shows "DecodeFixed32 (drop (length (concat (map (filter_of p) gs)) + i * 4) (filter_bytes p gs)) = of_nat (filter_off p gs i)"
proof -
  let ?w = "map (\<lambda>i. of_nat (filter_off p gs i) :: u32) [0..<Suc (length gs)]"
  have "concat (map EncodeFixed32 ?w) = offset_array p gs @ EncodeFixed32 (of_nat (length (concat (map (filter_of p) gs))))"
    by (simp add: offset_array_def filter_off_def comp_def)
  then have "drop (length (concat (map (filter_of p) gs)) + i * 4) (filter_bytes p gs) = drop (4 * i) (concat (map EncodeFixed32 ?w) @ [11])"
    by (simp add: filter_bytes_def mult.commute)
  also have "\<dots> = EncodeFixed32 (of_nat (filter_off p gs i)) @ concat (map EncodeFixed32 (drop (Suc i) ?w)) @ [11]"
  proof -
    have "4 * i \<le> length (concat (map EncodeFixed32 ?w))"
      using assms length_words [of "\<lambda>x. x" ?w] by (simp del: upt_Suc)
    then show ?thesis using drop_words [of i ?w] assms by (simp del: upt_Suc)
  qed
  finally show ?thesis by (simp add: roundtrip)
qed

lemma filter_off_Suc: "i < length gs \<Longrightarrow> filter_off p gs (Suc i) = filter_off p gs i + length (filter_of p (gs ! i))"
  by (simp add: filter_off_def take_Suc_conv_app_nth)

lemma filter_off_le: "filter_off p gs i \<le> length (concat (map (filter_of p) gs))"
  by (metis append_take_drop_id concat_append filter_off_def le_add1 length_append map_append)

lemma filter_slice:
  assumes "i < length gs"
  shows "take (length (filter_of p (gs ! i))) (drop (filter_off p gs i) (filter_bytes p gs)) = filter_of p (gs ! i)"
proof -
  have "gs = take i gs @ gs ! i # drop (Suc i) gs" using assms by (simp add: id_take_nth_drop)
  then have "concat (map (filter_of p) gs) = concat (map (filter_of p) (take i gs)) @ filter_of p (gs ! i) @
      concat (map (filter_of p) (drop (Suc i) gs))"
    by (metis concat.simps(2) concat_append list.simps(9) map_append)
  then show ?thesis by (simp add: filter_bytes_def filter_off_def)
qed

lemma fr_KeyMayMatch_bytes:
  assumes "length (filter_bytes p gs) < 2 ^ 32"
  shows "fr_KeyMayMatch (new_FilterBlockReader p (filter_bytes p gs)) off key =
    Some (filter_index off < length gs \<longrightarrow> KeyMayMatch p key (filter_of p (gs ! filter_index off)))"
proof -
  let ?c = "filter_bytes p gs" and ?r = "length (concat (map (filter_of p) gs))"
  have len: "length ?c = ?r + 4 * length gs + 5" by (simp add: filter_bytes_def)
  have small: "?r < 2 ^ 32" using assms len by linarith
  have "DecodeFixed32 (drop (?r + length gs * 4) ?c) = of_nat ?r"
    using filter_word [of "length gs" gs p] by (simp add: filter_off_def)
  then have lw: "unat (DecodeFixed32 (drop (length ?c - 5) ?c)) = ?r"
    using unat_of_nat_u32 [OF small] len by (simp add: mult.commute)
  have last: "?c ! (length ?c - 1) = 11" unfolding len by (simp add: filter_bytes_def nth_append)
  have reader: "new_FilterBlockReader p ?c = \<lparr>fr_policy = p, fr_data = ?c, fr_offset = ?r, fr_num = length gs, fr_base_lg = 11\<rparr>"
    using lw last len by (simp add: new_FilterBlockReader_def Let_def)
  have idx: "unat (drop_bit 11 off) = filter_index off"
    unfolding unat_drop_bit_eq by (simp add: drop_bit_eq_div filter_index_def kFilterBase_def kFilterBaseLg_def)
  show ?thesis
  proof (cases "filter_index off < length gs")
    case True
    let ?i = "filter_index off"
    have off_small: "unat (of_nat (filter_off p gs j) :: u32) = filter_off p gs j" for j
      using filter_off_le [of p gs j] small by (intro unat_of_nat_u32) linarith
    have start: "DecodeFixed32 (drop (?r + ?i * 4) ?c) = of_nat (filter_off p gs ?i)"
      using filter_word [of ?i gs p] True by simp
    have "DecodeFixed32 (drop (?r + Suc ?i * 4) ?c) = of_nat (filter_off p gs (Suc ?i))"
      using filter_word [of "Suc ?i" gs p] True by simp
    then have limit: "DecodeFixed32 (drop (?r + ?i * 4 + 4) ?c) = of_nat (filter_off p gs (Suc ?i))"
      by (simp add: add.assoc add.commute add.left_commute)
    have "(of_nat (filter_off p gs ?i) :: u32) \<le> of_nat (filter_off p gs (Suc ?i))"
      unfolding word_le_nat_alt off_small using filter_off_Suc [OF True] by simp
    moreover have "filter_off p gs (Suc ?i) - filter_off p gs ?i = length (filter_of p (gs ! ?i))"
      using filter_off_Suc [OF True, of p] by simp
    ultimately show ?thesis
      using True reader idx start limit off_small filter_off_le [of p gs "Suc ?i"] filter_slice [OF True, of p]
      by (simp add: fr_KeyMayMatch_def Let_def)
  next
    case False
    then show ?thesis using reader idx by (simp add: fr_KeyMayMatch_def Let_def)
  qed
qed

context filter_policy
begin

lemma fb_Finish_bytes:
  assumes "fb_inv p dom b gs ks"
  shows "fst (fb_Finish b) = filter_bytes p (if ks = [] then gs else gs @ [ks])"
proof -
  let ?b = "if fb_start b \<noteq> [] then GenerateFilter b else b"
  have e: "fb_start b = [] \<longleftrightarrow> ks = []" using assms by (simp add: fb_inv_def)
  then have inv: "fb_inv p dom ?b (if ks = [] then gs else gs @ [ks]) []"
    using assms GenerateFilter_inv [OF assms] by auto
  have "fold (\<lambda>r buf. PutFixed32 buf r) xs buf = buf @ concat (map EncodeFixed32 xs)" for xs buf
    by (induction xs arbitrary: buf) (simp_all add: PutFixed32_def)
  then show ?thesis
    using inv by (simp add: fb_Finish_def filter_bytes_def offset_array_def fb_inv_def PutFixed32_def Let_def
        kFilterBaseLg_def comp_def)
qed

lemma no_false_negative:
  assumes "sorted (map (filter_index \<circ> fst) bs)" "\<forall>bl \<in> set bs. list_all dom (snd bl)"
  shows "\<exists>b. fb_blocks bs (new_FilterBlockBuilder p) = Some b \<and>
    (length (fst (fb_Finish b)) < 2 ^ 32 \<longrightarrow>
      (\<forall>(off, keys) \<in> set bs. \<forall>key \<in> set keys.
        fr_KeyMayMatch (new_FilterBlockReader p (fst (fb_Finish b))) off key = Some True))"
proof -
  have "fb_inv p dom (new_FilterBlockBuilder p) [] []" "groups_hold [] [] []"
    by (simp_all add: fb_inv_def new_FilterBlockBuilder_def groups_hold_def)
  from fb_blocks_inv [OF this assms(1) _ assms(2)] obtain b gs ks where b: "fb_blocks bs (new_FilterBlockBuilder p) = Some b"
    "fb_inv p dom b gs ks" "groups_hold bs gs ks" by auto
  let ?gs = "if ks = [] then gs else gs @ [ks]"
  have "fr_KeyMayMatch (new_FilterBlockReader p (fst (fb_Finish b))) off key = Some True"
    if small: "length (fst (fb_Finish b)) < 2 ^ 32" and bl: "(off, keys) \<in> set bs" and key: "key \<in> set keys" for off keys key
  proof -
    have i: "filter_index off \<le> length gs" "key \<in> set ((gs @ [ks]) ! filter_index off)"
      using b(3) bl key by (auto simp: groups_hold_def)
    have "KeyMayMatch p key (filter_of p (?gs ! filter_index off))" if lt: "filter_index off < length ?gs"
    proof -
      have g: "?gs ! filter_index off = (gs @ [ks]) ! filter_index off" using lt by (auto simp: nth_append split: if_splits)
      have "\<forall>g \<in> set (gs @ [ks]). list_all dom g" using b(2) by (auto simp: fb_inv_def)
      then have "list_all dom ((gs @ [ks]) ! filter_index off)" using i(1) by (intro bspec [OF _ nth_mem]) auto
      then show ?thesis unfolding g using may_match [OF _ i(2)] i(2) by (auto simp: filter_of_def)
    qed
    then show ?thesis
      using fr_KeyMayMatch_bytes [of p ?gs off key] small unfolding fb_Finish_bytes [OF b(2)] by simp
  qed
  then show ?thesis using b(1) by blast
qed

end

section \<open>Properties\<close>

text \<open>
  C9. The filter block has no false negatives: for data blocks written at increasing offsets
  building never fails, and the reader answers that a key may be present for the offset of
  every block the key was added for, whatever filter policy without false negatives is used.
\<close>

theorem filter_block_no_false_negative:
  assumes "filter_policy p D" "sorted (map (filter_index \<circ> fst) bs)" "\<forall>bl \<in> set bs. list_all D (snd bl)"
  shows "\<exists>b. fb_blocks bs (new_FilterBlockBuilder p) = Some b \<and>
    (length (fst (fb_Finish b)) < 2 ^ 32 \<longrightarrow>
      (\<forall>(off, keys) \<in> set bs. \<forall>key \<in> set keys.
        fr_KeyMayMatch (new_FilterBlockReader p (fst (fb_Finish b))) off key = Some True))"
  using assms by (rule filter_policy.no_false_negative)

theorem filter_block_no_false_negative_witness:
  "\<exists>b. fb_blocks [(0, [[0x61]]), (100, [[0x62]]), (9000, [[0x63]])] (new_FilterBlockBuilder (NewBloomFilterPolicy 10)) = Some b \<and>
     (length (fst (fb_Finish b)) < 2 ^ 32 \<longrightarrow>
       fr_KeyMayMatch (new_FilterBlockReader (NewBloomFilterPolicy 10) (fst (fb_Finish b))) 9000 [0x63] = Some True)"
  using filter_block_no_false_negative [OF bloom.filter_policy_axioms [of 10],
      of "[(0, [[0x61]]), (100, [[0x62]]), (9000, [[0x63]])]"]
  by (auto simp: filter_index_def kFilterBase_def kFilterBaseLg_def)

end
