(* ===== verification/VersionEdit.thy ===== *)
theory VersionEdit
  imports Coding DbFormat Env "HOL-Library.Monad_Syntax" "HOL-Library.Product_Lexorder"
begin

text \<open>
  \<open>db/version_edit.h\<close> and \<open>db/version_edit.cc\<close>: the edits recorded in the manifest, with their
  encoding. Decoding the encoding of an edit is shown to return it.
\<close>

section \<open>Edits\<close>

definition kNumLevels :: nat where
  "kNumLevels = 7"

record FileMetaData =
  fm_refs :: int
  allowed_seeks :: int
  fm_number :: u64
  file_size :: u64
  smallest :: bytes
  largest :: bytes

definition new_FileMetaData :: FileMetaData where
  "new_FileMetaData =
     \<lparr>fm_refs = 0, allowed_seeks = 2 ^ 30, fm_number = 0, file_size = 0, smallest = [], largest = []\<rparr>"

text \<open>\<open>deleted_files_\<close> is a \<open>std::set\<close>, kept as the sorted list of its elements.\<close>

record VersionEdit =
  ve_comparator :: bytes
  log_number :: u64
  prev_log_number :: u64
  next_file_number :: u64
  last_sequence :: u64
  has_comparator :: bool
  has_log_number :: bool
  has_prev_log_number :: bool
  has_next_file_number :: bool
  has_last_sequence :: bool
  compact_pointers :: "(int \<times> bytes) list"
  deleted_files :: "(int \<times> u64) list"
  new_files :: "(int \<times> FileMetaData) list"

definition ve_Clear :: VersionEdit where
  "ve_Clear =
     \<lparr>ve_comparator = [], log_number = 0, prev_log_number = 0, next_file_number = 0, last_sequence = 0,
      has_comparator = False, has_log_number = False, has_prev_log_number = False,
      has_next_file_number = False, has_last_sequence = False,
      compact_pointers = [], deleted_files = [], new_files = []\<rparr>"

definition SetComparatorName :: "bytes \<Rightarrow> VersionEdit \<Rightarrow> VersionEdit" where
  "SetComparatorName name e = e\<lparr>has_comparator := True, ve_comparator := name\<rparr>"

definition SetLogNumber :: "u64 \<Rightarrow> VersionEdit \<Rightarrow> VersionEdit" where
  "SetLogNumber num e = e\<lparr>has_log_number := True, log_number := num\<rparr>"

definition SetPrevLogNumber :: "u64 \<Rightarrow> VersionEdit \<Rightarrow> VersionEdit" where
  "SetPrevLogNumber num e = e\<lparr>has_prev_log_number := True, prev_log_number := num\<rparr>"

definition SetNextFile :: "u64 \<Rightarrow> VersionEdit \<Rightarrow> VersionEdit" where
  "SetNextFile num e = e\<lparr>has_next_file_number := True, next_file_number := num\<rparr>"

definition SetLastSequence :: "u64 \<Rightarrow> VersionEdit \<Rightarrow> VersionEdit" where
  "SetLastSequence seq e = e\<lparr>has_last_sequence := True, last_sequence := seq\<rparr>"

definition SetCompactPointer :: "int \<Rightarrow> bytes \<Rightarrow> VersionEdit \<Rightarrow> VersionEdit" where
  "SetCompactPointer level key e = e\<lparr>compact_pointers := compact_pointers e @ [(level, key)]\<rparr>"

definition ve_AddFile :: "int \<Rightarrow> u64 \<Rightarrow> u64 \<Rightarrow> bytes \<Rightarrow> bytes \<Rightarrow> VersionEdit \<Rightarrow> VersionEdit" where
  "ve_AddFile level file fsize small large e =
     (let f = new_FileMetaData\<lparr>fm_number := file, file_size := fsize, smallest := small, largest := large\<rparr>
      in e\<lparr>new_files := new_files e @ [(level, f)]\<rparr>)"

definition ve_RemoveFile :: "int \<Rightarrow> u64 \<Rightarrow> VersionEdit \<Rightarrow> VersionEdit" where
  "ve_RemoveFile level file e = e\<lparr>deleted_files := insort_insert (level, file) (deleted_files e)\<rparr>"

section \<open>Encoding\<close>

definition kComparator :: u32 where "kComparator = 1"
definition kLogNumber :: u32 where "kLogNumber = 2"
definition kNextFileNumber :: u32 where "kNextFileNumber = 3"
definition kLastSequence :: u32 where "kLastSequence = 4"
definition kCompactPointer :: u32 where "kCompactPointer = 5"
definition kDeletedFile :: u32 where "kDeletedFile = 6"
definition kNewFile :: u32 where "kNewFile = 7"
definition kPrevLogNumber :: u32 where "kPrevLogNumber = 9"

definition enc_compact_pointer :: "int \<times> bytes \<Rightarrow> bytes \<Rightarrow> bytes" where
  "enc_compact_pointer p dst =
     PutLengthPrefixedSlice (PutVarint32 (PutVarint32 dst kCompactPointer) (word_of_int (fst p))) (snd p)"

definition enc_deleted_file :: "int \<times> u64 \<Rightarrow> bytes \<Rightarrow> bytes" where
  "enc_deleted_file p dst =
     PutVarint64 (PutVarint32 (PutVarint32 dst kDeletedFile) (word_of_int (fst p))) (snd p)"

definition enc_new_file :: "int \<times> FileMetaData \<Rightarrow> bytes \<Rightarrow> bytes" where
  "enc_new_file p dst =
     (let f = snd p;
          dst = PutVarint32 dst kNewFile;
          dst = PutVarint32 dst (word_of_int (fst p));
          dst = PutVarint64 dst (fm_number f);
          dst = PutVarint64 dst (file_size f);
          dst = PutLengthPrefixedSlice dst (smallest f)
      in PutLengthPrefixedSlice dst (largest f))"

definition VersionEdit_EncodeTo :: "VersionEdit \<Rightarrow> bytes \<Rightarrow> bytes" where
  "VersionEdit_EncodeTo e dst =
     (let dst = (if has_comparator e then PutLengthPrefixedSlice (PutVarint32 dst kComparator) (ve_comparator e) else dst);
          dst = (if has_log_number e then PutVarint64 (PutVarint32 dst kLogNumber) (log_number e) else dst);
          dst = (if has_prev_log_number e then PutVarint64 (PutVarint32 dst kPrevLogNumber) (prev_log_number e) else dst);
          dst = (if has_next_file_number e then PutVarint64 (PutVarint32 dst kNextFileNumber) (next_file_number e) else dst);
          dst = (if has_last_sequence e then PutVarint64 (PutVarint32 dst kLastSequence) (last_sequence e) else dst);
          dst = fold enc_compact_pointer (compact_pointers e) dst;
          dst = fold enc_deleted_file (deleted_files e) dst
      in fold enc_new_file (new_files e) dst)"

section \<open>Decoding\<close>

text \<open>On failure the position in the input is not used any more, so \<open>None\<close> is enough.\<close>

definition GetSlice :: "bytes \<Rightarrow> (bytes \<times> bytes) option" where
  "GetSlice input = (case GetLengthPrefixedSlice input of (Some v, rest) \<Rightarrow> Some (v, rest) | (None, _) \<Rightarrow> None)"

definition GetInternalKey :: "bytes \<Rightarrow> (bytes \<times> bytes) option" where
  "GetInternalKey input =
     do { (s, rest) \<leftarrow> GetSlice input; let (key, ok) = InternalKey_DecodeFrom s; if ok then Some (key, rest) else None }"

definition GetLevel :: "bytes \<Rightarrow> (int \<times> bytes) option" where
  "GetLevel input =
     do { (v, rest) \<leftarrow> GetVarint32 input; if unat v < kNumLevels then Some (uint v, rest) else None }"

text \<open>The fields: the rest of the input and the changed edit.\<close>

definition get_number :: "(u64 \<Rightarrow> VersionEdit \<Rightarrow> VersionEdit) \<Rightarrow> bytes \<Rightarrow> VersionEdit \<Rightarrow> (bytes \<times> VersionEdit) option" where
  "get_number set_field input e = do { (v, rest) \<leftarrow> GetVarint64 input; Some (rest, set_field v e) }"

definition get_comparator :: "bytes \<Rightarrow> VersionEdit \<Rightarrow> (bytes \<times> VersionEdit) option" where
  "get_comparator input e = do { (s, rest) \<leftarrow> GetSlice input; Some (rest, SetComparatorName s e) }"

definition get_compact_pointer :: "bytes \<Rightarrow> VersionEdit \<Rightarrow> (bytes \<times> VersionEdit) option" where
  "get_compact_pointer input e =
     do { (level, i) \<leftarrow> GetLevel input; (key, rest) \<leftarrow> GetInternalKey i; Some (rest, SetCompactPointer level key e) }"

definition get_deleted_file :: "bytes \<Rightarrow> VersionEdit \<Rightarrow> (bytes \<times> VersionEdit) option" where
  "get_deleted_file input e =
     do { (level, i) \<leftarrow> GetLevel input; (number, rest) \<leftarrow> GetVarint64 i; Some (rest, ve_RemoveFile level number e) }"

definition get_new_file :: "bytes \<Rightarrow> VersionEdit \<Rightarrow> (bytes \<times> VersionEdit) option" where
  "get_new_file input e =
     do {
       (level, i) \<leftarrow> GetLevel input;
       (number, i) \<leftarrow> GetVarint64 i;
       (fsize, i) \<leftarrow> GetVarint64 i;
       (small, i) \<leftarrow> GetInternalKey i;
       (large, rest) \<leftarrow> GetInternalKey i;
       Some (rest, ve_AddFile level number fsize small large e)
     }"

definition decode_field :: "u32 \<Rightarrow> bytes \<Rightarrow> VersionEdit \<Rightarrow> string + (bytes \<times> VersionEdit)" where
  "decode_field tag input e =
     (let get = (\<lambda>msg r. case r of None \<Rightarrow> Inl msg | Some x \<Rightarrow> Inr x) in
      if tag = kComparator then get ''comparator name'' (get_comparator input e)
      else if tag = kLogNumber then get ''log number'' (get_number SetLogNumber input e)
      else if tag = kPrevLogNumber then get ''previous log number'' (get_number SetPrevLogNumber input e)
      else if tag = kNextFileNumber then get ''next file number'' (get_number SetNextFile input e)
      else if tag = kLastSequence then get ''last sequence number'' (get_number SetLastSequence input e)
      else if tag = kCompactPointer then get ''compaction pointer'' (get_compact_pointer input e)
      else if tag = kDeletedFile then get ''deleted file'' (get_deleted_file input e)
      else if tag = kNewFile then get ''new-file entry'' (get_new_file input e)
      else Inl ''unknown tag'')"

lemma GetSlice_shorter: "GetSlice input = Some (v, rest) \<Longrightarrow> length rest \<le> length input"
  using GetVarint32_consumes [of input]
  by (fastforce simp: GetSlice_def GetLengthPrefixedSlice_def split: option.splits prod.splits if_splits)

lemma GetVarint64_shorter: "GetVarint64 input = Some (v, rest) \<Longrightarrow> length rest \<le> length input"
  using GetVarint64_consumes [of input v rest] by auto

lemma GetLevel_shorter: "GetLevel input = Some (v, rest) \<Longrightarrow> length rest \<le> length input"
  using GetVarint32_consumes [of input] by (fastforce simp: GetLevel_def split: bind_splits if_splits)

lemma GetInternalKey_shorter: "GetInternalKey input = Some (v, rest) \<Longrightarrow> length rest \<le> length input"
  by (auto simp: GetInternalKey_def InternalKey_DecodeFrom_def split: bind_splits if_splits dest: GetSlice_shorter)

lemma decode_field_shorter:
  assumes "decode_field tag input e = Inr (rest, e')"
  shows "length rest \<le> length input"
  using assms
  by (auto simp: decode_field_def get_comparator_def get_number_def get_compact_pointer_def get_deleted_file_def
      get_new_file_def Let_def split: if_splits option.splits bind_splits
      dest!: GetSlice_shorter GetVarint64_shorter GetLevel_shorter GetInternalKey_shorter)

function Decode_loop :: "bytes \<Rightarrow> VersionEdit \<Rightarrow> string option \<times> bytes \<times> VersionEdit" where
  "Decode_loop input e =
     (case GetVarint32 input of
        None \<Rightarrow> (None, input, e)
      | Some (tag, input1) \<Rightarrow>
          (case decode_field tag input1 e of
             Inl msg \<Rightarrow> (Some msg, input1, e)
           | Inr (input2, e') \<Rightarrow> Decode_loop input2 e'))"
  by pat_completeness auto
termination
proof (relation "measure (\<lambda>(input, e). length input)")
  fix input e x tag input1 y input2 e'
  assume a: "GetVarint32 input = Some x" "(tag, input1) = x" "decode_field tag input1 e = Inr y" "(input2, e') = y"
  then have "length input1 < length input" using GetVarint32_consumes [of input tag input1] by auto
  then show "((input2, e'), input, e) \<in> measure (\<lambda>(input, e). length input)"
    using decode_field_shorter [of tag input1 e input2 e'] a by auto
qed simp

declare Decode_loop.simps [simp del]

definition VersionEdit_DecodeFrom :: "bytes \<Rightarrow> Status \<times> VersionEdit" where
  "VersionEdit_DecodeFrom src =
     (let (msg, input, e) = Decode_loop src ve_Clear;
          msg = (if msg = None \<and> input \<noteq> [] then Some ''invalid tag'' else msg)
      in case msg of
           None \<Rightarrow> (OK, e)
         | Some m \<Rightarrow> (Corruption (str ''VersionEdit'') (str m), e))"

section \<open>Decoding an encoded edit\<close>

text \<open>Edits as the setters build them from valid arguments.\<close>

datatype EditOp =
    OpComparator bytes | OpLog u64 | OpPrevLog u64 | OpNextFile u64 | OpLastSequence u64
  | OpCompactPointer int bytes | OpRemoveFile int u64 | OpAddFile int u64 u64 bytes bytes

fun edit_op :: "EditOp \<Rightarrow> VersionEdit \<Rightarrow> VersionEdit" where
  "edit_op (OpComparator name) = SetComparatorName name"
| "edit_op (OpLog n) = SetLogNumber n"
| "edit_op (OpPrevLog n) = SetPrevLogNumber n"
| "edit_op (OpNextFile n) = SetNextFile n"
| "edit_op (OpLastSequence n) = SetLastSequence n"
| "edit_op (OpCompactPointer l k) = SetCompactPointer l k"
| "edit_op (OpRemoveFile l n) = ve_RemoveFile l n"
| "edit_op (OpAddFile l n sz a b) = ve_AddFile l n sz a b"

definition level_ok :: "int \<Rightarrow> bool" where
  "level_ok l \<longleftrightarrow> 0 \<le> l \<and> l < int kNumLevels"

definition ikey_ok :: "bytes \<Rightarrow> bool" where
  "ikey_ok k \<longleftrightarrow> k \<noteq> [] \<and> length k < 2 ^ 32"

fun edit_op_ok :: "EditOp \<Rightarrow> bool" where
  "edit_op_ok (OpComparator name) \<longleftrightarrow> length name < 2 ^ 32"
| "edit_op_ok (OpCompactPointer l k) \<longleftrightarrow> level_ok l \<and> ikey_ok k"
| "edit_op_ok (OpRemoveFile l n) \<longleftrightarrow> level_ok l"
| "edit_op_ok (OpAddFile l n sz a b) \<longleftrightarrow> level_ok l \<and> ikey_ok a \<and> ikey_ok b"
| "edit_op_ok _ \<longleftrightarrow> True"

definition file_ok :: "int \<times> FileMetaData \<Rightarrow> bool" where
  "file_ok p \<longleftrightarrow> level_ok (fst p) \<and> ikey_ok (smallest (snd p)) \<and> ikey_ok (largest (snd p)) \<and>
     fm_refs (snd p) = 0 \<and> allowed_seeks (snd p) = 2 ^ 30"

definition ve_ok :: "VersionEdit \<Rightarrow> bool" where
  "ve_ok e \<longleftrightarrow> length (ve_comparator e) < 2 ^ 32 \<and> (\<not> has_comparator e \<longrightarrow> ve_comparator e = []) \<and>
     (\<not> has_log_number e \<longrightarrow> log_number e = 0) \<and> (\<not> has_prev_log_number e \<longrightarrow> prev_log_number e = 0) \<and>
     (\<not> has_next_file_number e \<longrightarrow> next_file_number e = 0) \<and> (\<not> has_last_sequence e \<longrightarrow> last_sequence e = 0) \<and>
     (\<forall>p \<in> set (compact_pointers e). level_ok (fst p) \<and> ikey_ok (snd p)) \<and>
     sorted (deleted_files e) \<and> distinct (deleted_files e) \<and> (\<forall>p \<in> set (deleted_files e). level_ok (fst p)) \<and>
     (\<forall>p \<in> set (new_files e). file_ok p)"

lemmas edit_defs = SetComparatorName_def SetLogNumber_def SetPrevLogNumber_def SetNextFile_def SetLastSequence_def
  SetCompactPointer_def ve_RemoveFile_def ve_AddFile_def

lemma edit_op_ve_ok: "ve_ok e \<Longrightarrow> edit_op_ok x \<Longrightarrow> ve_ok (edit_op x e)"
  by (cases x)
    (auto simp: ve_ok_def edit_defs file_ok_def new_FileMetaData_def Let_def set_insort_insert sorted_insort_insert
      distinct_insort_insert)

lemma edit_ops_ve_ok: "ve_ok e \<Longrightarrow> \<forall>x \<in> set ops. edit_op_ok x \<Longrightarrow> ve_ok (fold edit_op ops e)"
  by (induction ops arbitrary: e) (simp_all add: edit_op_ve_ok)

lemma ve_Clear_ok: "ve_ok ve_Clear"
  by (simp add: ve_ok_def ve_Clear_def)

section \<open>One field\<close>

lemma GetSlice_Put [roundtrip]: "length v < 2 ^ 32 \<Longrightarrow> GetSlice (PutLengthPrefixedSlice [] v @ rest) = Some (v, rest)"
  by (simp add: GetSlice_def roundtrip)

lemma GetInternalKey_Put [roundtrip]: "ikey_ok v \<Longrightarrow> GetInternalKey (PutLengthPrefixedSlice [] v @ rest) = Some (v, rest)"
  by (simp add: GetInternalKey_def roundtrip ikey_ok_def InternalKey_DecodeFrom_def)

lemma GetLevel_Encode [roundtrip]:
  assumes "level_ok l"
  shows "GetLevel (EncodeVarint32 (word_of_int l) @ rest) = Some (l, rest)"
proof -
  have l: "0 \<le> l" "l < 7" using assms by (auto simp: level_ok_def kNumLevels_def)
  then have u: "uint (word_of_int l :: u32) = l" by (simp add: unsigned_of_int take_bit_int_eq_self)
  then have "unat (word_of_int l :: u32) < 7" using l by (simp add: unat_eq_nat_uint nat_less_iff)
  with u show ?thesis by (simp add: GetLevel_def roundtrip kNumLevels_def)
qed

lemmas tag_defs = kComparator_def kLogNumber_def kNextFileNumber_def kLastSequence_def kCompactPointer_def
  kDeletedFile_def kNewFile_def kPrevLogNumber_def

lemma Decode_loop_field:
  "decode_field tag input e = Inr (rest, e') \<Longrightarrow> Decode_loop (EncodeVarint32 tag @ input) e = Decode_loop rest e'"
  by (subst Decode_loop.simps) (simp add: roundtrip)

lemma put_append:
  "PutVarint32 dst v = dst @ EncodeVarint32 v" "PutVarint64 dst w = dst @ EncodeVarint64 w"
  "PutLengthPrefixedSlice dst s = dst @ (EncodeVarint32 (of_nat (length s)) @ s)"
  by (simp_all add: PutVarint32_def PutVarint64_def PutLengthPrefixedSlice_def)

lemma slice_bytes: "EncodeVarint32 (of_nat (length s)) @ s = PutLengthPrefixedSlice [] s"
  by (simp add: put_append)

lemma Decode_comparator:
  "length s < 2 ^ 32 \<Longrightarrow> Decode_loop (EncodeVarint32 kComparator @ PutLengthPrefixedSlice [] s @ rest) e =
    Decode_loop rest (SetComparatorName s e)"
  by (rule Decode_loop_field) (simp add: decode_field_def get_comparator_def roundtrip)

lemma Decode_numbers:
  "Decode_loop (EncodeVarint32 kLogNumber @ EncodeVarint64 n @ rest) e = Decode_loop rest (SetLogNumber n e)"
  "Decode_loop (EncodeVarint32 kPrevLogNumber @ EncodeVarint64 n @ rest) e = Decode_loop rest (SetPrevLogNumber n e)"
  "Decode_loop (EncodeVarint32 kNextFileNumber @ EncodeVarint64 n @ rest) e = Decode_loop rest (SetNextFile n e)"
  "Decode_loop (EncodeVarint32 kLastSequence @ EncodeVarint64 n @ rest) e = Decode_loop rest (SetLastSequence n e)"
  by (rule Decode_loop_field, simp add: decode_field_def get_number_def roundtrip tag_defs)+

lemma Decode_compact_pointer:
  "level_ok (fst p) \<Longrightarrow> ikey_ok (snd p) \<Longrightarrow>
   Decode_loop (enc_compact_pointer p [] @ rest) e = Decode_loop rest (SetCompactPointer (fst p) (snd p) e)"
  unfolding enc_compact_pointer_def put_append append_assoc append_Nil
  by (rule Decode_loop_field)
    (simp add: decode_field_def get_compact_pointer_def roundtrip tag_defs slice_bytes flip: append_assoc del: append_assoc,
     simp add: roundtrip)

lemma Decode_deleted_file:
  "level_ok (fst p) \<Longrightarrow> Decode_loop (enc_deleted_file p [] @ rest) e = Decode_loop rest (ve_RemoveFile (fst p) (snd p) e)"
  unfolding enc_deleted_file_def put_append append_assoc append_Nil
  by (rule Decode_loop_field) (simp add: decode_field_def get_deleted_file_def roundtrip tag_defs)

lemma Decode_new_file:
  assumes "file_ok p"
  shows "Decode_loop (enc_new_file p [] @ rest) e =
    Decode_loop rest (ve_AddFile (fst p) (fm_number (snd p)) (file_size (snd p)) (smallest (snd p)) (largest (snd p)) e)"
proof -
  let ?f = "snd p"
  have "enc_new_file p [] @ rest = EncodeVarint32 kNewFile @ (EncodeVarint32 (word_of_int (fst p)) @
      EncodeVarint64 (fm_number ?f) @ EncodeVarint64 (file_size ?f) @
      PutLengthPrefixedSlice [] (smallest ?f) @ PutLengthPrefixedSlice [] (largest ?f) @ rest)"
    by (simp add: enc_new_file_def put_append Let_def)
  moreover have "level_ok (fst p)" "ikey_ok (smallest ?f)" "ikey_ok (largest ?f)" using assms by (auto simp: file_ok_def)
  ultimately show ?thesis
    by (simp only:) (rule Decode_loop_field, simp add: decode_field_def get_new_file_def roundtrip tag_defs)
qed

text \<open>A repeated field: encoding appends, decoding applies its operation once for each element.\<close>

lemma fold_enc_append:
  assumes "\<And>p dst. enc p dst = dst @ enc p []"
  shows "fold enc xs dst = dst @ concat (map (\<lambda>p. enc p []) xs)"
proof (induction xs arbitrary: dst)
  case (Cons x xs)
  have "fold enc (x # xs) dst = enc x dst @ concat (map (\<lambda>p. enc p []) xs)" by (simp add: Cons.IH)
  also have "enc x dst = dst @ enc x []" by (rule assms)
  finally show ?case by simp
qed simp

lemma Decode_loop_fold:
  assumes "\<And>p e rest. good p \<Longrightarrow> Decode_loop (f p @ rest) e = Decode_loop rest (step p e)" "\<forall>p \<in> set xs. good p"
  shows "Decode_loop (concat (map f xs) @ rest) e = Decode_loop rest (fold step xs e)"
  using assms(2) by (induction xs arbitrary: e) (simp_all add: assms(1))

lemma fold_compact_pointers:
  "fold (\<lambda>p. SetCompactPointer (fst p) (snd p)) xs e = e\<lparr>compact_pointers := compact_pointers e @ xs\<rparr>"
  by (induction xs arbitrary: e) (simp_all add: SetCompactPointer_def)

lemma insort_insert_last: "\<forall>y \<in> set ys. y < x \<Longrightarrow> insort_insert x (ys :: 'a::linorder list) = ys @ [x]"
proof -
  assume a: "\<forall>y \<in> set ys. y < x"
  then have "insort x ys = ys @ [x]" by (induction ys) auto
  with a show ?thesis by (auto simp: insort_insert_key_def)
qed

lemma fold_deleted_files:
  "sorted (deleted_files e @ xs) \<Longrightarrow> distinct (deleted_files e @ xs) \<Longrightarrow>
   fold (\<lambda>p. ve_RemoveFile (fst p) (snd p)) xs e = e\<lparr>deleted_files := deleted_files e @ xs\<rparr>"
proof (induction xs arbitrary: e)
  case (Cons x xs)
  have "\<forall>y \<in> set (deleted_files e). y < x" using Cons.prems by (force simp: sorted_append)
  then have "ve_RemoveFile (fst x) (snd x) e = e\<lparr>deleted_files := deleted_files e @ [x]\<rparr>"
    by (simp add: ve_RemoveFile_def insort_insert_last)
  with Cons show ?case by simp
qed simp

lemma fold_new_files:
  "\<forall>p \<in> set xs. file_ok p \<Longrightarrow>
   fold (\<lambda>p. ve_AddFile (fst p) (fm_number (snd p)) (file_size (snd p)) (smallest (snd p)) (largest (snd p))) xs e =
   e\<lparr>new_files := new_files e @ xs\<rparr>"
proof (induction xs arbitrary: e)
  case (Cons x xs)
  have "new_FileMetaData\<lparr>fm_number := fm_number (snd x), file_size := file_size (snd x), smallest := smallest (snd x),
      largest := largest (snd x)\<rparr> = snd x"
    using Cons.prems by (cases "snd x") (auto simp: new_FileMetaData_def file_ok_def)
  with Cons show ?case by (simp add: ve_AddFile_def)
qed simp

lemma EncodeTo_eq:
  "VersionEdit_EncodeTo e [] =
    (if has_comparator e then EncodeVarint32 kComparator @ PutLengthPrefixedSlice [] (ve_comparator e) else []) @
    (if has_log_number e then EncodeVarint32 kLogNumber @ EncodeVarint64 (log_number e) else []) @
    (if has_prev_log_number e then EncodeVarint32 kPrevLogNumber @ EncodeVarint64 (prev_log_number e) else []) @
    (if has_next_file_number e then EncodeVarint32 kNextFileNumber @ EncodeVarint64 (next_file_number e) else []) @
    (if has_last_sequence e then EncodeVarint32 kLastSequence @ EncodeVarint64 (last_sequence e) else []) @
    concat (map (\<lambda>p. enc_compact_pointer p []) (compact_pointers e)) @
    concat (map (\<lambda>p. enc_deleted_file p []) (deleted_files e)) @
    concat (map (\<lambda>p. enc_new_file p []) (new_files e))"
proof -
  have "fold enc_compact_pointer xs dst = dst @ concat (map (\<lambda>p. enc_compact_pointer p []) xs)" for xs dst
    by (rule fold_enc_append) (simp add: enc_compact_pointer_def put_append)
  moreover have "fold enc_deleted_file xs dst = dst @ concat (map (\<lambda>p. enc_deleted_file p []) xs)" for xs dst
    by (rule fold_enc_append) (simp add: enc_deleted_file_def put_append)
  moreover have "fold enc_new_file xs dst = dst @ concat (map (\<lambda>p. enc_new_file p []) xs)" for xs dst
    by (rule fold_enc_append) (simp add: enc_new_file_def put_append Let_def)
  ultimately show ?thesis by (simp add: VersionEdit_EncodeTo_def Let_def put_append)
qed

lemma Decode_Encode:
  assumes "ve_ok e"
  shows "Decode_loop (VersionEdit_EncodeTo e []) ve_Clear = (None, [], e)"
proof -
  define e1 where "e1 = (if has_comparator e then SetComparatorName (ve_comparator e) ve_Clear else ve_Clear)"
  define e2 where "e2 = (if has_log_number e then SetLogNumber (log_number e) e1 else e1)"
  define e3 where "e3 = (if has_prev_log_number e then SetPrevLogNumber (prev_log_number e) e2 else e2)"
  define e4 where "e4 = (if has_next_file_number e then SetNextFile (next_file_number e) e3 else e3)"
  define e5 where "e5 = (if has_last_sequence e then SetLastSequence (last_sequence e) e4 else e4)"
  let ?cp = "concat (map (\<lambda>p. enc_compact_pointer p []) (compact_pointers e))"
    and ?df = "concat (map (\<lambda>p. enc_deleted_file p []) (deleted_files e))"
    and ?nf = "concat (map (\<lambda>p. enc_new_file p []) (new_files e))"
  have "Decode_loop (VersionEdit_EncodeTo e []) ve_Clear = Decode_loop (?cp @ ?df @ ?nf) e5"
    using assms unfolding EncodeTo_eq e1_def e2_def e3_def e4_def e5_def
    by (simp add: ve_ok_def Decode_comparator Decode_numbers)
  also have "\<dots> = Decode_loop (?df @ ?nf) (e5\<lparr>compact_pointers := compact_pointers e5 @ compact_pointers e\<rparr>)" (is "_ = Decode_loop _ ?e6")
    unfolding fold_compact_pointers [symmetric]
    by (rule Decode_loop_fold [where good = "\<lambda>p. level_ok (fst p) \<and> ikey_ok (snd p)"])
      (use assms in \<open>auto simp: Decode_compact_pointer ve_ok_def\<close>)
  also have "\<dots> = Decode_loop ?nf (fold (\<lambda>p. ve_RemoveFile (fst p) (snd p)) (deleted_files e) ?e6)"
    by (rule Decode_loop_fold [where good = "\<lambda>p. level_ok (fst p)"])
      (use assms in \<open>auto simp: Decode_deleted_file ve_ok_def\<close>)
  also have "fold (\<lambda>p. ve_RemoveFile (fst p) (snd p)) (deleted_files e) ?e6 = ?e6\<lparr>deleted_files := deleted_files e\<rparr>" (is "_ = ?e7")
    using assms by (subst fold_deleted_files) (auto simp: ve_ok_def e1_def e2_def e3_def e4_def e5_def edit_defs ve_Clear_def)
  also have "Decode_loop ?nf ?e7 = Decode_loop [] (?e7\<lparr>new_files := new_files ?e7 @ new_files e\<rparr>)"
    using Decode_loop_fold [of file_ok "\<lambda>p. enc_new_file p []", OF Decode_new_file, of "new_files e" "[]" ?e7] assms
      fold_new_files [of "new_files e" ?e7] by (simp add: ve_ok_def)
  also have "?e7\<lparr>new_files := new_files ?e7 @ new_files e\<rparr> = e"
    using assms by (cases e) (auto simp: ve_ok_def e1_def e2_def e3_def e4_def e5_def edit_defs ve_Clear_def)
  finally show ?thesis
    by (simp add: Decode_loop.simps [of "[]"] GetVarint32_def GetVarint32Ptr_def GetVarint32PtrFallback_def)
qed

section \<open>Properties\<close>

text \<open>
  C8. Manifest records round-trip: decoding the encoding of any edit built by the setters from
  valid levels and keys succeeds and returns that edit, every optional field included.
\<close>

theorem version_edit_roundtrip:
  assumes "\<forall>x \<in> set ops. edit_op_ok x"
  shows "VersionEdit_DecodeFrom (VersionEdit_EncodeTo (fold edit_op ops ve_Clear) []) = (OK, fold edit_op ops ve_Clear)"
  using Decode_Encode [OF edit_ops_ve_ok [OF ve_Clear_ok assms]] by (simp add: VersionEdit_DecodeFrom_def)

theorem version_edit_roundtrip_witness:
  "VersionEdit_DecodeFrom (VersionEdit_EncodeTo
     (fold edit_op [OpLog 7, OpRemoveFile 3 9, OpRemoveFile 1 4, OpAddFile 2 11 4096 [1, 2] [3]] ve_Clear) []) =
   (OK, fold edit_op [OpLog 7, OpRemoveFile 3 9, OpRemoveFile 1 4, OpAddFile 2 11 4096 [1, 2] [3]] ve_Clear)"
  using version_edit_roundtrip [of "[OpLog 7, OpRemoveFile 3 9, OpRemoveFile 1 4, OpAddFile 2 11 4096 [1, 2] [3]]"]
  by (simp add: level_ok_def ikey_ok_def kNumLevels_def)

end
