(* ===== verification/FileRanges.thy ===== *)
theory FileRanges
  imports VersionEdit Iter DbOptions
begin

text \<open>
  \<open>db/version_set.cc\<close>, the searches over the files of a level: the binary search for a key, the
  overlap tests on user keys, the choice of the overlapping files and of the boundary files of a
  compaction, and the iterator over the files of a level. A vector of file pointers is the list of
  the file descriptions it points to. \<open>None\<close> is a failed assertion, an index out of range or a
  loop that does not end.
\<close>

section \<open>Sizes\<close>

definition TargetFileSize :: "Options \<Rightarrow> u64" where
  "TargetFileSize options = max_file_size options"

text \<open>A result of type \<open>int64_t\<close> is the word of its two's complement; comparisons read it with \<open>sint\<close>.\<close>

definition MaxGrandParentOverlapBytes :: "Options \<Rightarrow> u64" where
  "MaxGrandParentOverlapBytes options = 10 * TargetFileSize options"

definition ExpandedCompactionByteSizeLimit :: "Options \<Rightarrow> u64" where
  "ExpandedCompactionByteSizeLimit options = 25 * TargetFileSize options"

definition MaxFileSizeForLevel :: "Options \<Rightarrow> nat \<Rightarrow> u64" where
  "MaxFileSizeForLevel options level = TargetFileSize options"

definition TotalFileSize :: "FileMetaData list \<Rightarrow> u64" where
  "TotalFileSize files = foldl (\<lambda>sum f. sum + file_size f) 0 files"

section \<open>Finding a file\<close>

partial_function (option) FindFile_loop ::
  "Comparator \<Rightarrow> FileMetaData list \<Rightarrow> bytes \<Rightarrow> u32 \<Rightarrow> u32 \<Rightarrow> u32 option" where
  "FindFile_loop ucmp files key left right =
     (if left < right then
        (let mid = (left + right) div 2 in
         if unat mid < length files then
           (if InternalCompare ucmp (largest (files ! unat mid)) key < 0
            then FindFile_loop ucmp files key (mid + 1) right
            else FindFile_loop ucmp files key left mid)
         else None)
      else Some right)"

definition FindFile :: "Comparator \<Rightarrow> FileMetaData list \<Rightarrow> bytes \<Rightarrow> u32 option" where
  "FindFile ucmp files key = FindFile_loop ucmp files key 0 (of_nat (length files))"

definition AfterFile :: "Comparator \<Rightarrow> bytes option \<Rightarrow> FileMetaData \<Rightarrow> bool" where
  "AfterFile ucmp ukey f \<longleftrightarrow>
     ukey \<noteq> None \<and> Compare ucmp (the ukey) (ExtractUserKey (largest f)) > 0"

definition BeforeFile :: "Comparator \<Rightarrow> bytes option \<Rightarrow> FileMetaData \<Rightarrow> bool" where
  "BeforeFile ucmp ukey f \<longleftrightarrow>
     ukey \<noteq> None \<and> Compare ucmp (the ukey) (ExtractUserKey (smallest f)) < 0"

definition SomeFileOverlapsRange ::
  "Comparator \<Rightarrow> bool \<Rightarrow> FileMetaData list \<Rightarrow> bytes option \<Rightarrow> bytes option \<Rightarrow> bool option" where
  "SomeFileOverlapsRange ucmp disjoint_sorted_files files smallest_user_key largest_user_key =
     (if \<not> disjoint_sorted_files
      then Some (list_ex (\<lambda>f. \<not> (AfterFile ucmp smallest_user_key f \<or> BeforeFile ucmp largest_user_key f)) files)
      else do {
        index \<leftarrow> (case smallest_user_key of
            None \<Rightarrow> Some 0
          | Some k \<Rightarrow> FindFile ucmp files (InternalKey k kMaxSequenceNumber kValueTypeForSeek));
        if unat index \<ge> length files then Some False
        else Some (\<not> BeforeFile ucmp largest_user_key (files ! unat index))
      })"

section \<open>The files of a range\<close>

text \<open>The loop of \<open>GetOverlappingInputs\<close>; \<open>user_begin\<close> and \<open>user_end\<close> are \<open>None\<close> when \<open>begin\<close> and \<open>end\<close> are null.\<close>

partial_function (option) GetOverlappingInputs_loop ::
  "Comparator \<Rightarrow> FileMetaData list \<Rightarrow> nat \<Rightarrow> bytes option \<Rightarrow> bytes option \<Rightarrow> nat \<Rightarrow> FileMetaData list \<Rightarrow>
   FileMetaData list option" where
  "GetOverlappingInputs_loop ucmp files level user_begin user_end i inputs =
     (if i < length files then
        (let f = files ! i;
             file_start = ExtractUserKey (smallest f);
             file_limit = ExtractUserKey (largest f)
         in if user_begin \<noteq> None \<and> Compare ucmp file_limit (the user_begin) < 0
            then GetOverlappingInputs_loop ucmp files level user_begin user_end (i + 1) inputs
            else if user_end \<noteq> None \<and> Compare ucmp file_start (the user_end) > 0
            then GetOverlappingInputs_loop ucmp files level user_begin user_end (i + 1) inputs
            else if level = 0 \<and> user_begin \<noteq> None \<and> Compare ucmp file_start (the user_begin) < 0
            then GetOverlappingInputs_loop ucmp files level (Some file_start) user_end 0 []
            else if level = 0 \<and> user_end \<noteq> None \<and> Compare ucmp file_limit (the user_end) > 0
            then GetOverlappingInputs_loop ucmp files level user_begin (Some file_limit) 0 []
            else GetOverlappingInputs_loop ucmp files level user_begin user_end (i + 1) (inputs @ [f]))
      else Some inputs)"

text \<open>The files of all levels are a list of \<open>kNumLevels\<close> lists.\<close>

definition GetOverlappingInputs ::
  "Comparator \<Rightarrow> FileMetaData list list \<Rightarrow> nat \<Rightarrow> bytes option \<Rightarrow> bytes option \<Rightarrow> FileMetaData list option" where
  "GetOverlappingInputs ucmp files level begin_key end_key =
     (if level < kNumLevels then
        GetOverlappingInputs_loop ucmp (files ! level) level
          (map_option ExtractUserKey begin_key) (map_option ExtractUserKey end_key) 0 []
      else None)"

definition OverlapInLevel ::
  "Comparator \<Rightarrow> FileMetaData list list \<Rightarrow> nat \<Rightarrow> bytes option \<Rightarrow> bytes option \<Rightarrow> bool option" where
  "OverlapInLevel ucmp files level smallest_user_key largest_user_key =
     SomeFileOverlapsRange ucmp (level > 0) (files ! level) smallest_user_key largest_user_key"

definition kMaxMemCompactLevel :: nat where
  "kMaxMemCompactLevel = 2"

function PickLevel_loop ::
  "Options \<Rightarrow> Comparator \<Rightarrow> FileMetaData list list \<Rightarrow> bytes \<Rightarrow> bytes \<Rightarrow> nat \<Rightarrow> nat option" where
  "PickLevel_loop options ucmp files smallest_user_key largest_user_key level =
     (if level < kMaxMemCompactLevel then do {
        overlap \<leftarrow> OverlapInLevel ucmp files (level + 1) (Some smallest_user_key) (Some largest_user_key);
        if overlap then Some level
        else if level + 2 < kNumLevels then do {
          overlaps \<leftarrow> GetOverlappingInputs ucmp files (level + 2)
            (Some (InternalKey smallest_user_key kMaxSequenceNumber kValueTypeForSeek))
            (Some (InternalKey largest_user_key 0 kTypeDeletion));
          if sint (TotalFileSize overlaps) > sint (MaxGrandParentOverlapBytes options) then Some level
          else PickLevel_loop options ucmp files smallest_user_key largest_user_key (level + 1)
        }
        else PickLevel_loop options ucmp files smallest_user_key largest_user_key (level + 1)
      }
      else Some level)"
  by pat_completeness auto
termination
  by (relation "measure (\<lambda>(o', u, f, s, l, level). kMaxMemCompactLevel - level)") auto

definition PickLevelForMemTableOutput ::
  "Options \<Rightarrow> Comparator \<Rightarrow> FileMetaData list list \<Rightarrow> bytes \<Rightarrow> bytes \<Rightarrow> nat option" where
  "PickLevelForMemTableOutput options ucmp files smallest_user_key largest_user_key =
     do {
       overlap \<leftarrow> OverlapInLevel ucmp files 0 (Some smallest_user_key) (Some largest_user_key);
       if \<not> overlap then PickLevel_loop options ucmp files smallest_user_key largest_user_key 0
       else Some 0
     }"

declare PickLevel_loop.simps [simp del]

section \<open>Ranges and boundary files\<close>

text \<open>The range of a list of files; the assertion that there is one can fail.\<close>

fun GetRange :: "Comparator \<Rightarrow> FileMetaData list \<Rightarrow> (bytes \<times> bytes) option" where
  "GetRange ucmp [] = None"
| "GetRange ucmp (f # fs) =
     Some (foldl (\<lambda>(s, l) f.
       (if InternalCompare ucmp (smallest f) s < 0 then smallest f else s,
        if InternalCompare ucmp (largest f) l > 0 then largest f else l)) (smallest f, largest f) fs)"

definition GetRange2 :: "Comparator \<Rightarrow> FileMetaData list \<Rightarrow> FileMetaData list \<Rightarrow> (bytes \<times> bytes) option" where
  "GetRange2 ucmp inputs1 inputs2 = GetRange ucmp (inputs1 @ inputs2)"

fun FindLargestKey :: "Comparator \<Rightarrow> FileMetaData list \<Rightarrow> bytes option" where
  "FindLargestKey ucmp [] = None"
| "FindLargestKey ucmp (f # fs) =
     Some (foldl (\<lambda>k f. if InternalCompare ucmp (largest f) k > 0 then largest f else k) (largest f) fs)"

definition FindSmallestBoundaryFile :: "Comparator \<Rightarrow> FileMetaData list \<Rightarrow> bytes \<Rightarrow> FileMetaData option" where
  "FindSmallestBoundaryFile ucmp level_files largest_key =
     foldl (\<lambda>best f.
       if InternalCompare ucmp (smallest f) largest_key > 0 \<and>
          Compare ucmp (ExtractUserKey (smallest f)) (ExtractUserKey largest_key) = 0 \<and>
          (case best of None \<Rightarrow> True | Some b \<Rightarrow> InternalCompare ucmp (smallest f) (smallest b) < 0)
       then Some f else best) None level_files"

partial_function (option) AddBoundaryInputs_loop ::
  "Comparator \<Rightarrow> FileMetaData list \<Rightarrow> bytes \<Rightarrow> FileMetaData list \<Rightarrow> FileMetaData list option" where
  "AddBoundaryInputs_loop ucmp level_files largest_key compaction_files =
     (case FindSmallestBoundaryFile ucmp level_files largest_key of
        Some f \<Rightarrow> AddBoundaryInputs_loop ucmp level_files (largest f) (compaction_files @ [f])
      | None \<Rightarrow> Some compaction_files)"

definition AddBoundaryInputs ::
  "Comparator \<Rightarrow> FileMetaData list \<Rightarrow> FileMetaData list \<Rightarrow> FileMetaData list option" where
  "AddBoundaryInputs ucmp level_files compaction_files =
     (case FindLargestKey ucmp compaction_files of
        None \<Rightarrow> Some compaction_files
      | Some largest_key \<Rightarrow> AddBoundaryInputs_loop ucmp level_files largest_key compaction_files)"

section \<open>The iterator over the files of a level\<close>

record LevelFileNumIterator =
  lf_ucmp :: Comparator
  lf_flist :: "FileMetaData list"
  lf_index :: u32

definition new_LevelFileNumIterator :: "Comparator \<Rightarrow> FileMetaData list \<Rightarrow> LevelFileNumIterator" where
  "new_LevelFileNumIterator ucmp flist =
     \<lparr>lf_ucmp = ucmp, lf_flist = flist, lf_index = of_nat (length flist)\<rparr>"

definition lf_Valid :: "LevelFileNumIterator \<Rightarrow> bool" where
  "lf_Valid it \<longleftrightarrow> unat (lf_index it) < length (lf_flist it)"

definition lf_Seek :: "bytes \<Rightarrow> LevelFileNumIterator \<Rightarrow> LevelFileNumIterator option" where
  "lf_Seek target it =
     do { index \<leftarrow> FindFile (lf_ucmp it) (lf_flist it) target; Some (it\<lparr>lf_index := index\<rparr>) }"

definition lf_SeekToFirst :: "LevelFileNumIterator \<Rightarrow> LevelFileNumIterator option" where
  "lf_SeekToFirst it = Some (it\<lparr>lf_index := 0\<rparr>)"

definition lf_SeekToLast :: "LevelFileNumIterator \<Rightarrow> LevelFileNumIterator option" where
  "lf_SeekToLast it =
     Some (it\<lparr>lf_index := (if lf_flist it = [] then 0 else of_nat (length (lf_flist it) - 1))\<rparr>)"

definition lf_Next :: "LevelFileNumIterator \<Rightarrow> LevelFileNumIterator option" where
  "lf_Next it = (if lf_Valid it then Some (it\<lparr>lf_index := lf_index it + 1\<rparr>) else None)"

definition lf_Prev :: "LevelFileNumIterator \<Rightarrow> LevelFileNumIterator option" where
  "lf_Prev it =
     (if lf_Valid it then
        (if lf_index it = 0 then Some (it\<lparr>lf_index := of_nat (length (lf_flist it))\<rparr>)
         else Some (it\<lparr>lf_index := lf_index it - 1\<rparr>))
      else None)"

definition lf_key :: "LevelFileNumIterator \<Rightarrow> bytes option" where
  "lf_key it = (if lf_Valid it then Some (largest (lf_flist it ! unat (lf_index it))) else None)"

definition lf_value :: "LevelFileNumIterator \<Rightarrow> bytes option" where
  "lf_value it =
     (if lf_Valid it then
        (let f = lf_flist it ! unat (lf_index it)
         in Some (EncodeFixed64 (fm_number f) @ EncodeFixed64 (file_size f)))
      else None)"

definition LevelFileNumIter :: "LevelFileNumIterator Iterator" where
  "LevelFileNumIter =
     \<lparr>it_Valid = lf_Valid, it_SeekToFirst = lf_SeekToFirst, it_SeekToLast = lf_SeekToLast,
      it_Seek = lf_Seek, it_Next = lf_Next, it_Prev = lf_Prev, it_key = lf_key, it_value = lf_value,
      it_status = (\<lambda>it. OK)\<rparr>"


section \<open>Well-formed levels\<close>

text \<open>
  A file covers a non-empty range of internal keys, whose sequence numbers and types are in the
  range the format allows. The files of a level above zero are disjoint
  and in order; neighbours may share a user key at the boundary.
\<close>

definition ikey_ok :: "(bytes \<Rightarrow> bool) \<Rightarrow> bytes \<Rightarrow> bool" where
  "ikey_ok D k \<longleftrightarrow> 8 \<le> length k \<and> D (ExtractUserKey k)"

definition file_ok :: "Comparator \<Rightarrow> (bytes \<Rightarrow> bool) \<Rightarrow> FileMetaData \<Rightarrow> bool" where
  "file_ok ucmp D f \<longleftrightarrow>
     ikey_ok D (smallest f) \<and> ikey_ok D (largest f) \<and> InternalCompare ucmp (smallest f) (largest f) \<le> 0 \<and>
     internal_trailer (largest f) \<le> PackSequenceAndType kMaxSequenceNumber kTypeValue"

definition level_ok :: "Comparator \<Rightarrow> (bytes \<Rightarrow> bool) \<Rightarrow> FileMetaData list \<Rightarrow> bool" where
  "level_ok ucmp D files \<longleftrightarrow>
     list_all (file_ok ucmp D) files \<and>
     sorted_wrt (\<lambda>f g. InternalCompare ucmp (largest f) (smallest g) < 0) files"

abbreviation file_start :: "FileMetaData \<Rightarrow> bytes" where
  "file_start f \<equiv> ExtractUserKey (smallest f)"

abbreviation file_limit :: "FileMetaData \<Rightarrow> bytes" where
  "file_limit f \<equiv> ExtractUserKey (largest f)"

text \<open>The file meets the range of user keys; a missing bound is open.\<close>

definition in_range :: "Comparator \<Rightarrow> bytes option \<Rightarrow> bytes option \<Rightarrow> FileMetaData \<Rightarrow> bool" where
  "in_range ucmp lo hi f \<longleftrightarrow> \<not> AfterFile ucmp lo f \<and> \<not> BeforeFile ucmp hi f"

definition overlapping :: "Comparator \<Rightarrow> FileMetaData \<Rightarrow> FileMetaData \<Rightarrow> bool" where
  "overlapping ucmp f g \<longleftrightarrow> in_range ucmp (Some (file_start g)) (Some (file_limit g)) f"

text \<open>The entries of the iterator over a level.\<close>

definition level_kvs :: "FileMetaData list \<Rightarrow> (bytes \<times> bytes) list" where
  "level_kvs files = map (\<lambda>f. (largest f, EncodeFixed64 (fm_number f) @ EncodeFixed64 (file_size f))) files"

lemma length_level_kvs [simp]: "length (level_kvs files) = length files"
  by (simp add: level_kvs_def)

lemma fst_level_kvs [simp]: "i < length files \<Longrightarrow> fst (level_kvs files ! i) = largest (files ! i)"
  by (simp add: level_kvs_def)

lemma Compare_InternalKeyComparator [simp]: "Compare (InternalKeyComparator ucmp) = InternalCompare ucmp"
  by (simp add: InternalKeyComparator_def)

context user_comparator
begin

lemma ikey_order: "key_order (InternalCompare c) (ikey_ok dom)"
  using internal.key_order_axioms by (simp add: ikey_ok_def [abs_def])

lemma user_cmp_le:
  assumes "ikey_ok dom a" "ikey_ok dom b" "InternalCompare c a b \<le> 0"
  shows "Compare c (ExtractUserKey a) (ExtractUserKey b) \<le> 0"
  using assms InternalCompare_pos [of a b] by (force simp: ikey_ok_def)

lemma file_user_range:
  assumes "file_ok c dom f"
  shows "dom (file_start f)" "dom (file_limit f)" "Compare c (file_start f) (file_limit f) \<le> 0"
  using assms user_cmp_le by (auto simp: file_ok_def ikey_ok_def)

lemma level_sorted: "level_ok c dom files \<Longrightarrow> sorted_kvs (InternalCompare c) (ikey_ok dom) (level_kvs files)"
proof -
  assume ok: "level_ok c dom files"
  have "InternalCompare c (largest f) (largest g) < 0"
    if "f \<in> set files" "g \<in> set files" "InternalCompare c (largest f) (smallest g) < 0" for f g
    using that ok key_order.less_le_trans [OF ikey_order, of "largest f" "smallest g" "largest g"]
    by (auto simp: level_ok_def list_all_iff file_ok_def)
  then have "sorted_wrt (\<lambda>f g. InternalCompare c (largest f) (largest g) < 0) files"
    using ok sorted_wrt_mono_rel [of files "\<lambda>f g. InternalCompare c (largest f) (smallest g) < 0"]
    by (auto simp: level_ok_def)
  with ok show ?thesis
    by (auto simp: sorted_kvs_def level_kvs_def sorted_wrt_map level_ok_def list_all_iff file_ok_def)
qed

end

context user_comparator
begin

lemma FindFile_loop_spec:
  assumes "sorted_kvs (InternalCompare c) (ikey_ok dom) (level_kvs files)" "ikey_ok dom key" "length files < 2 ^ 31"
    and "unat left \<le> lower_bound (InternalCompare c) (level_kvs files) key"
    and "lower_bound (InternalCompare c) (level_kvs files) key \<le> unat right" "unat right \<le> length files"
  shows "FindFile_loop c files key left right = Some (of_nat (lower_bound (InternalCompare c) (level_kvs files) key))"
  using assms(4-6)
proof (induction "unat right - unat left" arbitrary: left right rule: less_induct)
  case less
  let ?lb = "lower_bound (InternalCompare c) (level_kvs files) key"
  show ?case
  proof (cases "left < right")
    case False
    then have "?lb = unat right" using less.prems by (simp add: word_less_nat_alt)
    with False show ?thesis by (subst FindFile_loop.simps) simp
  next
    case True
    define mid where "mid = (left + right) div 2"
    have "unat left + unat right < 2 ^ 32" using less.prems assms(3) by simp
    then have mid: "unat mid = (unat left + unat right) div 2"
      by (simp add: mid_def unat_div unat_word_ariths)
    then have m: "unat left \<le> unat mid" "unat mid < unat right" "unat mid < length files"
      using True less.prems by (auto simp: word_less_nat_alt)
    then have mid1: "unat (mid + 1) = unat mid + 1" using assms(3) by (simp add: unat_word_ariths)
    have iff: "InternalCompare c (largest (files ! unat mid)) key < 0 \<longleftrightarrow> unat mid < ?lb"
      using lower_bound_iff [OF ikey_order assms(1,2), of "unat mid"] m(3) by simp
    show ?thesis
    proof (cases "unat mid < ?lb")
      case lt: True
      have "FindFile_loop c files key (mid + 1) right = Some (of_nat ?lb)"
        using less.hyps [of right "mid + 1"] less.prems m mid1 lt by simp
      with True lt iff m(3) show ?thesis by (subst FindFile_loop.simps) (simp flip: mid_def)
    next
      case ge: False
      have "FindFile_loop c files key left mid = Some (of_nat ?lb)"
        using less.hyps [of mid left] less.prems m ge by simp
      with True ge iff m(3) show ?thesis by (subst FindFile_loop.simps) (simp flip: mid_def)
    qed
  qed
qed

text \<open>The binary search finds the first file whose largest key is not smaller than the key.\<close>

lemma FindFile_spec:
  assumes "level_ok c dom files" "ikey_ok dom key" "length files < 2 ^ 31"
  shows "FindFile c files key = Some (of_nat (lower_bound (InternalCompare c) (level_kvs files) key))"
proof -
  have "unat (of_nat (length files) :: u32) = length files" using assms(3) by (simp add: unat_of_nat_u32)
  then show ?thesis
    using FindFile_loop_spec [OF level_sorted [OF assms(1)] assms(2,3), of 0 "of_nat (length files)"]
      lower_bound_le [of "InternalCompare c" "level_kvs files" key]
    by (simp add: FindFile_def)
qed

lemma FindFile_nth:
  assumes "level_ok c dom files" "ikey_ok dom key" "length files < 2 ^ 31"
  obtains n where "FindFile c files key = Some (of_nat n)" "n \<le> length files" "unat (of_nat n :: u32) = n"
    "\<And>i. i < length files \<Longrightarrow> InternalCompare c (largest (files ! i)) key < 0 \<longleftrightarrow> i < n"
proof
  let ?n = "lower_bound (InternalCompare c) (level_kvs files) key"
  show "FindFile c files key = Some (of_nat ?n)" by (rule FindFile_spec [OF assms])
  show le: "?n \<le> length files" using lower_bound_le [of "InternalCompare c" "level_kvs files" key] by simp
  show "unat (of_nat ?n :: u32) = ?n" using le assms(3) by (simp add: unat_of_nat_u32)
  show "InternalCompare c (largest (files ! i)) key < 0 \<longleftrightarrow> i < ?n" if "i < length files" for i
    using lower_bound_iff [OF ikey_order level_sorted [OF assms(1)] assms(2), of i] that by simp
qed

lemma seek_key_less:
  assumes "file_ok c dom f" "dom u"
  shows "InternalCompare c (largest f) (InternalKey u kMaxSequenceNumber kValueTypeForSeek) < 0 \<longleftrightarrow>
    AfterFile c (Some u) f"
  using assms InternalCompare_neg [of "largest f" "InternalKey u kMaxSequenceNumber kValueTypeForSeek"]
    compare_sign [of "file_limit f" u]
  by (auto simp: file_ok_def ikey_ok_def AfterFile_def kValueTypeForSeek_def)

text \<open>Along a level, the files start and end at increasing user keys.\<close>

lemma level_user_order:
  assumes "level_ok c dom files" "i < j" "j < length files"
  shows "Compare c (file_limit (files ! i)) (file_start (files ! j)) \<le> 0"
    and "Compare c (file_start (files ! i)) (file_start (files ! j)) \<le> 0"
    and "Compare c (file_limit (files ! i)) (file_limit (files ! j)) \<le> 0"
proof -
  have f: "file_ok c dom (files ! i)" "file_ok c dom (files ! j)"
    using assms by (auto simp: level_ok_def list_all_length)
  have "InternalCompare c (largest (files ! i)) (smallest (files ! j)) < 0"
    using assms sorted_wrt_nth_less [of _ files i j] by (auto simp: level_ok_def)
  then show 1: "Compare c (file_limit (files ! i)) (file_start (files ! j)) \<le> 0"
    using f user_cmp_le [of "largest (files ! i)" "smallest (files ! j)"] by (auto simp: file_ok_def)
  show "Compare c (file_start (files ! i)) (file_start (files ! j)) \<le> 0"
    using compare_trans [OF _ _ _ file_user_range(3) [OF f(1)] 1] file_user_range [OF f(1)] file_user_range [OF f(2)] by blast
  show "Compare c (file_limit (files ! i)) (file_limit (files ! j)) \<le> 0"
    using compare_trans [OF _ _ _ 1 file_user_range(3) [OF f(2)]] file_user_range [OF f(1)] file_user_range [OF f(2)] by blast
qed

lemma not_BeforeFile:
  assumes "file_ok c dom f" "case hi of None \<Rightarrow> True | Some h \<Rightarrow> dom h"
  shows "\<not> BeforeFile c hi f \<longleftrightarrow> (\<forall>h. hi = Some h \<longrightarrow> Compare c (file_start f) h \<le> 0)"
  using assms not_less [of _ "file_start f"] file_user_range(1) [OF assms(1)]
  by (auto simp: BeforeFile_def split: option.splits)

lemma not_AfterFile:
  assumes "file_ok c dom f" "case lo of None \<Rightarrow> True | Some l \<Rightarrow> dom l"
  shows "\<not> AfterFile c lo f \<longleftrightarrow> (\<forall>l. lo = Some l \<longrightarrow> Compare c l (file_limit f) \<le> 0)"
  by (auto simp: AfterFile_def)

lemma BeforeFile_mono:
  assumes "level_ok c dom files" "i \<le> j" "j < length files" "case hi of None \<Rightarrow> True | Some h \<Rightarrow> dom h"
    and "\<not> BeforeFile c hi (files ! j)"
  shows "\<not> BeforeFile c hi (files ! i)"
proof (cases "i = j")
  case False
  then have f: "file_ok c dom (files ! i)" "file_ok c dom (files ! j)"
    and le: "Compare c (file_start (files ! i)) (file_start (files ! j)) \<le> 0"
    using assms level_user_order(2) [OF assms(1), of i j] by (auto simp: level_ok_def list_all_length)
  show ?thesis
    using assms(5) le compare_trans [OF file_user_range(1) [OF f(1)] file_user_range(1) [OF f(2)]] assms(4)
    unfolding not_BeforeFile [OF f(1) assms(4)] not_BeforeFile [OF f(2) assms(4)] by auto
qed (use assms in simp)

lemma SomeFileOverlapsRange_iff:
  assumes "if disjoint then level_ok c dom files \<and> length files < 2 ^ 31 else list_all (file_ok c dom) files"
    and "case lo of None \<Rightarrow> True | Some l \<Rightarrow> dom l" "case hi of None \<Rightarrow> True | Some h \<Rightarrow> dom h"
  shows "SomeFileOverlapsRange c disjoint files lo hi = Some (\<exists>f \<in> set files. in_range c lo hi f)"
proof (cases disjoint)
  case False
  then show ?thesis by (auto simp: SomeFileOverlapsRange_def list_ex_iff in_range_def)
next
  case True
  then have ok: "level_ok c dom files" "length files < 2 ^ 31" using assms(1) by auto
  then have f: "i < length files \<Longrightarrow> file_ok c dom (files ! i)" for i by (simp add: level_ok_def list_all_length)
  obtain n :: nat where n: "(case lo of None \<Rightarrow> Some 0
      | Some k \<Rightarrow> FindFile c files (InternalKey k kMaxSequenceNumber kValueTypeForSeek)) = Some (of_nat n)"
    "unat (of_nat n :: u32) = n" "\<And>i. i < length files \<Longrightarrow> AfterFile c lo (files ! i) \<longleftrightarrow> i < n"
  proof (cases lo)
    case None
    then show thesis using that [of 0] by (simp add: AfterFile_def)
  next
    case (Some k)
    then have "ikey_ok dom (InternalKey k kMaxSequenceNumber kValueTypeForSeek)" using assms(2) by (simp add: ikey_ok_def)
    from FindFile_nth [OF ok(1) this ok(2)] show thesis
      using that seek_key_less [OF f] Some assms(2) by auto
  qed
  have "(\<exists>f \<in> set files. in_range c lo hi f) \<longleftrightarrow> (\<exists>i. n \<le> i \<and> i < length files \<and> \<not> BeforeFile c hi (files ! i))"
    using n(3) unfolding in_range_def by (auto simp: in_set_conv_nth Bex_def linorder_not_less)
  also have "\<dots> \<longleftrightarrow> n < length files \<and> \<not> BeforeFile c hi (files ! n)"
    using BeforeFile_mono [OF ok(1) _ _ assms(3), of n] by fastforce
  finally show ?thesis
    using True n(1,2) by (auto simp: SomeFileOverlapsRange_def)
qed

end

section \<open>The overlapping files\<close>

lemma length_filter_less_mono:
  assumes "\<And>x. x \<in> set xs \<Longrightarrow> Q x \<Longrightarrow> P x" "y \<in> set xs" "P y" "\<not> Q y"
  shows "length (filter Q xs) < length (filter P xs)"
proof -
  have "filter Q xs = filter Q (filter P xs)" using assms(1) by (auto intro: filter_cong)
  also have "length \<dots> < length (filter P xs)" using assms(2-4) by (intro length_filter_less [of y]) auto
  finally show ?thesis .
qed

text \<open>\<open>within lo hi f\<close>: the file lies in the range. The restarts of the loop at level zero widen the range.\<close>

definition within :: "Comparator \<Rightarrow> bytes option \<Rightarrow> bytes option \<Rightarrow> FileMetaData \<Rightarrow> bool" where
  "within ucmp lo hi f \<longleftrightarrow>
     (lo \<noteq> None \<longrightarrow> \<not> Compare ucmp (file_start f) (the lo) < 0) \<and> (hi \<noteq> None \<longrightarrow> \<not> Compare ucmp (file_limit f) (the hi) > 0)"

definition wider :: "Comparator \<Rightarrow> (bytes \<Rightarrow> bool) \<Rightarrow> bytes option \<times> bytes option \<Rightarrow> bytes option \<times> bytes option \<Rightarrow> bool" where
  "wider ucmp D r r' \<longleftrightarrow>
     (case fst r of None \<Rightarrow> fst r' = None | Some l \<Rightarrow> \<exists>l'. fst r' = Some l' \<and> D l' \<and> Compare ucmp l' l \<le> 0) \<and>
     (case snd r of None \<Rightarrow> snd r' = None | Some h \<Rightarrow> \<exists>h'. snd r' = Some h' \<and> D h' \<and> Compare ucmp h h' \<le> 0)"

definition excess :: "Comparator \<Rightarrow> FileMetaData list \<Rightarrow> bytes option \<Rightarrow> bytes option \<Rightarrow> nat" where
  "excess ucmp files lo hi =
     length (filter (\<lambda>f. lo \<noteq> None \<and> Compare ucmp (file_start f) (the lo) < 0) files) +
     length (filter (\<lambda>f. hi \<noteq> None \<and> Compare ucmp (file_limit f) (the hi) > 0) files)"

text \<open>The result of the loop.\<close>

definition chosen ::
  "Comparator \<Rightarrow> (bytes \<Rightarrow> bool) \<Rightarrow> FileMetaData list \<Rightarrow> nat \<Rightarrow> bytes option \<Rightarrow> bytes option \<Rightarrow> FileMetaData list \<Rightarrow> bool" where
  "chosen ucmp D files level lo hi r \<longleftrightarrow>
     (\<exists>lo' hi'. r = filter (in_range ucmp lo' hi') files \<and> wider ucmp D (lo, hi) (lo', hi') \<and>
       (if level = 0 then list_all (within ucmp lo' hi') r else lo' = lo \<and> hi' = hi))"

abbreviation bound_ok :: "(bytes \<Rightarrow> bool) \<Rightarrow> bytes option \<Rightarrow> bool" where
  "bound_ok D b \<equiv> (case b of None \<Rightarrow> True | Some k \<Rightarrow> D k)"

context user_comparator
begin

lemma wider_refl: "bound_ok dom lo \<Longrightarrow> bound_ok dom hi \<Longrightarrow> wider c dom (lo, hi) (lo, hi)"
  by (auto simp: wider_def compare_refl split: option.splits)

lemma wider_start:
  assumes "wider c dom (Some l', hi) r" "dom l" "dom l'" "Compare c l' l \<le> 0"
  shows "wider c dom (Some l, hi) r"
  using assms compare_trans [of _ l' l] by (auto simp: wider_def split: option.splits)

lemma wider_limit:
  assumes "wider c dom (lo, Some h') r" "dom h" "dom h'" "Compare c h h' \<le> 0"
  shows "wider c dom (lo, Some h) r"
  using assms compare_trans [of h h'] by (auto simp: wider_def split: option.splits)

lemma excess_start:
  assumes "list_all (file_ok c dom) files" "f \<in> set files" "dom l" "Compare c (file_start f) l < 0"
  shows "excess c files (Some (file_start f)) hi < excess c files (Some l) hi"
proof -
  have f: "g \<in> set files \<Longrightarrow> dom (file_start g)" for g using assms(1) file_user_range(1) by (auto simp: list_all_iff)
  have "length (filter (\<lambda>g. Compare c (file_start g) (file_start f) < 0) files) <
      length (filter (\<lambda>g. Compare c (file_start g) l < 0) files)"
    using f less_trans [of _ "file_start f" l] assms(2-4)
    by (intro length_filter_less_mono [of _ _ _ f]) (auto simp: compare_refl)
  then show ?thesis by (simp add: excess_def)
qed

lemma excess_limit:
  assumes "list_all (file_ok c dom) files" "f \<in> set files" "dom h" "Compare c (file_limit f) h > 0"
  shows "excess c files lo (Some (file_limit f)) < excess c files lo (Some h)"
proof -
  have f: "g \<in> set files \<Longrightarrow> dom (file_limit g)" for g using assms(1) file_user_range(2) by (auto simp: list_all_iff)
  have "length (filter (\<lambda>g. Compare c (file_limit g) (file_limit f) > 0) files) <
      length (filter (\<lambda>g. Compare c (file_limit g) h > 0) files)"
    using f less_trans [of h "file_limit f"] assms(2-4) compare_sign
    by (intro length_filter_less_mono [of _ _ _ f]) (auto simp: compare_refl)
  then show ?thesis by (simp add: excess_def)
qed

lemma chosen_start:
  assumes "chosen c dom files 0 (Some l') hi r" "dom l" "dom l'" "Compare c l' l \<le> 0"
  shows "chosen c dom files 0 (Some l) hi r"
  using assms wider_start [OF _ assms(2-4), of hi] unfolding chosen_def by auto

lemma chosen_limit:
  assumes "chosen c dom files 0 lo (Some h') r" "dom h" "dom h'" "Compare c h h' \<le> 0"
  shows "chosen c dom files 0 lo (Some h) r"
  using assms wider_limit [OF _ assms(2-4), of lo] unfolding chosen_def by auto

text \<open>One round of the loop: the file is skipped or taken, or the search restarts with a wider range.\<close>

lemma GetOverlappingInputs_loop_cases:
  assumes "i < length files" "file_ok c dom (files ! i)" "bound_ok dom lo" "bound_ok dom hi"
  obtains (step) "GetOverlappingInputs_loop c files level lo hi i inputs =
      GetOverlappingInputs_loop c files level lo hi (i + 1)
        (if in_range c lo hi (files ! i) then inputs @ [files ! i] else inputs)"
    "level = 0 \<Longrightarrow> in_range c lo hi (files ! i) \<Longrightarrow> within c lo hi (files ! i)"
  | (start) l where "GetOverlappingInputs_loop c files level lo hi i inputs =
      GetOverlappingInputs_loop c files level (Some (file_start (files ! i))) hi 0 []"
    "level = 0" "lo = Some l" "Compare c (file_start (files ! i)) l < 0"
  | (limit) h where "GetOverlappingInputs_loop c files level lo hi i inputs =
      GetOverlappingInputs_loop c files level lo (Some (file_limit (files ! i))) 0 []"
    "level = 0" "hi = Some h" "Compare c (file_limit (files ! i)) h > 0"
proof -
  let ?f = "files ! i"
  have iff: "in_range c lo hi ?f \<longleftrightarrow> \<not> (lo \<noteq> None \<and> Compare c (file_limit ?f) (the lo) < 0) \<and>
      \<not> (hi \<noteq> None \<and> Compare c (file_start ?f) (the hi) > 0)"
    using assms(3,4) compare_sign file_user_range [OF assms(2)]
    by (auto simp: in_range_def AfterFile_def BeforeFile_def split: option.splits)
  note unf = GetOverlappingInputs_loop.simps [of c files level lo hi i inputs]
  consider "\<not> in_range c lo hi ?f" | "in_range c lo hi ?f" "level = 0" "lo \<noteq> None" "Compare c (file_start ?f) (the lo) < 0"
    | "in_range c lo hi ?f" "\<not> (level = 0 \<and> lo \<noteq> None \<and> Compare c (file_start ?f) (the lo) < 0)"
      "level = 0" "hi \<noteq> None" "Compare c (file_limit ?f) (the hi) > 0"
    | "in_range c lo hi ?f" "\<not> (level = 0 \<and> lo \<noteq> None \<and> Compare c (file_start ?f) (the lo) < 0)"
      "\<not> (level = 0 \<and> hi \<noteq> None \<and> Compare c (file_limit ?f) (the hi) > 0)" by blast
  then show thesis
  proof cases
    case 1
    then have "GetOverlappingInputs_loop c files level lo hi i inputs = GetOverlappingInputs_loop c files level lo hi (i + 1) inputs"
      using assms(1) iff by (subst unf) (auto simp: Let_def)
    with 1 show thesis by (intro step) simp_all
  next
    case 2
    then have "GetOverlappingInputs_loop c files level lo hi i inputs =
        GetOverlappingInputs_loop c files level (Some (file_start ?f)) hi 0 []"
      using assms(1) iff by (subst unf) (auto simp: Let_def)
    then show thesis by (rule start) (use 2 in auto)
  next
    case 3
    then have "GetOverlappingInputs_loop c files level lo hi i inputs =
        GetOverlappingInputs_loop c files level lo (Some (file_limit ?f)) 0 []"
      using assms(1) iff by (subst unf) (auto simp: Let_def)
    then show thesis by (rule limit) (use 3 in auto)
  next
    case 4
    then have "GetOverlappingInputs_loop c files level lo hi i inputs =
        GetOverlappingInputs_loop c files level lo hi (i + 1) (inputs @ [?f])"
      using assms(1) iff by (subst unf) (auto simp: Let_def)
    then show thesis using 4 by (intro step) (auto simp: within_def)
  qed
qed

lemma GetOverlappingInputs_loop_spec:
  assumes "list_all (file_ok c dom) files" "bound_ok dom lo" "bound_ok dom hi"
    and "inputs = filter (in_range c lo hi) (take i files)" "i \<le> length files"
    and "level = 0 \<Longrightarrow> list_all (within c lo hi) inputs"
  shows "\<exists>r. GetOverlappingInputs_loop c files level lo hi i inputs = Some r \<and> chosen c dom files level lo hi r"
  using assms(2-6)
proof (induction "(excess c files lo hi, length files - i)" arbitrary: lo hi i inputs
    rule: wf_induct [OF wf_lex_prod [OF wf_less wf_less], rule_format, case_names step])
  case step
  show ?case
  proof (cases "i < length files")
    case False
    with step.prems show ?thesis
      using wider_refl [of lo hi] by (subst GetOverlappingInputs_loop.simps) (auto simp: chosen_def)
  next
    case True
    let ?f = "files ! i"
    have mem: "?f \<in> set files" and ok: "file_ok c dom ?f" using True assms(1) by (auto simp: list_all_length)
    show ?thesis
    proof (rule GetOverlappingInputs_loop_cases [OF True ok step.prems(1,2), where level = level and inputs = inputs], goal_cases)
      case 1
      show ?case
        unfolding 1(1) using step.prems True 1(2) by (intro step.hyps) (auto simp: take_Suc_conv_app_nth)
    next
      case (2 l)
      then have d: "dom l" "dom (file_start ?f)" using step.prems(1) file_user_range(1) [OF ok] by auto
      have "\<exists>r. GetOverlappingInputs_loop c files level (Some (file_start ?f)) hi 0 [] = Some r \<and>
          chosen c dom files level (Some (file_start ?f)) hi r"
        using step.prems(2) d excess_start [OF assms(1) mem d(1) 2(4), of hi] 2(3) by (intro step.hyps) auto
      then show ?case using 2 chosen_start [of files "file_start ?f" hi _ l] d by auto
    next
      case (3 h)
      then have d: "dom h" "dom (file_limit ?f)" using step.prems(2) file_user_range(2) [OF ok] by auto
      have "\<exists>r. GetOverlappingInputs_loop c files level lo (Some (file_limit ?f)) 0 [] = Some r \<and>
          chosen c dom files level lo (Some (file_limit ?f)) r"
        using step.prems(1) d excess_limit [OF assms(1) mem d(1) 3(4), of lo] 3(3) by (intro step.hyps) auto
      then show ?case using 3 chosen_limit [of files lo "file_limit ?f" _ h] d compare_sign [of h "file_limit ?f"] by auto
    qed
  qed
qed

lemma GetOverlappingInputs_spec:
  assumes "level < kNumLevels" "list_all (file_ok c dom) (files ! level)"
    and "bound_ok (ikey_ok dom) lo" "bound_ok (ikey_ok dom) hi"
  obtains r where "GetOverlappingInputs c files level lo hi = Some r"
    "chosen c dom (files ! level) level (map_option ExtractUserKey lo) (map_option ExtractUserKey hi) r"
proof -
  have "bound_ok dom (map_option ExtractUserKey lo)" "bound_ok dom (map_option ExtractUserKey hi)"
    using assms(3,4) by (auto simp: ikey_ok_def split: option.splits)
  from GetOverlappingInputs_loop_spec [OF assms(2) this refl, of 0 level] assms(1) that show thesis
    by (auto simp: GetOverlappingInputs_def)
qed

lemma in_range_wider:
  assumes "file_ok c dom f" "wider c dom (lo, hi) (lo', hi')" "bound_ok dom lo" "bound_ok dom hi" "in_range c lo hi f"
  shows "in_range c lo' hi' f"
proof -
  have d: "bound_ok dom lo'" "bound_ok dom hi'" using assms(2) by (auto simp: wider_def split: option.splits)
  have "Compare c l' (file_limit f) \<le> 0" if lo': "lo' = Some l'" for l'
  proof -
    obtain l where l: "lo = Some l" "dom l'" "Compare c l' l \<le> 0" using assms(2) lo' by (cases lo) (auto simp: wider_def)
    then have "Compare c l (file_limit f) \<le> 0" using assms(5) by (auto simp: in_range_def AfterFile_def)
    then show ?thesis using l assms(3) compare_trans [of l' l "file_limit f"] file_user_range(2) [OF assms(1)] by simp
  qed
  moreover have "Compare c (file_start f) h' \<le> 0" if hi': "hi' = Some h'" for h'
  proof -
    obtain h where h: "hi = Some h" "dom h'" "Compare c h h' \<le> 0" using assms(2) hi' by (cases hi) (auto simp: wider_def)
    then have "Compare c (file_start f) h \<le> 0"
      using assms(5) not_BeforeFile [OF assms(1,4)] by (auto simp: in_range_def)
    then show ?thesis using h assms(4) compare_trans [of "file_start f" h h'] file_user_range(1) [OF assms(1)] by simp
  qed
  ultimately show ?thesis
    using not_AfterFile [OF assms(1) d(1)] not_BeforeFile [OF assms(1) d(2)] by (auto simp: in_range_def)
qed

lemma within_wider:
  assumes "file_ok c dom f" "within c lo hi f" "bound_ok dom lo" "bound_ok dom hi"
  shows "wider c dom (map_option (\<lambda>_. file_start f) lo, map_option (\<lambda>_. file_limit f) hi) (lo, hi)"
  using assms(2-4) not_less [OF file_user_range(1) [OF assms(1)]]
  by (auto simp: within_def wider_def split: option.splits)

text \<open>
  What the chosen files are: they include every file that meets the range, and at level zero they
  are closed under overlap.
\<close>

lemma chosen_complete:
  assumes "chosen c dom files level lo hi r" "list_all (file_ok c dom) files" "bound_ok dom lo" "bound_ok dom hi"
  shows "set r \<subseteq> set files" and "f \<in> set files \<Longrightarrow> in_range c lo hi f \<Longrightarrow> f \<in> set r"
    and "level \<noteq> 0 \<Longrightarrow> r = filter (in_range c lo hi) files"
    and "level = 0 \<Longrightarrow> f \<in> set r \<Longrightarrow> g \<in> set files \<Longrightarrow> overlapping c g f \<Longrightarrow> g \<in> set r"
proof -
  obtain lo' hi' where r: "r = filter (in_range c lo' hi') files" "wider c dom (lo, hi) (lo', hi')"
    "if level = 0 then list_all (within c lo' hi') r else lo' = lo \<and> hi' = hi"
    using assms(1) by (auto simp: chosen_def)
  show "set r \<subseteq> set files" using r(1) by auto
  have d: "bound_ok dom lo'" "bound_ok dom hi'" using r(2) by (auto simp: wider_def split: option.splits)
  show "r = filter (in_range c lo hi) files" if "level \<noteq> 0" using r that by simp
  show "f \<in> set r" if "f \<in> set files" "in_range c lo hi f"
    using that in_range_wider [OF _ r(2) assms(3,4) that(2)] assms(2) r(1) by (auto simp: list_all_iff)
  show "g \<in> set r" if g: "level = 0" "f \<in> set r" "g \<in> set files" "overlapping c g f"
  proof -
    have ok: "file_ok c dom f" "file_ok c dom g" using assms(2) g(2,3) r(1) by (auto simp: list_all_iff)
    have w: "within c lo' hi' f" using r(3) g(1,2) by (auto simp: list_all_iff)
    let ?l = "map_option (\<lambda>_. file_start f) lo'" and ?h = "map_option (\<lambda>_. file_limit f) hi'"
    have "in_range c ?l ?h g"
      using g(4) by (auto simp: overlapping_def in_range_def AfterFile_def BeforeFile_def)
    moreover have "bound_ok dom ?l" "bound_ok dom ?h" using file_user_range [OF ok(1)] by (auto split: option.splits)
    ultimately have "in_range c lo' hi' g" by (rule in_range_wider [OF ok(2) within_wider [OF ok(1) w d], rotated 2])
    then show ?thesis using r(1) g(3) by simp
  qed
qed

end

section \<open>Ranges and boundary files\<close>

context user_comparator
begin

lemma GetRange_foldl:
  assumes "list_all (file_ok c dom) fs" "ikey_ok dom s" "ikey_ok dom l"
    and "foldl (\<lambda>(s, l) f.
       (if InternalCompare c (smallest f) s < 0 then smallest f else s,
        if InternalCompare c (largest f) l > 0 then largest f else l)) (s, l) fs = (s', l')"
  shows "ikey_ok dom s' \<and> ikey_ok dom l' \<and> InternalCompare c s' s \<le> 0 \<and> InternalCompare c l l' \<le> 0 \<and>
    (\<forall>f \<in> set fs. InternalCompare c s' (smallest f) \<le> 0 \<and> InternalCompare c (largest f) l' \<le> 0) \<and>
    s' \<in> insert s (smallest ` set fs) \<and> l' \<in> insert l (largest ` set fs)"
  using assms
proof (induction fs arbitrary: s l)
  case Nil
  then show ?case using key_order.cmp_refl [OF ikey_order] by simp
next
  case (Cons f fs)
  have f: "ikey_ok dom (smallest f)" "ikey_ok dom (largest f)" using Cons.prems(1) by (auto simp: file_ok_def)
  let ?s = "if InternalCompare c (smallest f) s < 0 then smallest f else s"
  let ?l = "if InternalCompare c (largest f) l > 0 then largest f else l"
  have k: "ikey_ok dom ?s" "ikey_ok dom ?l" using f Cons.prems(2,3) by auto
  have le: "InternalCompare c ?s s \<le> 0" "InternalCompare c ?s (smallest f) \<le> 0"
    "InternalCompare c l ?l \<le> 0" "InternalCompare c (largest f) ?l \<le> 0"
    using key_order.cmp_refl [OF ikey_order] key_order.not_less [OF ikey_order] key_order.cmp_sign [OF ikey_order]
      f Cons.prems(2,3) by auto force+
  have "InternalCompare c s' ?s \<le> 0 \<and> InternalCompare c ?l l' \<le> 0 \<and> ikey_ok dom s' \<and> ikey_ok dom l'"
    and rest: "\<forall>f \<in> set fs. InternalCompare c s' (smallest f) \<le> 0 \<and> InternalCompare c (largest f) l' \<le> 0"
    "s' \<in> insert ?s (smallest ` set fs)" "l' \<in> insert ?l (largest ` set fs)"
    using Cons.IH [OF _ k] Cons.prems(1,4) by simp_all
  then have ih: "InternalCompare c s' ?s \<le> 0" "InternalCompare c ?l l' \<le> 0" "ikey_ok dom s'" "ikey_ok dom l'" by auto
  note tr = key_order.cmp_trans [OF ikey_order]
  have "InternalCompare c s' s \<le> 0" "InternalCompare c s' (smallest f) \<le> 0"
    using tr [OF ih(3) k(1) Cons.prems(2) ih(1) le(1)] tr [OF ih(3) k(1) f(1) ih(1) le(2)] .
  moreover have "InternalCompare c l l' \<le> 0" "InternalCompare c (largest f) l' \<le> 0"
    using tr [OF Cons.prems(3) k(2) ih(4) le(3) ih(2)] tr [OF f(2) k(2) ih(4) le(4) ih(2)] .
  ultimately show ?case using rest ih(3,4) by (auto split: if_splits)
qed

text \<open>The range of a non-empty list of files covers each of them and is made of their bounds.\<close>

lemma GetRange_spec:
  assumes "list_all (file_ok c dom) fs" "fs \<noteq> []"
  obtains s l where "GetRange c fs = Some (s, l)" "ikey_ok dom s" "ikey_ok dom l"
    "\<And>f. f \<in> set fs \<Longrightarrow> InternalCompare c s (smallest f) \<le> 0 \<and> InternalCompare c (largest f) l \<le> 0"
    "s \<in> smallest ` set fs" "l \<in> largest ` set fs"
proof -
  obtain f gs where fs: "fs = f # gs" using assms(2) by (cases fs) auto
  obtain s l where sl: "foldl (\<lambda>(s, l) f.
       (if InternalCompare c (smallest f) s < 0 then smallest f else s,
        if InternalCompare c (largest f) l > 0 then largest f else l)) (smallest f, largest f) gs = (s, l)"
    by fastforce
  have "ikey_ok dom (smallest f)" "ikey_ok dom (largest f)" using assms(1) fs by (auto simp: file_ok_def)
  note r = GetRange_foldl [OF _ this sl]
  show thesis using that [of s l] r assms(1) sl by (auto simp: fs)
qed

lemma GetRange_user:
  assumes "list_all (file_ok c dom) fs" "GetRange c fs = Some (s, l)" "f \<in> set fs"
  shows "Compare c (ExtractUserKey s) (file_start f) \<le> 0" "Compare c (file_limit f) (ExtractUserKey l) \<le> 0"
proof -
  have "fs \<noteq> []" using assms(3) by auto
  from GetRange_spec [OF assms(1) this] obtain s' l' where r: "GetRange c fs = Some (s', l')" "ikey_ok dom s'" "ikey_ok dom l'"
    "InternalCompare c s' (smallest f) \<le> 0" "InternalCompare c (largest f) l' \<le> 0"
    using assms(3) by metis
  have "file_ok c dom f" using assms(1,3) by (auto simp: list_all_iff)
  then show "Compare c (ExtractUserKey s) (file_start f) \<le> 0" "Compare c (file_limit f) (ExtractUserKey l) \<le> 0"
    using r assms(2) user_cmp_le [of s "smallest f"] user_cmp_le [of "largest f" l] by (auto simp: file_ok_def)
qed

lemma FindLargestKey_spec:
  assumes "list_all (file_ok c dom) fs" "fs \<noteq> []"
  obtains l where "FindLargestKey c fs = Some l" "ikey_ok dom l"
    "\<And>f. f \<in> set fs \<Longrightarrow> InternalCompare c (largest f) l \<le> 0" "l \<in> largest ` set fs"
proof -
  obtain f gs where fs: "fs = f # gs" using assms(2) by (cases fs) auto
  have "snd (foldl (\<lambda>(s, l) f.
       (if InternalCompare c (smallest f) s < 0 then smallest f else s,
        if InternalCompare c (largest f) l > 0 then largest f else l)) (s, l) gs) =
     foldl (\<lambda>k f. if InternalCompare c (largest f) k > 0 then largest f else k) l gs" for s l
    by (induction gs arbitrary: s l) auto
  then have "FindLargestKey c fs = map_option snd (GetRange c fs)" by (simp add: fs)
  with GetRange_spec [OF assms] that show thesis by (metis (no_types, lifting) option.simps(9) snd_conv)
qed

end

text \<open>A boundary file of a key starts after it at the same user key.\<close>

definition boundary :: "Comparator \<Rightarrow> bytes \<Rightarrow> FileMetaData \<Rightarrow> bool" where
  "boundary ucmp k f \<longleftrightarrow>
     InternalCompare ucmp (smallest f) k > 0 \<and> Compare ucmp (file_start f) (ExtractUserKey k) = 0"

lemma FindSmallestBoundaryFile_None:
  "FindSmallestBoundaryFile ucmp fs k = None \<longleftrightarrow> \<not> list_ex (boundary ucmp k) fs"
proof -
  have "foldl (\<lambda>best f.
       if InternalCompare ucmp (smallest f) k > 0 \<and>
          Compare ucmp (ExtractUserKey (smallest f)) (ExtractUserKey k) = 0 \<and>
          (case best of None \<Rightarrow> True | Some b \<Rightarrow> InternalCompare ucmp (smallest f) (smallest b) < 0)
       then Some f else best) b fs = None \<longleftrightarrow> b = None \<and> \<not> list_ex (boundary ucmp k) fs" for b
  proof (induction fs arbitrary: b)
    case (Cons f fs)
    show ?case by (cases b) (simp_all add: Cons.IH boundary_def del: split_paired_All)
  qed simp
  then show ?thesis by (simp add: FindSmallestBoundaryFile_def)
qed

lemma FindSmallestBoundaryFile_Some:
  assumes "FindSmallestBoundaryFile ucmp fs k = Some f"
  shows "f \<in> set fs" "boundary ucmp k f"
proof -
  have "foldl (\<lambda>best f.
       if InternalCompare ucmp (smallest f) k > 0 \<and>
          Compare ucmp (ExtractUserKey (smallest f)) (ExtractUserKey k) = 0 \<and>
          (case best of None \<Rightarrow> True | Some b \<Rightarrow> InternalCompare ucmp (smallest f) (smallest b) < 0)
       then Some f else best) b fs = Some f \<Longrightarrow> b = Some f \<or> f \<in> set fs \<and> boundary ucmp k f" for b
    by (induction fs arbitrary: b) (auto simp: boundary_def split: if_splits)
  from this [of None] assms show "f \<in> set fs" "boundary ucmp k f" by (auto simp: FindSmallestBoundaryFile_def)
qed

lemma FindLargestKey_snoc:
  "FindLargestKey ucmp (fs @ [f]) = (case FindLargestKey ucmp fs of None \<Rightarrow> Some (largest f)
     | Some k \<Rightarrow> Some (if InternalCompare ucmp (largest f) k > 0 then largest f else k))"
  by (cases fs) auto

text \<open>The search for boundary files ends, and leaves none for the largest key of the result.\<close>

definition boundary_closed :: "Comparator \<Rightarrow> FileMetaData list \<Rightarrow> FileMetaData list \<Rightarrow> bool" where
  "boundary_closed ucmp level_files fs \<longleftrightarrow>
     (case FindLargestKey ucmp fs of None \<Rightarrow> fs = [] | Some k \<Rightarrow> \<not> list_ex (boundary ucmp k) level_files)"

context user_comparator
begin

lemma boundary_advances:
  assumes "file_ok c dom f" "ikey_ok dom k" "boundary c k f"
  shows "InternalCompare c (largest f) k > 0" and "\<not> boundary c (largest f) f"
    and "file_ok c dom g \<Longrightarrow> InternalCompare c (smallest g) (largest f) > 0 \<Longrightarrow> InternalCompare c (smallest g) k > 0"
proof -
  note sign = key_order.cmp_sign [OF ikey_order]
  have f: "ikey_ok dom (smallest f)" "ikey_ok dom (largest f)" "InternalCompare c (smallest f) (largest f) \<le> 0"
    using assms(1) by (auto simp: file_ok_def)
  have "InternalCompare c k (smallest f) < 0" using assms(3) sign [OF assms(2) f(1)] by (simp add: boundary_def)
  then have lt: "InternalCompare c k (largest f) < 0"
    using key_order.less_le_trans [OF ikey_order assms(2) f(1,2)] f(3) by blast
  then show "InternalCompare c (largest f) k > 0" using sign [OF assms(2) f(2)] by simp
  show "\<not> boundary c (largest f) f" using f(3) by (simp add: boundary_def)
  show "InternalCompare c (smallest g) k > 0"
    if "file_ok c dom g" "InternalCompare c (smallest g) (largest f) > 0"
  proof -
    have g: "ikey_ok dom (smallest g)" using that(1) by (simp add: file_ok_def)
    have "InternalCompare c (largest f) (smallest g) < 0" using that(2) sign [OF f(2) g] by simp
    then have "InternalCompare c k (smallest g) < 0"
      using key_order.less_trans [OF ikey_order assms(2) f(2) g lt] by blast
    then show ?thesis using sign [OF assms(2) g] by simp
  qed
qed

text \<open>\<open>P\<close> is any property of the selected files that adding the next boundary file keeps.\<close>

lemma AddBoundaryInputs_loop_spec:
  assumes "list_all (file_ok c dom) files" "FindLargestKey c fs = Some k" "ikey_ok dom k" "P fs"
    and P: "\<And>fs k f. P fs \<Longrightarrow> FindLargestKey c fs = Some k \<Longrightarrow> FindSmallestBoundaryFile c files k = Some f \<Longrightarrow> P (fs @ [f])"
  shows "\<exists>gs. AddBoundaryInputs_loop c files k fs = Some (fs @ gs) \<and> set gs \<subseteq> set files \<and>
    boundary_closed c files (fs @ gs) \<and> P (fs @ gs)"
  using assms(2-4)
proof (induction "length (filter (\<lambda>g. InternalCompare c (smallest g) k > 0) files)" arbitrary: k fs rule: less_induct)
  case less
  show ?case
  proof (cases "FindSmallestBoundaryFile c files k")
    case None
    then show ?thesis
      using less.prems FindSmallestBoundaryFile_None [of c files k]
      by (intro exI [of _ "[]"], subst AddBoundaryInputs_loop.simps) (simp add: boundary_closed_def)
  next
    case (Some f)
    note f = FindSmallestBoundaryFile_Some [OF Some]
    have ok: "file_ok c dom f" using f(1) assms(1) by (auto simp: list_all_iff)
    note adv = boundary_advances [OF ok less.prems(2) f(2)]
    have "length (filter (\<lambda>g. InternalCompare c (smallest g) (largest f) > 0) files) <
        length (filter (\<lambda>g. InternalCompare c (smallest g) k > 0) files)"
      using adv(3) f ok assms(1) by (intro length_filter_less_mono [of _ _ _ f]) (auto simp: list_all_iff boundary_def file_ok_def)
    moreover have "FindLargestKey c (fs @ [f]) = Some (largest f)" using less.prems(1) adv(1) by (simp add: FindLargestKey_snoc)
    moreover have "ikey_ok dom (largest f)" using ok by (simp add: file_ok_def)
    moreover have "P (fs @ [f])" by (rule P [OF less.prems(3,1) Some])
    ultimately obtain gs where "AddBoundaryInputs_loop c files (largest f) (fs @ [f]) = Some ((fs @ [f]) @ gs)"
      "set gs \<subseteq> set files" "boundary_closed c files ((fs @ [f]) @ gs)" "P ((fs @ [f]) @ gs)"
      using less.hyps by blast
    then show ?thesis using Some f(1)
      by (intro exI [of _ "f # gs"], subst AddBoundaryInputs_loop.simps) simp
  qed
qed

lemma AddBoundaryInputs_spec:
  assumes "list_all (file_ok c dom) files" "list_all (file_ok c dom) fs" "P fs"
    and P: "\<And>fs k f. P fs \<Longrightarrow> FindLargestKey c fs = Some k \<Longrightarrow> FindSmallestBoundaryFile c files k = Some f \<Longrightarrow> P (fs @ [f])"
  obtains gs where "AddBoundaryInputs c files fs = Some (fs @ gs)" "set gs \<subseteq> set files" "boundary_closed c files (fs @ gs)"
    "P (fs @ gs)"
proof (cases "fs = []")
  case True
  then show thesis using that [of "[]"] assms(3) by (simp add: AddBoundaryInputs_def boundary_closed_def)
next
  case False
  from FindLargestKey_spec [OF assms(2) False] obtain k where k: "FindLargestKey c fs = Some k" "ikey_ok dom k" by metis
  have "\<exists>gs. AddBoundaryInputs_loop c files k fs = Some (fs @ gs) \<and> set gs \<subseteq> set files \<and>
      boundary_closed c files (fs @ gs) \<and> P (fs @ gs)"
    by (rule AddBoundaryInputs_loop_spec [where P = P, OF assms(1) k assms(3)]) (rule P)
  with k that show thesis by (auto simp: AddBoundaryInputs_def)
qed

text \<open>Of several boundary files, the one that starts first is found.\<close>

lemma FindSmallestBoundaryFile_least:
  assumes "list_all (file_ok c dom) fs" "FindSmallestBoundaryFile c fs k = Some f" "g \<in> set fs" "boundary c k g"
  shows "InternalCompare c (smallest f) (smallest g) \<le> 0"
proof -
  let ?step = "\<lambda>best f.
       if InternalCompare c (smallest f) k > 0 \<and> Compare c (ExtractUserKey (smallest f)) (ExtractUserKey k) = 0 \<and>
          (case best of None \<Rightarrow> True | Some b \<Rightarrow> InternalCompare c (smallest f) (smallest b) < 0)
       then Some f else best"
  note refl = key_order.cmp_refl [OF ikey_order] and trans = key_order.cmp_trans [OF ikey_order]
  have "(\<forall>h \<in> set_option b \<union> {g \<in> set fs. boundary c k g}. InternalCompare c (smallest f) (smallest h) \<le> 0)"
    if "foldl ?step b fs = Some f" "list_all (file_ok c dom) fs" "\<forall>h \<in> set_option b. file_ok c dom h" for b
    using that
  proof (induction fs arbitrary: b)
    case Nil
    then show ?case using refl [of "smallest f"] by (simp add: file_ok_def)
  next
    case (Cons a fs)
    let ?b = "?step b a"
    have ok: "file_ok c dom a" "\<forall>h \<in> set_option ?b. file_ok c dom h" using Cons.prems(2,3) by auto
    have ih: "\<forall>h \<in> set_option ?b \<union> {g \<in> set fs. boundary c k g}. InternalCompare c (smallest f) (smallest h) \<le> 0"
      by (rule Cons.IH) (use Cons.prems ok(2) in simp_all)
    have fok: "ikey_ok dom (smallest f)"
    proof -
      have "foldl ?step x xs = Some f \<Longrightarrow> x = Some f \<or> f \<in> set xs" for x xs
        by (induction xs arbitrary: x) (auto split: if_splits)
      from this [of b "a # fs"] Cons.prems show ?thesis by (auto simp: list_all_iff file_ok_def)
    qed
    have "InternalCompare c (smallest f) (smallest h) \<le> 0" if h: "h \<in> set_option b \<or> h = a \<and> boundary c k a" for h
    proof (cases "?b = Some h")
      case True
      then show ?thesis using ih by auto
    next
      case False
      have "\<exists>b'. ?b = Some b' \<and> InternalCompare c (smallest b') (smallest h) \<le> 0 \<and> file_ok c dom b' \<and> file_ok c dom h"
      proof (cases b)
        case None
        with False h show ?thesis by (simp add: boundary_def)
      next
        case (Some b0)
        then have k: "file_ok c dom b0" "ikey_ok dom (smallest a)" "ikey_ok dom (smallest b0)"
          using Cons.prems(3) ok(1) by (simp_all add: file_ok_def)
        show ?thesis
        proof (cases "h = b0")
          case True
          with False Some have "?b = Some a" "InternalCompare c (smallest a) (smallest b0) < 0" by (simp_all split: if_splits)
          then show ?thesis using True k ok(1) by auto
        next
          case nb: False
          with h Some have "h = a" "boundary c k a" by auto
          then have "?b = Some b0" "\<not> InternalCompare c (smallest a) (smallest b0) < 0"
            using False Some by (simp_all add: boundary_def split: if_splits)
          then show ?thesis using key_order.not_less [OF ikey_order k(2,3)] k(1) ok(1) \<open>h = a\<close> by auto
        qed
      qed
      then obtain b' where b': "?b = Some b'" "InternalCompare c (smallest b') (smallest h) \<le> 0" "file_ok c dom b'" "file_ok c dom h"
        by blast
      then show ?thesis using ih trans [OF fok, of "smallest b'" "smallest h"] by (auto simp: file_ok_def)
    qed
    then show ?case using ih by auto
  qed
  from this [of None] assms show ?thesis by (auto simp: FindSmallestBoundaryFile_def)
qed

end

section \<open>The iterator over a level\<close>

definition lf_rep ::
  "Comparator \<Rightarrow> (bytes \<Rightarrow> bool) \<Rightarrow> (bytes \<times> bytes) list \<Rightarrow> LevelFileNumIterator \<Rightarrow> nat option \<Rightarrow> bool" where
  "lf_rep ucmp D kvs it p \<longleftrightarrow>
     lf_ucmp it = ucmp \<and> level_ok ucmp D (lf_flist it) \<and> length (lf_flist it) < 2 ^ 31 \<and>
     kvs = level_kvs (lf_flist it) \<and> p = pos_of kvs (unat (lf_index it)) \<and> unat (lf_index it) \<le> length kvs"

lemma lf_repI:
  assumes "lf_ucmp it = ucmp" "level_ok ucmp D (lf_flist it)" "length (lf_flist it) < 2 ^ 31"
    "kvs = level_kvs (lf_flist it)" "lf_index it = of_nat i" "i \<le> length kvs" "p = pos_of kvs i"
  shows "lf_rep ucmp D kvs it p"
  using assms by (simp add: lf_rep_def unat_of_nat_u32)

lemma lf_repE:
  assumes "lf_rep ucmp D kvs it (Some i)"
  obtains "lf_ucmp it = ucmp" "level_ok ucmp D (lf_flist it)" "length (lf_flist it) < 2 ^ 31"
    "kvs = level_kvs (lf_flist it)" "lf_index it = of_nat i" "i < length (lf_flist it)" "unat (lf_index it) = i"
  using assms by (auto simp: lf_rep_def pos_of_def split: if_splits)

context user_comparator
begin

lemma level_iterator: "iterator LevelFileNumIter (InternalCompare c) (ikey_ok dom) (lf_rep c dom)"
proof (unfold_locales, goal_cases)
  case (1 kvs s i)
  then show ?case by (rule lf_repE) simp
next
  case (2 kvs s p)
  then show ?case using level_sorted by (auto simp: lf_rep_def)
next
  case (3 kvs s p)
  then show ?case by (auto simp: lf_rep_def LevelFileNumIter_def lf_Valid_def pos_of_def)
next
  case (4 kvs s i)
  then show ?case by (rule lf_repE) (simp add: LevelFileNumIter_def lf_key_def lf_Valid_def)
next
  case (5 kvs s i)
  then show ?case by (rule lf_repE) (simp add: LevelFileNumIter_def lf_value_def lf_Valid_def level_kvs_def Let_def)
next
  case (6 kvs s p)
  then show ?case by (simp add: LevelFileNumIter_def)
next
  case (7 kvs s p)
  then show ?case
    by (auto simp: lf_rep_def LevelFileNumIter_def lf_SeekToFirst_def)
next
  case (8 kvs s p)
  then have ok: "level_ok c dom (lf_flist s)" "length (lf_flist s) < 2 ^ 31" "lf_ucmp s = c" "kvs = level_kvs (lf_flist s)"
    by (auto simp: lf_rep_def)
  let ?n = "length (lf_flist s) - 1"
  have "lf_rep c dom kvs (s\<lparr>lf_index := of_nat ?n\<rparr>) (pos_before (length kvs))"
    by (rule lf_repI [where i = ?n]) (use ok in \<open>auto simp: pos_before_def pos_of_def\<close>)
  then show ?case by (cases "lf_flist s = []") (simp_all add: LevelFileNumIter_def lf_SeekToLast_def)
next
  case (9 kvs s p k)
  then have ok: "level_ok c dom (lf_flist s)" "length (lf_flist s) < 2 ^ 31" "lf_ucmp s = c" "kvs = level_kvs (lf_flist s)"
    by (auto simp: lf_rep_def)
  show ?case
    using FindFile_spec [OF ok(1) 9(2) ok(2)] ok lower_bound_le [of "InternalCompare c" kvs k]
    by (auto simp: LevelFileNumIter_def lf_Seek_def intro!: lf_repI)
next
  case (10 kvs s i)
  then show ?case
  proof (rule lf_repE, goal_cases)
    case 1
    have "lf_rep c dom kvs (s\<lparr>lf_index := lf_index s + 1\<rparr>) (pos_of kvs (Suc i))"
      by (rule lf_repI [where i = "Suc i"]) (use 1 in simp_all)
    with 1 show ?case by (simp add: LevelFileNumIter_def lf_Next_def lf_Valid_def)
  qed
next
  case (11 kvs s i)
  then show ?case
  proof (rule lf_repE, goal_cases)
    case 1
    show ?case
    proof (cases i)
      case 0
      have "lf_rep c dom kvs (s\<lparr>lf_index := of_nat (length (lf_flist s))\<rparr>) (pos_before i)"
        by (rule lf_repI [where i = "length (lf_flist s)"]) (use 1 0 in \<open>simp_all add: pos_before_def pos_of_def\<close>)
      moreover have "lf_index s = 0" using 1 0 by simp
      ultimately show ?thesis using 1 by (simp add: LevelFileNumIter_def lf_Prev_def lf_Valid_def)
    next
      case (Suc j)
      with 1 have nz: "lf_index s \<noteq> 0" "lf_index s = of_nat (Suc j)" by auto
      have "lf_rep c dom kvs (s\<lparr>lf_index := lf_index s - 1\<rparr>) (pos_before i)"
        by (rule lf_repI [where i = j]) (use 1 Suc nz(2) in \<open>simp_all add: pos_before_def pos_of_def\<close>)
      with nz(1) 1 show ?thesis by (simp add: LevelFileNumIter_def lf_Prev_def lf_Valid_def)
    qed
  qed
qed

end

interpretation bytewise_level: iterator LevelFileNumIter "InternalCompare BytewiseComparator"
  "ikey_ok (\<lambda>_. True)" "lf_rep BytewiseComparator (\<lambda>_. True)"
  by (rule bytewise_db.level_iterator)

section \<open>Property\<close>

text \<open>
  C21: the overlap test answers whether some file meets a range of user keys, where a missing bound
  is open. For the sorted files of a level the binary search gives the same answer as looking at
  every file, also when neighbouring files share a user key.
\<close>

theorem overlap_test_exact:
  assumes "user_comparator ucmp D"
    and "if disjoint then level_ok ucmp D files \<and> length files < 2 ^ 31 else list_all (file_ok ucmp D) files"
    and "bound_ok D lo" "bound_ok D hi"
  shows "SomeFileOverlapsRange ucmp disjoint files lo hi = Some (\<exists>f \<in> set files.
    (case lo of None \<Rightarrow> True | Some l \<Rightarrow> Compare ucmp l (ExtractUserKey (largest f)) \<le> 0) \<and>
    (case hi of None \<Rightarrow> True | Some h \<Rightarrow> Compare ucmp (ExtractUserKey (smallest f)) h \<le> 0))"
proof -
  have ok: "file_ok ucmp D f" if "f \<in> set files" for f
    using assms(2) that by (cases disjoint) (auto simp: level_ok_def list_all_iff)
  have "in_range ucmp lo hi f \<longleftrightarrow>
      (case lo of None \<Rightarrow> True | Some l \<Rightarrow> Compare ucmp l (ExtractUserKey (largest f)) \<le> 0) \<and>
      (case hi of None \<Rightarrow> True | Some h \<Rightarrow> Compare ucmp (ExtractUserKey (smallest f)) h \<le> 0)" if "f \<in> set files" for f
    using user_comparator.not_AfterFile [OF assms(1) ok [OF that] assms(3)]
      user_comparator.not_BeforeFile [OF assms(1) ok [OF that] assms(4)]
    by (auto simp: in_range_def split: option.splits)
  then show ?thesis
    using user_comparator.SomeFileOverlapsRange_iff [OF assms] by (simp cong: bex_cong_simp)
qed

theorem overlap_test_exact_witness:
  "SomeFileOverlapsRange BytewiseComparator True
     [new_FileMetaData\<lparr>smallest := InternalKey [1] 9 kTypeValue, largest := InternalKey [2] 7 kTypeValue\<rparr>,
      new_FileMetaData\<lparr>smallest := InternalKey [2] 6 kTypeValue, largest := InternalKey [5] 6 kTypeValue\<rparr>]
     (Some [3]) None = Some True"
  by (subst overlap_test_exact [where D = "\<lambda>_. True"])
    (use bytewise_db.user_comparator_axioms in \<open>simp_all add: level_ok_def file_ok_def ikey_ok_def new_FileMetaData_def
      InternalCompare_def BytewiseComparator_def PackSequenceAndType_def kMaxSequenceNumber_def Let_def\<close>)

end
