(* ===== verification/Compaction.thy ===== *)
theory Compaction
  imports FileRanges
begin

text \<open>
  \<open>db/version_set.h\<close> and \<open>db/version_set.cc\<close>, the compactions: which files of two levels are merged,
  where an output file must end and whether a key is absent below. The inputs of a compaction are
  shown to be complete: nothing older than the compacted data stays in the levels it leaves.
\<close>

section \<open>State\<close>

text \<open>\<open>input_version_\<close> is the files of the version; \<open>overlapped_bytes_\<close> is the word of a signed number.\<close>

record Compaction =
  c_level :: nat
  max_output_file_size :: u64
  input_version :: "FileMetaData list list option"
  c_edit :: VersionEdit
  inputs0 :: "FileMetaData list"
  inputs1 :: "FileMetaData list"
  grandparents :: "FileMetaData list"
  grandparent_index :: nat
  seen_key :: bool
  overlapped_bytes :: u64
  level_ptrs :: "nat list"

definition new_Compaction :: "Options \<Rightarrow> nat \<Rightarrow> Compaction" where
  "new_Compaction options level =
     \<lparr>c_level = level, max_output_file_size = MaxFileSizeForLevel options level, input_version = None,
      c_edit = ve_Clear, inputs0 = [], inputs1 = [], grandparents = [], grandparent_index = 0,
      seen_key = False, overlapped_bytes = 0, level_ptrs = replicate kNumLevels 0\<rparr>"

text \<open>
  The part of the version set that compactions use: the files of the current version, its choice
  of a level (\<open>compaction_score_ >= 1\<close> and \<open>compaction_level_\<close>) and of a file, and the keys where the
  next compaction of each level starts.
\<close>

record VersionSetView =
  cs_options :: Options
  cs_ucmp :: Comparator
  cs_files :: "FileMetaData list list"
  size_compaction :: bool
  compaction_level :: nat
  file_to_compact :: "(FileMetaData \<times> nat) option"
  compact_pointer :: "bytes list"

section \<open>The inputs of a compaction\<close>

text \<open>The attempt to add files of the level without adding any of the next level.\<close>

definition expand_inputs :: "VersionSetView \<Rightarrow> Compaction \<Rightarrow> bytes \<times> bytes \<Rightarrow> bytes \<times> bytes \<Rightarrow>
    (Compaction \<times> bytes \<times> (bytes \<times> bytes)) option" where
  "expand_inputs v cn rng all_rng =
     do {
       let level = c_level cn;
       let ucmp = cs_ucmp v;
       expanded0 \<leftarrow> GetOverlappingInputs ucmp (cs_files v) level (Some (fst all_rng)) (Some (snd all_rng));
       expanded0 \<leftarrow> AddBoundaryInputs ucmp (cs_files v ! level) expanded0;
       let inputs1_size = TotalFileSize (inputs1 cn);
       let expanded0_size = TotalFileSize expanded0;
       if length expanded0 > length (inputs0 cn) \<and>
          sint (inputs1_size + expanded0_size) < sint (ExpandedCompactionByteSizeLimit (cs_options v))
       then do {
         (new_start, new_limit) \<leftarrow> GetRange ucmp expanded0;
         expanded1 \<leftarrow> GetOverlappingInputs ucmp (cs_files v) (level + 1) (Some new_start) (Some new_limit);
         expanded1 \<leftarrow> AddBoundaryInputs ucmp (cs_files v ! (level + 1)) expanded1;
         if length expanded1 = length (inputs1 cn)
         then do {
           all \<leftarrow> GetRange2 ucmp expanded0 expanded1;
           Some (cn\<lparr>inputs0 := expanded0, inputs1 := expanded1\<rparr>, new_limit, all)
         }
         else Some (cn, snd rng, all_rng)
       }
       else Some (cn, snd rng, all_rng)
     }"

definition SetupOtherInputs :: "VersionSetView \<Rightarrow> Compaction \<Rightarrow> (VersionSetView \<times> Compaction) option" where
  "SetupOtherInputs v cn =
     do {
       let level = c_level cn;
       let ucmp = cs_ucmp v;
       in0 \<leftarrow> AddBoundaryInputs ucmp (cs_files v ! level) (inputs0 cn);
       rng \<leftarrow> GetRange ucmp in0;
       in1 \<leftarrow> GetOverlappingInputs ucmp (cs_files v) (level + 1) (Some (fst rng)) (Some (snd rng));
       in1 \<leftarrow> AddBoundaryInputs ucmp (cs_files v ! (level + 1)) in1;
       let cn = cn\<lparr>inputs0 := in0, inputs1 := in1\<rparr>;
       all_rng \<leftarrow> GetRange2 ucmp in0 in1;
       (cn, limit, all_rng) \<leftarrow>
         (if in1 \<noteq> [] then expand_inputs v cn rng all_rng else Some (cn, snd rng, all_rng));
       cn \<leftarrow>
         (if level + 2 < kNumLevels
          then do {
            gps \<leftarrow> GetOverlappingInputs ucmp (cs_files v) (level + 2) (Some (fst all_rng)) (Some (snd all_rng));
            Some (cn\<lparr>grandparents := gps\<rparr>)
          }
          else Some cn);
       Some (v\<lparr>compact_pointer := (compact_pointer v)[level := limit]\<rparr>,
             cn\<lparr>c_edit := SetCompactPointer (int level) limit (c_edit cn)\<rparr>)
     }"

text \<open>The first file after the compaction pointer of the level, or the first file of the level.\<close>

definition pick_file :: "VersionSetView \<Rightarrow> nat \<Rightarrow> FileMetaData option" where
  "pick_file v level =
     (case find (\<lambda>f. compact_pointer v ! level = [] \<or>
          InternalCompare (cs_ucmp v) (largest f) (compact_pointer v ! level) > 0) (cs_files v ! level) of
        Some f \<Rightarrow> Some f
      | None \<Rightarrow> (case cs_files v ! level of [] \<Rightarrow> None | f # _ \<Rightarrow> Some f))"

text \<open>The inputs that start with one file; those of level zero are replaced by all that overlap it.\<close>

definition compact_file :: "VersionSetView \<Rightarrow> nat \<Rightarrow> FileMetaData \<Rightarrow> (VersionSetView \<times> Compaction) option option" where
  "compact_file v level f =
     do {
       let cn = (new_Compaction (cs_options v) level)\<lparr>inputs0 := [f], input_version := Some (cs_files v)\<rparr>;
       cn \<leftarrow>
         (if level = 0 then do {
            rng \<leftarrow> GetRange (cs_ucmp v) (inputs0 cn);
            in0 \<leftarrow> GetOverlappingInputs (cs_ucmp v) (cs_files v) 0 (Some (fst rng)) (Some (snd rng));
            if in0 = [] then None else Some (cn\<lparr>inputs0 := in0\<rparr>)
          }
          else Some cn);
       r \<leftarrow> SetupOtherInputs v cn;
       Some (Some r)
     }"

text \<open>\<open>Some None\<close> when there is nothing to compact.\<close>

definition PickCompaction :: "VersionSetView \<Rightarrow> (VersionSetView \<times> Compaction) option option" where
  "PickCompaction v =
     (if size_compaction v then
        (if compaction_level v + 1 < kNumLevels
         then do { f \<leftarrow> pick_file v (compaction_level v); compact_file v (compaction_level v) f }
         else None)
      else (case file_to_compact v of
          Some (f, level) \<Rightarrow> compact_file v level f
        | None \<Rightarrow> Some None))"

text \<open>The prefix of the inputs of a manual compaction that reaches the size limit.\<close>

fun limit_inputs :: "u64 \<Rightarrow> u64 \<Rightarrow> FileMetaData list \<Rightarrow> FileMetaData list" where
  "limit_inputs limit total_size [] = []"
| "limit_inputs limit total_size (f # fs) =
     (let total_size = total_size + file_size f
      in if total_size \<ge> limit then [f] else f # limit_inputs limit total_size fs)"

definition CompactRange ::
  "VersionSetView \<Rightarrow> nat \<Rightarrow> bytes option \<Rightarrow> bytes option \<Rightarrow> (VersionSetView \<times> Compaction) option option" where
  "CompactRange v level begin_key end_key =
     do {
       inputs \<leftarrow> GetOverlappingInputs (cs_ucmp v) (cs_files v) level begin_key end_key;
       if inputs = [] then Some None
       else do {
         let inputs = (if level > 0 then limit_inputs (MaxFileSizeForLevel (cs_options v) level) 0 inputs else inputs);
         r \<leftarrow> SetupOtherInputs v
           ((new_Compaction (cs_options v) level)\<lparr>input_version := Some (cs_files v), inputs0 := inputs\<rparr>);
         Some (Some r)
       }
     }"

section \<open>Operations of a compaction\<close>

definition IsTrivialMove :: "Options \<Rightarrow> Compaction \<Rightarrow> bool" where
  "IsTrivialMove options cn \<longleftrightarrow>
     length (inputs0 cn) = 1 \<and> length (inputs1 cn) = 0 \<and>
     sint (TotalFileSize (grandparents cn)) \<le> sint (MaxGrandParentOverlapBytes options)"

definition AddInputDeletions :: "Compaction \<Rightarrow> VersionEdit \<Rightarrow> VersionEdit" where
  "AddInputDeletions cn edit =
     fold (\<lambda>f. ve_RemoveFile (int (c_level cn + 1)) (fm_number f)) (inputs1 cn)
       (fold (\<lambda>f. ve_RemoveFile (int (c_level cn)) (fm_number f)) (inputs0 cn) edit)"

text \<open>The \<open>while\<close> loop over one level: the new pointer and whether the key is in a file.\<close>

function base_level_loop :: "Comparator \<Rightarrow> bytes \<Rightarrow> FileMetaData list \<Rightarrow> nat \<Rightarrow> nat \<times> bool" where
  "base_level_loop ucmp ukey files ptr =
     (if ptr < length files then
        (let f = files ! ptr
         in if Compare ucmp ukey (ExtractUserKey (largest f)) \<le> 0
            then (ptr, Compare ucmp ukey (ExtractUserKey (smallest f)) \<ge> 0)
            else base_level_loop ucmp ukey files (ptr + 1))
      else (ptr, False))"
  by pat_completeness auto
termination
  by (relation "measure (\<lambda>(ucmp, ukey, files, ptr). length files - ptr)") auto

declare base_level_loop.simps [simp del]

text \<open>The \<open>for\<close> loop over the levels.\<close>

fun base_level_levels :: "Comparator \<Rightarrow> bytes \<Rightarrow> FileMetaData list list \<Rightarrow> nat list \<Rightarrow> nat list \<Rightarrow> bool \<times> nat list" where
  "base_level_levels ucmp ukey version [] ptrs = (True, ptrs)"
| "base_level_levels ucmp ukey version (lvl # lvls) ptrs =
     (let (ptr, found) = base_level_loop ucmp ukey (version ! lvl) (ptrs ! lvl);
          ptrs = ptrs[lvl := ptr]
      in if found then (False, ptrs) else base_level_levels ucmp ukey version lvls ptrs)"

definition IsBaseLevelForKey :: "Comparator \<Rightarrow> bytes \<Rightarrow> Compaction \<Rightarrow> (bool \<times> Compaction) option" where
  "IsBaseLevelForKey ucmp ukey cn =
     do {
       version \<leftarrow> input_version cn;
       let (r, ptrs) = base_level_levels ucmp ukey version [c_level cn + 2..<kNumLevels] (level_ptrs cn);
       Some (r, cn\<lparr>level_ptrs := ptrs\<rparr>)
     }"

text \<open>The grandparent files before the key: the new index and the overlapped bytes.\<close>

function stop_before_loop :: "Comparator \<Rightarrow> bytes \<Rightarrow> FileMetaData list \<Rightarrow> bool \<Rightarrow> nat \<Rightarrow> u64 \<Rightarrow> nat \<times> u64" where
  "stop_before_loop ucmp ikey gps seen index overlapped =
     (if index < length gps \<and> InternalCompare ucmp ikey (largest (gps ! index)) > 0
      then stop_before_loop ucmp ikey gps seen (index + 1)
             (if seen then overlapped + file_size (gps ! index) else overlapped)
      else (index, overlapped))"
  by pat_completeness auto
termination
  by (relation "measure (\<lambda>(ucmp, ikey, gps, seen, index, ov). length gps - index)") auto

declare stop_before_loop.simps [simp del]

definition ShouldStopBefore :: "Options \<Rightarrow> Comparator \<Rightarrow> bytes \<Rightarrow> Compaction \<Rightarrow> bool \<times> Compaction" where
  "ShouldStopBefore options ucmp ikey cn =
     (let (index, overlapped) =
            stop_before_loop ucmp ikey (grandparents cn) (seen_key cn) (grandparent_index cn) (overlapped_bytes cn);
          cn = cn\<lparr>grandparent_index := index, overlapped_bytes := overlapped, seen_key := True\<rparr>
      in if sint overlapped > sint (MaxGrandParentOverlapBytes options)
         then (True, cn\<lparr>overlapped_bytes := 0\<rparr>)
         else (False, cn))"

definition ReleaseInputs :: "Compaction \<Rightarrow> Compaction" where
  "ReleaseInputs cn = cn\<lparr>input_version := None\<rparr>"

section \<open>Complete inputs\<close>

text \<open>The files of a version: those of level zero may overlap, those of other levels are disjoint and sorted.\<close>

definition version_ok :: "Comparator \<Rightarrow> (bytes \<Rightarrow> bool) \<Rightarrow> FileMetaData list list \<Rightarrow> bool" where
  "version_ok ucmp D files \<longleftrightarrow>
     length files = kNumLevels \<and>
     (\<forall>level < kNumLevels. list_all (file_ok ucmp D) (files ! level) \<and> (0 < level \<longrightarrow> level_ok ucmp D (files ! level)))"

definition before_file :: "Comparator \<Rightarrow> FileMetaData \<Rightarrow> FileMetaData \<Rightarrow> bool" where
  "before_file ucmp f g \<longleftrightarrow> InternalCompare ucmp (largest f) (smallest g) < 0"

text \<open>A selection of the files of a level has no gaps; at level zero it is closed under overlap.\<close>

definition selection :: "Comparator \<Rightarrow> FileMetaData list \<Rightarrow> nat \<Rightarrow> FileMetaData list \<Rightarrow> bool" where
  "selection ucmp files level fs \<longleftrightarrow>
     set fs \<subseteq> set files \<and>
     (if level = 0 then \<forall>f \<in> set fs. \<forall>g \<in> set files. overlapping ucmp g f \<longrightarrow> g \<in> set fs
      else \<forall>f \<in> set fs. \<forall>h \<in> set fs. \<forall>g \<in> set files. before_file ucmp f g \<longrightarrow> before_file ucmp g h \<longrightarrow> g \<in> set fs)"

lemma selection_sub: "selection ucmp files level fs \<Longrightarrow> set fs \<subseteq> set files"
  by (simp add: selection_def)

lemma selection_convex:
  assumes "selection ucmp files level fs" "level \<noteq> 0" "f \<in> set fs" "h \<in> set fs" "g \<in> set files"
    "before_file ucmp f g" "before_file ucmp g h"
  shows "g \<in> set fs"
  using assms(1,3-7) unfolding selection_def if_not_P [OF assms(2)] by blast

lemma selection_closed:
  assumes "selection ucmp files 0 fs" "f \<in> set fs" "g \<in> set files" "overlapping ucmp g f"
  shows "g \<in> set fs"
  using assms unfolding selection_def by auto

lemma selectionI:
  assumes "set fs \<subseteq> set files" "level \<noteq> 0"
    and "\<And>f g h. f \<in> set fs \<Longrightarrow> h \<in> set fs \<Longrightarrow> g \<in> set files \<Longrightarrow> before_file ucmp f g \<Longrightarrow> before_file ucmp g h \<Longrightarrow> g \<in> set fs"
  shows "selection ucmp files level fs"
  unfolding selection_def if_not_P [OF assms(2)] using assms(1,3) by blast

text \<open>
  No file that stays in the level holds older entries of a user key of the selection: it would
  start after a selected file with the user key that ends that file.
\<close>

definition nothing_older_left :: "Comparator \<Rightarrow> FileMetaData list \<Rightarrow> nat \<Rightarrow> FileMetaData list \<Rightarrow> bool" where
  "nothing_older_left ucmp files level fs \<longleftrightarrow>
     set fs \<subseteq> set files \<and>
     (\<forall>f \<in> set fs. \<forall>g \<in> set files - set fs.
        \<not> (if level = 0 then overlapping ucmp g f
           else before_file ucmp f g \<and> Compare ucmp (file_limit f) (file_start g) = 0))"

text \<open>
  The inputs are complete: nothing older stays in either level, and every file of the next level
  that meets the range of the files of the level is an input.
\<close>

definition covers :: "Comparator \<Rightarrow> FileMetaData list list \<Rightarrow> nat \<Rightarrow> FileMetaData list \<Rightarrow> FileMetaData list \<Rightarrow> bool" where
  "covers ucmp files level in0 in1 \<longleftrightarrow>
     in0 \<noteq> [] \<and> nothing_older_left ucmp (files ! level) level in0 \<and>
     nothing_older_left ucmp (files ! (level + 1)) (level + 1) in1 \<and>
     (\<forall>f \<in> set in0. \<forall>h \<in> set in0. \<forall>g \<in> set (files ! (level + 1)).
        Compare ucmp (file_start f) (file_limit g) \<le> 0 \<longrightarrow> Compare ucmp (file_start g) (file_limit h) \<le> 0 \<longrightarrow> g \<in> set in1)"

definition complete_inputs :: "Comparator \<Rightarrow> FileMetaData list list \<Rightarrow> Compaction \<Rightarrow> bool" where
  "complete_inputs ucmp files cn \<longleftrightarrow> covers ucmp files (c_level cn) (inputs0 cn) (inputs1 cn)"

context user_comparator
begin

lemma level_trichotomy:
  assumes "level_ok c dom files" "f \<in> set files" "g \<in> set files" "f \<noteq> g"
  shows "before_file c f g \<or> before_file c g f"
proof -
  obtain i j where ij: "i < length files" "files ! i = f" "j < length files" "files ! j = g"
    using assms(2,3) by (auto simp: in_set_conv_nth)
  then have "i \<noteq> j" using assms(4) by auto
  then consider "i < j" | "j < i" by linarith
  then show ?thesis
    using assms(1) ij sorted_wrt_nth_less [of _ files] unfolding level_ok_def before_file_def by cases blast+
qed

lemma before_file_trans:
  assumes "file_ok c dom f" "file_ok c dom g" "file_ok c dom h" "before_file c f g" "before_file c g h"
  shows "before_file c f h"
proof -
  note o = ikey_order
  have k: "ikey_ok dom (largest f)" "ikey_ok dom (smallest g)" "ikey_ok dom (largest g)" "ikey_ok dom (smallest h)"
    and g: "InternalCompare c (smallest g) (largest g) \<le> 0"
    using assms(1-3) by (auto simp: file_ok_def)
  have "InternalCompare c (largest f) (largest g) < 0"
    using key_order.less_le_trans [OF o k(1-3)] assms(4) g by (simp add: before_file_def)
  then show ?thesis using key_order.less_trans [OF o k(1,3,4)] assms(5) by (simp add: before_file_def)
qed

lemma before_file_irrefl: "file_ok c dom f \<Longrightarrow> \<not> before_file c f f"
  using key_order.cmp_sign [OF ikey_order, of "largest f" "smallest f"] by (auto simp: file_ok_def before_file_def)

lemma before_file_user:
  assumes "file_ok c dom f" "file_ok c dom g" "before_file c f g"
  shows "Compare c (file_limit f) (file_start g) \<le> 0" "Compare c (file_start f) (file_start g) \<le> 0"
    "Compare c (file_limit f) (file_limit g) \<le> 0"
proof -
  show 1: "Compare c (file_limit f) (file_start g) \<le> 0"
    using assms user_cmp_le [of "largest f" "smallest g"] by (auto simp: file_ok_def before_file_def)
  show "Compare c (file_start f) (file_start g) \<le> 0"
    using compare_trans [OF _ _ _ file_user_range(3) [OF assms(1)] 1] file_user_range [OF assms(1)] file_user_range [OF assms(2)] by blast
  show "Compare c (file_limit f) (file_limit g) \<le> 0"
    using compare_trans [OF _ _ _ 1 file_user_range(3) [OF assms(2)]] file_user_range [OF assms(1)] file_user_range [OF assms(2)] by blast
qed

text \<open>The overlapping files of a range are a selection.\<close>

lemma chosen_selection:
  assumes "chosen c dom files level lo hi r" "list_all (file_ok c dom) files" "bound_ok dom lo" "bound_ok dom hi"
  shows "selection c files level r"
proof (cases "level = 0")
  case True
  then show ?thesis using chosen_complete(1,4) [OF assms] by (auto simp: selection_def)
next
  case False
  have r: "r = filter (in_range c lo hi) files" using chosen_complete(3) [OF assms] False by simp
  have conv: "in_range c lo hi g"
    if fgh: "f \<in> set files" "g \<in> set files" "h \<in> set files" "in_range c lo hi f" "in_range c lo hi h"
      "before_file c f g" "before_file c g h" for f g h
  proof -
    have ok: "file_ok c dom f" "file_ok c dom g" "file_ok c dom h" using fgh assms(2) by (auto simp: list_all_iff)
    have "Compare c l (file_limit g) \<le> 0" if "lo = Some l" for l
      using fgh(4) that before_file_user(3) [OF ok(1,2) fgh(6)] compare_trans [of l "file_limit f" "file_limit g"]
        assms(3) file_user_range(2) [OF ok(1)] file_user_range(2) [OF ok(2)] by (simp add: in_range_def AfterFile_def)
    moreover have "Compare c (file_start g) u \<le> 0" if "hi = Some u" for u
      using fgh(5) that before_file_user(2) [OF ok(2,3) fgh(7)] compare_trans [of "file_start g" "file_start h" u]
        assms(4) file_user_range(1) [OF ok(2)] file_user_range(1) [OF ok(3)] not_BeforeFile [OF ok(3) assms(4)]
      by (simp add: in_range_def)
    ultimately show ?thesis
      using not_AfterFile [OF ok(2) assms(3)] not_BeforeFile [OF ok(2) assms(4)] by (simp add: in_range_def)
  qed
  have "g \<in> set r" if "f \<in> set r" "h \<in> set r" "g \<in> set files" "before_file c f g" "before_file c g h" for f g h
    using conv [of f g h] that unfolding r by simp
  moreover have "set r \<subseteq> set files" unfolding r by simp
  ultimately show ?thesis using False by (intro selectionI)
qed

lemma no_boundary_at_0:
  assumes "list_all (file_ok c dom) files" "selection c files 0 fs" "fs \<noteq> []" "FindLargestKey c fs = Some k"
  shows "\<not> list_ex (boundary c k) files"
proof
  assume "list_ex (boundary c k) files"
  then obtain g where g: "g \<in> set files" "boundary c k g" by (auto simp: list_ex_iff)
  have fs: "list_all (file_ok c dom) fs" using assms(1,2) by (auto simp: selection_def list_all_iff)
  obtain f where f: "f \<in> set fs" "k = largest f" and max: "\<And>h. h \<in> set fs \<Longrightarrow> InternalCompare c (largest h) k \<le> 0"
    using FindLargestKey_spec [OF fs assms(3)] assms(4) by (metis imageE option.inject)
  have ok: "file_ok c dom f" "file_ok c dom g" using f(1) fs g(1) assms(1) by (auto simp: list_all_iff)
  have eq: "Compare c (file_start g) (file_limit f) = 0" using g(2) f(2) by (simp add: boundary_def)
  then have "Compare c (file_limit f) (file_start g) \<le> 0"
    using compare_0_sym [OF file_user_range(1) [OF ok(2)] file_user_range(2) [OF ok(1)]] by simp
  then have "Compare c (file_limit f) (file_limit g) \<le> 0"
    using compare_trans [OF _ _ _ _ file_user_range(3) [OF ok(2)]] file_user_range [OF ok(1)] file_user_range [OF ok(2)] by blast
  then have "Compare c (file_start f) (file_limit g) \<le> 0"
    using compare_trans [OF _ _ _ file_user_range(3) [OF ok(1)]] file_user_range [OF ok(1)] file_user_range [OF ok(2)] by blast
  moreover have "\<not> BeforeFile c (Some (file_limit f)) g"
    using not_BeforeFile [OF ok(2), of "Some (file_limit f)"] eq file_user_range(2) [OF ok(1)] by simp
  ultimately have "overlapping c g f" by (simp add: overlapping_def in_range_def AfterFile_def)
  then have "g \<in> set fs" using assms(2) f(1) g(1) by (simp add: selection_def)
  then have "\<not> InternalCompare c (largest g) k > 0" using max by force
  moreover have "InternalCompare c (largest g) k > 0"
    using boundary_advances(1) [OF ok(2) _ g(2)] f(2) ok(1) by (simp add: file_ok_def)
  ultimately show False by blast
qed

lemma boundary_not_before:
  assumes "file_ok c dom b" "file_ok c dom m" "boundary c (largest m) b"
  shows "\<not> before_file c b m"
proof
  assume "before_file c b m"
  moreover have "before_file c m b"
    using assms key_order.cmp_sign [OF ikey_order, of "largest m" "smallest b"] by (simp add: boundary_def before_file_def file_ok_def)
  ultimately show False using before_file_trans [OF assms(1,2,1)] before_file_irrefl [OF assms(1)] by blast
qed

text \<open>A file between a file and its boundary file would itself be a boundary file that starts earlier.\<close>

lemma boundary_between:
  assumes "file_ok c dom m" "file_ok c dom g" "file_ok c dom b" "before_file c m g" "before_file c g b" "boundary c (largest m) b"
  shows "boundary c (largest m) g" "\<not> InternalCompare c (smallest b) (smallest g) \<le> 0"
proof -
  note d = file_user_range [OF assms(1)] file_user_range [OF assms(2)] file_user_range [OF assms(3)]
  have "Compare c (file_start g) (file_start b) \<le> 0" by (rule before_file_user(2) [OF assms(2,3,5)])
  moreover have "Compare c (file_start b) (file_limit m) = 0" using assms(6) by (simp add: boundary_def)
  ultimately have "Compare c (file_start g) (file_limit m) \<le> 0" using compare_trans [OF d(4) d(7) d(2)] by simp
  moreover have "Compare c (file_limit m) (file_start g) \<le> 0" by (rule before_file_user(1) [OF assms(1,2,4)])
  then have "\<not> Compare c (file_start g) (file_limit m) < 0" using not_less [OF d(4) d(2)] by blast
  ultimately have "Compare c (file_start g) (file_limit m) = 0" by linarith
  then show "boundary c (largest m) g"
    using assms(1,2,4) key_order.cmp_sign [OF ikey_order, of "largest m" "smallest g"]
    by (simp add: boundary_def before_file_def file_ok_def)
  have k: "ikey_ok dom (smallest g)" "ikey_ok dom (largest g)" "ikey_ok dom (smallest b)"
    "InternalCompare c (smallest g) (largest g) \<le> 0" using assms(2,3) by (simp_all add: file_ok_def)
  have "InternalCompare c (smallest g) (smallest b) < 0"
    using key_order.le_less_trans [OF ikey_order k] assms(5) by (simp add: before_file_def)
  then show "\<not> InternalCompare c (smallest b) (smallest g) \<le> 0"
    using key_order.cmp_sign [OF ikey_order k(1,3)] by simp
qed

lemma selection_snoc:
  assumes "level_ok c dom files" "level \<noteq> 0" "selection c files level fs"
    "FindLargestKey c fs = Some k" "FindSmallestBoundaryFile c files k = Some b"
  shows "selection c files level (fs @ [b])"
proof -
  have files: "list_all (file_ok c dom) files" using assms(1) by (simp add: level_ok_def)
  have sub: "set fs \<subseteq> set files" using assms(3) by (simp add: selection_def)
  have fs: "list_all (file_ok c dom) fs" "fs \<noteq> []" using files sub assms(4) by (auto simp: list_all_iff)
  obtain m where m: "m \<in> set fs" "k = largest m" and max: "\<And>h. h \<in> set fs \<Longrightarrow> InternalCompare c (largest h) k \<le> 0"
    using FindLargestKey_spec [OF fs] assms(4) by (metis imageE option.inject)
  note b = FindSmallestBoundaryFile_Some [OF assms(5)]
  have ok: "file_ok c dom b" "file_ok c dom m" using b(1) files fs(1) m(1) by (auto simp: list_all_iff)
  have kok: "ikey_ok dom k" using ok(2) m(2) by (simp add: file_ok_def)
  note conv = selection_convex [OF assms(3,2)]
  have "g \<in> set (fs @ [b])" if f: "f \<in> set (fs @ [b])" and h: "h \<in> set (fs @ [b])" and g: "g \<in> set files"
    "before_file c f g" "before_file c g h" for f g h
  proof (rule ccontr)
    assume ng: "g \<notin> set (fs @ [b])"
    have gok: "file_ok c dom g" using g(1) files by (simp add: list_all_iff)
    consider "before_file c g m" | "before_file c m g"
      using level_trichotomy [OF assms(1) g(1), of m] m(1) sub ng by auto
    then show False
    proof cases
      case 1
      then have "f \<notin> set fs" using conv [OF _ m(1) g(1,2)] ng by auto
      then have "before_file c b m" using f before_file_trans [OF ok(1) gok ok(2)] g(2) 1 by auto
      then show False using boundary_not_before [OF ok(1,2)] b(2) m(2) by simp
    next
      case 2
      then have "h \<notin> set fs" using conv [OF m(1) _ g(1) _ g(3)] ng by auto
      then have "before_file c g b" using h g(3) by auto
      then show False
        using FindSmallestBoundaryFile_least [OF files assms(5) g(1)] boundary_between [OF ok(2) gok ok(1) 2] b(2) m(2) by simp
    qed
  qed
  moreover have "set (fs @ [b]) \<subseteq> set files" using sub b(1) by simp
  ultimately show ?thesis using assms(2) by (intro selectionI)
qed

lemma nothing_older_leftI:
  assumes "set fs \<subseteq> set files" "\<And>f g. f \<in> set fs \<Longrightarrow> g \<in> set files \<Longrightarrow> g \<notin> set fs \<Longrightarrow>
      if level = 0 then overlapping c g f else before_file c f g \<and> Compare c (file_limit f) (file_start g) = 0 \<Longrightarrow> False"
  shows "nothing_older_left c files level fs"
  using assms unfolding nothing_older_left_def by blast

text \<open>A selection without boundary files leaves nothing older behind.\<close>

lemma closed_selection:
  assumes "list_all (file_ok c dom) files" "level \<noteq> 0 \<Longrightarrow> level_ok c dom files"
    and sel: "selection c files level fs" "boundary_closed c files fs"
  shows "nothing_older_left c files level fs"
proof (rule nothing_older_leftI)
  show sub: "set fs \<subseteq> set files" by (rule selection_sub [OF sel(1)])
  fix f g
  assume fg: "f \<in> set fs" "g \<in> set files" "g \<notin> set fs"
    and bad: "if level = 0 then overlapping c g f else before_file c f g \<and> Compare c (file_limit f) (file_start g) = 0"
  show False
  proof (cases "level = 0")
    case True
    then show False using selection_closed [of c files fs f g] sel(1) fg bad by auto
  next
    case False
    then have lo: "level_ok c dom files" and older: "before_file c f g" "Compare c (file_limit f) (file_start g) = 0"
      using assms(2) bad by auto
    have fs: "list_all (file_ok c dom) fs" "fs \<noteq> []" using sub fg(1) assms(1) by (auto simp: list_all_iff)
    obtain k m where k: "FindLargestKey c fs = Some k" "m \<in> set fs" "k = largest m"
      and max: "\<And>h. h \<in> set fs \<Longrightarrow> InternalCompare c (largest h) k \<le> 0"
      using FindLargestKey_spec [OF fs] by (metis imageE)
    have ok: "file_ok c dom f" "file_ok c dom g" "file_ok c dom m"
      using fg(1,2) k(2) sub assms(1) by (auto simp: list_all_iff)
    note d = file_user_range [OF ok(1)] file_user_range [OF ok(2)] file_user_range [OF ok(3)]
    have "m \<noteq> g" using k(2) fg(3) by auto
    then consider "before_file c g m" | "before_file c m g" using level_trichotomy [OF lo, of m g] k(2) sub fg(2) by auto
    then show False
    proof cases
      case 1
      then show False using selection_convex [OF sel(1) False fg(1) k(2) fg(2) older(1)] fg(3) by blast
    next
      case 2
      have "Compare c (file_limit f) (file_limit m) \<le> 0"
        using max [OF fg(1)] k(3) user_cmp_le [of "largest f" "largest m"] ok by (simp add: file_ok_def)
      moreover have "Compare c (file_start g) (file_limit f) = 0" using compare_0_sym [OF d(2) d(4)] older(2) by simp
      ultimately have "Compare c (file_start g) (file_limit m) \<le> 0" using compare_trans [OF d(4) d(2) d(8)] by simp
      moreover have "\<not> Compare c (file_start g) (file_limit m) < 0"
        using before_file_user(1) [OF ok(3,2) 2] not_less [OF d(4) d(8)] by simp
      moreover have "InternalCompare c (smallest g) (largest m) > 0"
        using 2 key_order.cmp_sign [OF ikey_order, of "largest m" "smallest g"] ok by (simp add: before_file_def file_ok_def)
      ultimately have "boundary c k g" by (simp add: boundary_def k(3))
      then show False using sel(2) k(1) fg(2) by (auto simp: boundary_closed_def list_ex_iff)
    qed
  qed
qed

lemma AddBoundaryInputs_selection:
  assumes "list_all (file_ok c dom) files" "level \<noteq> 0 \<Longrightarrow> level_ok c dom files" "selection c files level fs"
  obtains gs where "AddBoundaryInputs c files fs = Some (fs @ gs)" "set (fs @ gs) \<subseteq> set files"
    "nothing_older_left c files level (fs @ gs)"
proof -
  have fs: "list_all (file_ok c dom) fs" using selection_sub [OF assms(3)] assms(1) by (auto simp: list_all_iff)
  have step: "selection c files level (xs @ [f])"
    if "selection c files level xs" "FindLargestKey c xs = Some k" "FindSmallestBoundaryFile c files k = Some f" for xs k f
  proof (cases "level = 0")
    case True
    have "xs \<noteq> []" using that(2) by auto
    then have "\<not> list_ex (boundary c k) files" using no_boundary_at_0 [OF assms(1) _ _ that(2)] that(1) True by simp
    then show ?thesis using that(3) FindSmallestBoundaryFile_None [of c files k] by simp
  next
    case False
    then show ?thesis using selection_snoc [OF assms(2) False that] by blast
  qed
  obtain gs where gs: "AddBoundaryInputs c files fs = Some (fs @ gs)" "boundary_closed c files (fs @ gs)"
    "selection c files level (fs @ gs)"
    by (rule AddBoundaryInputs_spec [where P = "selection c files level", OF assms(1) fs assms(3)]) (auto intro: step)
  then show thesis using that [of gs] closed_selection [OF assms(1,2) gs(3,2)] selection_sub by blast
qed

text \<open>The files of a range, completed with their boundary files.\<close>

lemma select_range:
  assumes "version_ok c dom files" "level < kNumLevels" "ikey_ok dom s" "ikey_ok dom l"
  obtains r gs where "GetOverlappingInputs c files level (Some s) (Some l) = Some r"
    "AddBoundaryInputs c (files ! level) r = Some (r @ gs)"
    "nothing_older_left c (files ! level) level (r @ gs)" "set (r @ gs) \<subseteq> set (files ! level)"
    "\<And>g. g \<in> set (files ! level) \<Longrightarrow> Compare c (ExtractUserKey s) (file_limit g) \<le> 0 \<Longrightarrow>
      Compare c (file_start g) (ExtractUserKey l) \<le> 0 \<Longrightarrow> g \<in> set r"
proof -
  have f: "list_all (file_ok c dom) (files ! level)" "level \<noteq> 0 \<Longrightarrow> level_ok c dom (files ! level)"
    using assms(1,2) by (auto simp: version_ok_def)
  have b: "bound_ok dom (Some (ExtractUserKey s))" "bound_ok dom (Some (ExtractUserKey l))"
    using assms(3,4) by (auto simp: ikey_ok_def)
  obtain r where r: "GetOverlappingInputs c files level (Some s) (Some l) = Some r"
    "chosen c dom (files ! level) level (Some (ExtractUserKey s)) (Some (ExtractUserKey l)) r"
    using GetOverlappingInputs_spec [OF assms(2) f(1), of "Some s" "Some l"] assms(3,4) by auto
  obtain gs where gs: "AddBoundaryInputs c (files ! level) r = Some (r @ gs)"
    "nothing_older_left c (files ! level) level (r @ gs)" "set (r @ gs) \<subseteq> set (files ! level)"
    using AddBoundaryInputs_selection [OF f chosen_selection [OF r(2) f(1) b]] by metis
  have "g \<in> set r" if g: "g \<in> set (files ! level)" "Compare c (ExtractUserKey s) (file_limit g) \<le> 0"
    "Compare c (file_start g) (ExtractUserKey l) \<le> 0" for g
  proof -
    have "file_ok c dom g" using g(1) f(1) by (auto simp: list_all_iff)
    then have "in_range c (Some (ExtractUserKey s)) (Some (ExtractUserKey l)) g"
      using g not_AfterFile [OF _ b(1)] not_BeforeFile [OF _ b(2)] by (simp add: in_range_def)
    then show ?thesis using chosen_complete(2) [OF r(2) f(1) b g(1)] by blast
  qed
  with r gs that show thesis by blast
qed

lemma GetRange_total:
  assumes "list_all (file_ok c dom) fs" "fs \<noteq> []"
  obtains rng where "GetRange c fs = Some rng" "ikey_ok dom (fst rng)" "ikey_ok dom (snd rng)"
  using GetRange_spec [OF assms] by (metis fst_conv snd_conv)

lemma next_level_inputs:
  assumes "version_ok c dom files" "level + 1 < kNumLevels" "in0 \<noteq> []" "nothing_older_left c (files ! level) level in0"
  obtains rng r gs where "GetRange c in0 = Some rng" "ikey_ok dom (fst rng)" "ikey_ok dom (snd rng)"
    "GetOverlappingInputs c files (level + 1) (Some (fst rng)) (Some (snd rng)) = Some r"
    "AddBoundaryInputs c (files ! (level + 1)) r = Some (r @ gs)" "covers c files level in0 (r @ gs)"
    "set (r @ gs) \<subseteq> set (files ! (level + 1))"
proof -
  have "list_all (file_ok c dom) (files ! level)" "set in0 \<subseteq> set (files ! level)"
    using assms by (auto simp: version_ok_def nothing_older_left_def)
  then have in0: "list_all (file_ok c dom) in0" by (auto simp: list_all_iff)
  obtain rng where rng: "GetRange c in0 = Some rng" "ikey_ok dom (fst rng)" "ikey_ok dom (snd rng)"
    using GetRange_total [OF in0 assms(3)] .
  obtain r gs where r: "GetOverlappingInputs c files (level + 1) (Some (fst rng)) (Some (snd rng)) = Some r"
    "AddBoundaryInputs c (files ! (level + 1)) r = Some (r @ gs)"
    "nothing_older_left c (files ! (level + 1)) (level + 1) (r @ gs)" "set (r @ gs) \<subseteq> set (files ! (level + 1))"
    and all: "\<And>g. g \<in> set (files ! (level + 1)) \<Longrightarrow> Compare c (ExtractUserKey (fst rng)) (file_limit g) \<le> 0 \<Longrightarrow>
      Compare c (file_start g) (ExtractUserKey (snd rng)) \<le> 0 \<Longrightarrow> g \<in> set r"
    using select_range [OF assms(1,2) rng(2,3)] by blast
  have "g \<in> set r" if g: "f \<in> set in0" "h \<in> set in0" "g \<in> set (files ! (level + 1))"
    "Compare c (file_start f) (file_limit g) \<le> 0" "Compare c (file_start g) (file_limit h) \<le> 0" for f g h
  proof -
    have ok: "file_ok c dom f" "file_ok c dom h" "file_ok c dom g"
      using g(1-3) in0 assms(1,2) by (auto simp: list_all_iff version_ok_def)
    note u = GetRange_user [OF in0, of "fst rng" "snd rng"]
    have d: "dom (ExtractUserKey (fst rng))" "dom (ExtractUserKey (snd rng))" using rng(2,3) by (simp_all add: ikey_ok_def)
    have "Compare c (ExtractUserKey (fst rng)) (file_limit g) \<le> 0"
      using compare_trans [OF d(1) file_user_range(1) [OF ok(1)] file_user_range(2) [OF ok(3)] _ g(4)] u(1) [OF _ g(1)] rng(1) by simp
    moreover have "Compare c (file_start g) (ExtractUserKey (snd rng)) \<le> 0"
      using compare_trans [OF file_user_range(1) [OF ok(3)] file_user_range(2) [OF ok(2)] d(2) g(5)] u(2) [OF _ g(2)] rng(1) by simp
    ultimately show ?thesis using all g(3) by blast
  qed
  then have "covers c files level in0 (r @ gs)" unfolding covers_def using assms(3,4) r(3) by auto
  with rng r(1,2,4) that show thesis by blast
qed

lemma version_file:
  "version_ok c dom files \<Longrightarrow> level < kNumLevels \<Longrightarrow> f \<in> set (files ! level) \<Longrightarrow> file_ok c dom f"
  by (auto simp: version_ok_def list_all_iff)

lemma covers_sub:
  assumes "covers c files level in0 in1"
  shows "in0 \<noteq> []" "set in0 \<subseteq> set (files ! level)" "set in1 \<subseteq> set (files ! (level + 1))"
    "nothing_older_left c (files ! level) level in0"
  using assms by (auto simp: covers_def nothing_older_left_def)

lemma covers_range:
  assumes "version_ok c dom files" "level + 1 < kNumLevels" "covers c files level in0 in1"
  obtains rng where "GetRange2 c in0 in1 = Some rng" "ikey_ok dom (fst rng)" "ikey_ok dom (snd rng)"
    "\<And>f. f \<in> set in0 \<Longrightarrow> Compare c (ExtractUserKey (fst rng)) (file_start f) \<le> 0 \<and> Compare c (file_limit f) (ExtractUserKey (snd rng)) \<le> 0"
proof -
  note sub = covers_sub [OF assms(3)]
  have "level < kNumLevels" using assms(2) by simp
  then have ok: "list_all (file_ok c dom) (in0 @ in1)"
    using version_file [OF assms(1), of level] version_file [OF assms(1,2)] sub(2,3) by (simp add: list_all_iff subset_iff Ball_def)
  obtain rng where "GetRange c (in0 @ in1) = Some rng" "ikey_ok dom (fst rng)" "ikey_ok dom (snd rng)"
    using GetRange_total [OF ok] sub(1) by auto
  with that GetRange_user [OF ok, of "fst rng" "snd rng"] show thesis by (auto simp: GetRange2_def)
qed

lemma expand_inputs_covers:
  assumes v: "version_ok c dom (cs_files v)" "cs_ucmp v = c" "c_level cn + 1 < kNumLevels"
    and cov: "covers c (cs_files v) (c_level cn) (inputs0 cn) (inputs1 cn)"
    and rng: "GetRange2 c (inputs0 cn) (inputs1 cn) = Some all_rng" "ikey_ok dom (fst all_rng)" "ikey_ok dom (snd all_rng)"
    and within: "\<And>f. f \<in> set (inputs0 cn) \<Longrightarrow>
      Compare c (ExtractUserKey (fst all_rng)) (file_start f) \<le> 0 \<and> Compare c (file_limit f) (ExtractUserKey (snd all_rng)) \<le> 0"
  shows "\<exists>in0 in1 limit all'. expand_inputs v cn rg all_rng = Some (cn\<lparr>inputs0 := in0, inputs1 := in1\<rparr>, limit, all') \<and>
    covers c (cs_files v) (c_level cn) in0 in1 \<and> set (inputs0 cn) \<subseteq> set in0 \<and>
    ikey_ok dom (fst all') \<and> ikey_ok dom (snd all')"
proof -
  let ?files = "cs_files v" and ?level = "c_level cn"
  note sub = covers_sub [OF cov]
  have lv: "?level < kNumLevels" using v(3) by simp
  obtain r gs where r: "GetOverlappingInputs c ?files ?level (Some (fst all_rng)) (Some (snd all_rng)) = Some r"
    "AddBoundaryInputs c (?files ! ?level) r = Some (r @ gs)"
    "nothing_older_left c (?files ! ?level) ?level (r @ gs)" "set (r @ gs) \<subseteq> set (?files ! ?level)"
    and all: "\<And>g. g \<in> set (?files ! ?level) \<Longrightarrow> Compare c (ExtractUserKey (fst all_rng)) (file_limit g) \<le> 0 \<Longrightarrow>
      Compare c (file_start g) (ExtractUserKey (snd all_rng)) \<le> 0 \<Longrightarrow> g \<in> set r"
    using select_range [OF v(1) lv rng(2,3)] by blast
  have in0: "f \<in> set r" if f: "f \<in> set (inputs0 cn)" for f
  proof -
    have ok: "file_ok c dom f" using f sub(2) v(1) lv by (auto simp: version_ok_def list_all_iff)
    have d: "dom (ExtractUserKey (fst all_rng))" "dom (ExtractUserKey (snd all_rng))" using rng(2,3) by (simp_all add: ikey_ok_def)
    show ?thesis
      using all [of f] f sub(2) within [OF f] compare_trans [OF d(1) _ _ _ file_user_range(3) [OF ok]]
        compare_trans [OF _ _ d(2) file_user_range(3) [OF ok]] file_user_range(1,2) [OF ok] by blast
  qed
  have ne: "r @ gs \<noteq> []" using in0 [OF last_in_set [OF sub(1)]] by auto
  obtain rg' r1 gs1 where n: "GetRange c (r @ gs) = Some rg'"
    "GetOverlappingInputs c ?files (?level + 1) (Some (fst rg')) (Some (snd rg')) = Some r1"
    "AddBoundaryInputs c (?files ! (?level + 1)) r1 = Some (r1 @ gs1)" "covers c ?files ?level (r @ gs) (r1 @ gs1)"
    using next_level_inputs [OF v(1,3) ne r(3)] by metis
  obtain all' where a: "GetRange2 c (r @ gs) (r1 @ gs1) = Some all'" "ikey_ok dom (fst all')" "ikey_ok dom (snd all')"
    using covers_range [OF v(1,3) n(4)] by metis
  obtain ns nl where rg': "rg' = (ns, nl)" by (cases rg')
  show ?thesis
  proof (cases "length (r @ gs) > length (inputs0 cn) \<and>
      sint (TotalFileSize (inputs1 cn) + TotalFileSize (r @ gs)) < sint (ExpandedCompactionByteSizeLimit (cs_options v)) \<and>
      length (r1 @ gs1) = length (inputs1 cn)")
    case True
    then have "expand_inputs v cn rg all_rng = Some (cn\<lparr>inputs0 := r @ gs, inputs1 := r1 @ gs1\<rparr>, nl, all')"
      using r(1,2) n(1-3) a(1) by (simp add: expand_inputs_def v(2) rg' Let_def)
    moreover have "set (inputs0 cn) \<subseteq> set (r @ gs)" using in0 by auto
    ultimately show ?thesis using n(4) a(2,3) by blast
  next
    case False
    then have "expand_inputs v cn rg all_rng = Some (cn, snd rg, all_rng)"
      using r(1,2) n(1-3) a(1) by (auto simp: expand_inputs_def v(2) rg' Let_def)
    then show ?thesis using cov rng by (intro exI [of _ "inputs0 cn"] exI [of _ "inputs1 cn"]) auto
  qed
qed

lemma SetupOtherInputs_complete:
  assumes v: "version_ok c dom (cs_files v)" "cs_ucmp v = c" "c_level cn + 1 < kNumLevels"
    and in0: "inputs0 cn \<noteq> []" "selection c (cs_files v ! c_level cn) (c_level cn) (inputs0 cn)"
  shows "\<exists>v' cn'. SetupOtherInputs v cn = Some (v', cn') \<and> complete_inputs c (cs_files v) cn' \<and> c_level cn' = c_level cn \<and>
    set (inputs0 cn) \<subseteq> set (inputs0 cn') \<and> input_version cn' = input_version cn \<and> level_ptrs cn' = level_ptrs cn"
proof -
  let ?files = "cs_files v" and ?level = "c_level cn"
  have lv: "list_all (file_ok c dom) (?files ! ?level)" "?level \<noteq> 0 \<Longrightarrow> level_ok c dom (?files ! ?level)"
    using v(1,3) by (auto simp: version_ok_def)
  obtain bs where bs: "AddBoundaryInputs c (?files ! ?level) (inputs0 cn) = Some (inputs0 cn @ bs)"
    "nothing_older_left c (?files ! ?level) ?level (inputs0 cn @ bs)"
    using AddBoundaryInputs_selection [OF lv in0(2)] by metis
  obtain rg r gs where n: "GetRange c (inputs0 cn @ bs) = Some rg"
    "GetOverlappingInputs c ?files (?level + 1) (Some (fst rg)) (Some (snd rg)) = Some r"
    "AddBoundaryInputs c (?files ! (?level + 1)) r = Some (r @ gs)" "covers c ?files ?level (inputs0 cn @ bs) (r @ gs)"
    using next_level_inputs [OF v(1,3) _ bs(2)] in0(1) by (metis append_is_Nil_conv)
  obtain all where a: "GetRange2 c (inputs0 cn @ bs) (r @ gs) = Some all" "ikey_ok dom (fst all)" "ikey_ok dom (snd all)"
    "\<And>f. f \<in> set (inputs0 cn @ bs) \<Longrightarrow>
      Compare c (ExtractUserKey (fst all)) (file_start f) \<le> 0 \<and> Compare c (file_limit f) (ExtractUserKey (snd all)) \<le> 0"
    using covers_range [OF v(1,3) n(4)] by blast
  define cn1 where "cn1 = cn\<lparr>inputs0 := inputs0 cn @ bs, inputs1 := r @ gs\<rparr>"
  have "\<exists>in0 in1 limit all'. (if r @ gs \<noteq> [] then expand_inputs v cn1 rg all else Some (cn1, snd rg, all)) =
      Some (cn1\<lparr>inputs0 := in0, inputs1 := in1\<rparr>, limit, all') \<and>
    covers c ?files ?level in0 in1 \<and> set (inputs0 cn) \<subseteq> set in0 \<and> ikey_ok dom (fst all') \<and> ikey_ok dom (snd all')"
  proof (cases "r @ gs \<noteq> []")
    case True
    have "\<exists>in0 in1 limit all'. expand_inputs v cn1 rg all = Some (cn1\<lparr>inputs0 := in0, inputs1 := in1\<rparr>, limit, all') \<and>
        covers c ?files (c_level cn1) in0 in1 \<and> set (inputs0 cn1) \<subseteq> set in0 \<and> ikey_ok dom (fst all') \<and> ikey_ok dom (snd all')"
      using v n(4) a by (intro expand_inputs_covers) (simp_all add: cn1_def)
    then obtain i0 i1 lim al where "expand_inputs v cn1 rg all = Some (cn1\<lparr>inputs0 := i0, inputs1 := i1\<rparr>, lim, al)"
      "covers c ?files (c_level cn1) i0 i1" "set (inputs0 cn1) \<subseteq> set i0" "ikey_ok dom (fst al)" "ikey_ok dom (snd al)" by blast
    moreover have "c_level cn1 = ?level" "set (inputs0 cn) \<subseteq> set (inputs0 cn1)" by (simp_all add: cn1_def)
    ultimately show ?thesis unfolding if_P [OF True] by (metis subset_trans)
  next
    case False
    then show ?thesis using n(4) a(2,3) by (intro exI [of _ "inputs0 cn @ bs"] exI [of _ "r @ gs"]) (auto simp: cn1_def)
  qed
  then obtain i0 i1 limit all' where e: "(if r @ gs \<noteq> [] then expand_inputs v cn1 rg all else Some (cn1, snd rg, all)) =
      Some (cn1\<lparr>inputs0 := i0, inputs1 := i1\<rparr>, limit, all')" "covers c ?files ?level i0 i1" "set (inputs0 cn) \<subseteq> set i0"
    "ikey_ok dom (fst all')" "ikey_ok dom (snd all')" by blast
  have "\<exists>gps. ?level + 2 < kNumLevels \<longrightarrow>
      GetOverlappingInputs c ?files (?level + 2) (Some (fst all')) (Some (snd all')) = Some gps"
    using select_range [OF v(1) _ e(4,5)] by metis
  then obtain gps where gps: "?level + 2 < kNumLevels \<longrightarrow>
      GetOverlappingInputs c ?files (?level + 2) (Some (fst all')) (Some (snd all')) = Some gps" ..
  define cn2 where "cn2 = (if ?level + 2 < kNumLevels then cn1\<lparr>inputs0 := i0, inputs1 := i1, grandparents := gps\<rparr>
    else cn1\<lparr>inputs0 := i0, inputs1 := i1\<rparr>)"
  have "SetupOtherInputs v cn = Some (v\<lparr>compact_pointer := (compact_pointer v)[?level := limit]\<rparr>,
      cn2\<lparr>c_edit := SetCompactPointer (int ?level) limit (c_edit cn2)\<rparr>)"
  proof -
    obtain in1 where in1: "r @ gs = in1" by simp
    have cn1: "cn1 = cn\<lparr>inputs0 := inputs0 cn @ bs, inputs1 := in1\<rparr>" by (simp add: cn1_def in1)
    note e1 = e(1) [unfolded in1 cn1] and a1 = a(1) [unfolded in1] and n3 = n(3) [unfolded in1]
    have lev: "c_level (cn\<lparr>inputs0 := i0, inputs1 := i1\<rparr>) = ?level" by simp
    show ?thesis
      unfolding SetupOtherInputs_def Let_def v(2) bs(1) bind.bind_lunit n(1,2) n3 a1 e1 prod.case cn2_def cn1
      using gps by simp
  qed
  then show ?thesis using e(2,3) by (auto simp: complete_inputs_def cn2_def cn1_def)
qed

lemma selection_single:
  assumes "list_all (file_ok c dom) files" "f \<in> set files" "level \<noteq> 0"
  shows "selection c files level [f]"
proof (rule selectionI)
  fix f' g h
  assume g: "f' \<in> set [f]" "h \<in> set [f]" "g \<in> set files" "before_file c f' g" "before_file c g h"
  have "file_ok c dom f" "file_ok c dom g" using assms(1,2) g(3) by (auto simp: list_all_iff)
  then show "g \<in> set [f]" using g before_file_trans [of f g f] before_file_irrefl [of f] by auto
qed (use assms in auto)

lemma selection_take:
  assumes "level_ok c dom files" "level \<noteq> 0" "chosen c dom files level lo hi r" "bound_ok dom lo" "bound_ok dom hi"
  shows "selection c files level (take n r)"
proof (rule selectionI)
  have files: "list_all (file_ok c dom) files" using assms(1) by (simp add: level_ok_def)
  note sel = chosen_selection [OF assms(3) files assms(4,5)]
  have r: "r = filter (in_range c lo hi) files" using chosen_complete(3) [OF assms(3) files assms(4,5)] assms(2) by simp
  have sorted: "sorted_wrt (before_file c) r"
    using assms(1) unfolding r level_ok_def before_file_def by (simp add: sorted_wrt_filter)
  show "set (take n r) \<subseteq> set files" using selection_sub [OF sel] set_take_subset [of n r] by blast
  fix f g h
  assume g: "f \<in> set (take n r)" "h \<in> set (take n r)" "g \<in> set files" "before_file c f g" "before_file c g h"
  have fr: "f \<in> set r" "h \<in> set r" using g(1,2) by (meson in_set_takeD)+
  have "g \<in> set r" using selection_convex [OF sel assms(2) fr g(3-5)] .
  then obtain i where i: "i < length r" "g = r ! i" by (auto simp: in_set_conv_nth)
  obtain j where j: "j < n" "j < length r" "h = r ! j" using g(2) by (auto simp: in_set_conv_nth)
  have ok: "file_ok c dom g" "file_ok c dom h" using g(3) fr(2) selection_sub [OF sel] files by (auto simp: list_all_iff)
  have "i < n"
  proof (rule ccontr)
    assume "\<not> i < n"
    then have "before_file c h g" using sorted_wrt_nth_less [OF sorted, of j i] i j by simp
    then show False using before_file_trans [OF ok ok(1) g(5)] before_file_irrefl [OF ok(1)] by blast
  qed
  then show "g \<in> set (take n r)" using i by (auto simp: in_set_conv_nth intro!: exI [of _ i])
qed (rule assms(2))

end

lemma limit_inputs_take: "\<exists>n. limit_inputs limit t fs = take n fs \<and> (fs \<noteq> [] \<longrightarrow> 0 < n)"
proof (induction fs arbitrary: t)
  case (Cons f fs)
  obtain n where "limit_inputs limit (t + file_size f) fs = take n fs" using Cons.IH by blast
  then show ?case
    by (cases "limit \<le> t + file_size f") (auto intro: exI [of _ "1 :: nat"] exI [of _ "Suc n"])
qed simp

text \<open>
  The state in which a compaction is chosen: a level is compacted by size only if it has files and
  is not the last one, and a file charged with seeks is in a level that is not the last one.
\<close>

definition compaction_state_ok :: "(bytes \<Rightarrow> bool) \<Rightarrow> VersionSetView \<Rightarrow> bool" where
  "compaction_state_ok D v \<longleftrightarrow>
     version_ok (cs_ucmp v) D (cs_files v) \<and>
     (size_compaction v \<longrightarrow> compaction_level v + 1 < kNumLevels \<and> cs_files v ! compaction_level v \<noteq> []) \<and>
     (\<forall>f level. file_to_compact v = Some (f, level) \<longrightarrow> level + 1 < kNumLevels \<and> f \<in> set (cs_files v ! level))"

lemma pick_file_mem: "cs_files v ! level \<noteq> [] \<Longrightarrow> \<exists>f. pick_file v level = Some f \<and> f \<in> set (cs_files v ! level)"
  by (cases "cs_files v ! level") (auto simp: pick_file_def find_Some_iff split: option.splits dest: nth_mem)

context user_comparator
begin

lemma compact_file_complete:
  assumes "version_ok c dom (cs_files v)" "cs_ucmp v = c" "level + 1 < kNumLevels" "f \<in> set (cs_files v ! level)"
  shows "\<exists>v' cn. compact_file v level f = Some (Some (v', cn)) \<and> complete_inputs c (cs_files v) cn \<and> f \<in> set (inputs0 cn)"
proof -
  let ?cn = "(new_Compaction (cs_options v) level)\<lparr>inputs0 := [f], input_version := Some (cs_files v)\<rparr>"
  have lv: "level < kNumLevels" using assms(3) by simp
  then have ok: "file_ok c dom f" "list_all (file_ok c dom) (cs_files v ! level)"
    using version_file [OF assms(1) lv assms(4)] assms(1) by (auto simp: version_ok_def)
  show ?thesis
  proof (cases "level = 0")
    case False
    have "\<exists>v' cn'. SetupOtherInputs v ?cn = Some (v', cn') \<and> complete_inputs c (cs_files v) cn' \<and> c_level cn' = c_level ?cn \<and>
        set (inputs0 ?cn) \<subseteq> set (inputs0 cn') \<and> input_version cn' = input_version ?cn \<and> level_ptrs cn' = level_ptrs ?cn"
      by (rule SetupOtherInputs_complete)
        (use assms selection_single [OF ok(2) assms(4) False] in \<open>simp_all add: new_Compaction_def\<close>)
    then show ?thesis using False by (auto simp: compact_file_def)
  next
    case True
    have rng: "GetRange c [f] = Some (smallest f, largest f)" by simp
    have k: "ikey_ok dom (smallest f)" "ikey_ok dom (largest f)" using ok(1) by (simp_all add: file_ok_def)
    obtain r where r: "GetOverlappingInputs c (cs_files v) 0 (Some (smallest f)) (Some (largest f)) = Some r"
      "chosen c dom (cs_files v ! 0) 0 (Some (file_start f)) (Some (file_limit f)) r"
      using GetOverlappingInputs_spec [OF lv ok(2), of "Some (smallest f)" "Some (largest f)"] k True by auto
    have b: "bound_ok dom (Some (file_start f))" "bound_ok dom (Some (file_limit f))" using file_user_range [OF ok(1)] by auto
    note ok2 = ok(2) [unfolded True]
    have fr: "f \<in> set r"
      using chosen_complete(2) [OF r(2) ok2 b, of f] assms(4) True file_user_range(3) [OF ok(1)]
        not_AfterFile [OF ok(1) b(1)] not_BeforeFile [OF ok(1) b(2)] by (simp add: in_range_def)
    have "\<exists>v' cn'. SetupOtherInputs v (?cn\<lparr>inputs0 := r\<rparr>) = Some (v', cn') \<and> complete_inputs c (cs_files v) cn' \<and>
        c_level cn' = c_level (?cn\<lparr>inputs0 := r\<rparr>) \<and> set (inputs0 (?cn\<lparr>inputs0 := r\<rparr>)) \<subseteq> set (inputs0 cn') \<and>
        input_version cn' = input_version (?cn\<lparr>inputs0 := r\<rparr>) \<and> level_ptrs cn' = level_ptrs (?cn\<lparr>inputs0 := r\<rparr>)"
      by (rule SetupOtherInputs_complete)
        (use assms(1-3) True fr chosen_selection [OF r(2) ok2 b] in \<open>auto simp: new_Compaction_def\<close>)
    then show ?thesis using True fr r(1) assms(2) by (auto simp: compact_file_def)
  qed
qed

lemma PickCompaction_complete:
  assumes "compaction_state_ok dom v" "cs_ucmp v = c"
  shows "\<exists>r. PickCompaction v = Some r \<and> (\<forall>v' cn. r = Some (v', cn) \<longrightarrow> complete_inputs c (cs_files v) cn)"
proof -
  have ok: "version_ok c dom (cs_files v)" using assms by (simp add: compaction_state_ok_def)
  show ?thesis
  proof (cases "size_compaction v")
    case True
    then have lv: "compaction_level v + 1 < kNumLevels" "cs_files v ! compaction_level v \<noteq> []"
      using assms(1) by (auto simp: compaction_state_ok_def)
    obtain f where f: "pick_file v (compaction_level v) = Some f" "f \<in> set (cs_files v ! compaction_level v)"
      using pick_file_mem [OF lv(2)] by blast
    from compact_file_complete [OF ok assms(2) lv(1) f(2)] show ?thesis
      using True lv(1) f(1) by (auto simp: PickCompaction_def)
  next
    case False
    show ?thesis
    proof (cases "file_to_compact v")
      case (Some fl)
      obtain f level where fl: "fl = (f, level)" by (cases fl)
      then have "level + 1 < kNumLevels" "f \<in> set (cs_files v ! level)"
        using assms(1) Some by (auto simp: compaction_state_ok_def)
      from compact_file_complete [OF ok assms(2) this] show ?thesis
        using False Some fl by (auto simp: PickCompaction_def)
    qed (use False in \<open>simp add: PickCompaction_def\<close>)
  qed
qed

lemma CompactRange_complete:
  assumes "compaction_state_ok dom v" "cs_ucmp v = c" "level + 1 < kNumLevels"
    "bound_ok (ikey_ok dom) lo" "bound_ok (ikey_ok dom) hi"
  shows "\<exists>r. CompactRange v level lo hi = Some r \<and> (\<forall>v' cn. r = Some (v', cn) \<longrightarrow> complete_inputs c (cs_files v) cn)"
proof -
  have ok: "version_ok c dom (cs_files v)" using assms(1,2) by (simp add: compaction_state_ok_def)
  then have f: "list_all (file_ok c dom) (cs_files v ! level)" "level \<noteq> 0 \<Longrightarrow> level_ok c dom (cs_files v ! level)"
    using assms(3) by (auto simp: version_ok_def)
  have lv: "level < kNumLevels" using assms(3) by simp
  obtain r where r: "GetOverlappingInputs c (cs_files v) level lo hi = Some r"
    "chosen c dom (cs_files v ! level) level (map_option ExtractUserKey lo) (map_option ExtractUserKey hi) r"
    using GetOverlappingInputs_spec [OF lv f(1) assms(4,5)] by blast
  have b: "bound_ok dom (map_option ExtractUserKey lo)" "bound_ok dom (map_option ExtractUserKey hi)"
    using assms(4,5) by (auto simp: ikey_ok_def split: option.splits)
  define ins where "ins = (if level > 0 then limit_inputs (MaxFileSizeForLevel (cs_options v) level) 0 r else r)"
  show ?thesis
  proof (cases "r = []")
    case True
    then show ?thesis using r(1) assms(2) by (simp add: CompactRange_def)
  next
    case False
    have ins: "selection c (cs_files v ! level) level ins" "ins \<noteq> []"
    proof -
      obtain n where "limit_inputs (MaxFileSizeForLevel (cs_options v) level) 0 r = take n r" "0 < n"
        using limit_inputs_take False by blast
      then show "selection c (cs_files v ! level) level ins" "ins \<noteq> []"
        using selection_take [OF f(2) _ r(2) b] chosen_selection [OF r(2) f(1) b] False by (auto simp: ins_def)
    qed
    let ?cn = "(new_Compaction (cs_options v) level)\<lparr>input_version := Some (cs_files v), inputs0 := ins\<rparr>"
    have "\<exists>v' cn'. SetupOtherInputs v ?cn = Some (v', cn') \<and> complete_inputs c (cs_files v) cn' \<and> c_level cn' = c_level ?cn \<and>
        set (inputs0 ?cn) \<subseteq> set (inputs0 cn') \<and> input_version cn' = input_version ?cn \<and> level_ptrs cn' = level_ptrs ?cn"
      by (rule SetupOtherInputs_complete) (use ok assms(2,3) ins in \<open>simp_all add: new_Compaction_def\<close>)
    then show ?thesis using r(1) False assms(2) by (auto simp: CompactRange_def Let_def simp flip: ins_def)
  qed
qed

end

section \<open>The lowest level of a key\<close>

text \<open>The file may hold the user key.\<close>

definition holds_key :: "Comparator \<Rightarrow> bytes \<Rightarrow> FileMetaData \<Rightarrow> bool" where
  "holds_key ucmp u f \<longleftrightarrow> Compare ucmp (file_start f) u \<le> 0 \<and> Compare ucmp u (file_limit f) \<le> 0"

text \<open>The pointers are at files that are not yet behind the user key.\<close>

definition ptrs_ok :: "Comparator \<Rightarrow> FileMetaData list list \<Rightarrow> nat list \<Rightarrow> bytes \<Rightarrow> bool" where
  "ptrs_ok ucmp version ptrs u \<longleftrightarrow>
     length ptrs = kNumLevels \<and>
     (\<forall>level < kNumLevels. \<forall>i < ptrs ! level. i < length (version ! level) \<longrightarrow> Compare ucmp (file_limit (version ! level ! i)) u < 0)"

context user_comparator
begin

lemma base_level_loop_spec:
  assumes "level_ok c dom files" "dom u" "\<And>i. i < ptr \<Longrightarrow> i < length files \<Longrightarrow> Compare c (file_limit (files ! i)) u < 0"
    and "base_level_loop c u files ptr = (ptr', found)"
  shows "(found \<longleftrightarrow> (\<exists>f \<in> set files. holds_key c u f)) \<and>
    (\<forall>i < ptr'. i < length files \<longrightarrow> Compare c (file_limit (files ! i)) u < 0)"
  using assms(3,4)
proof (induction "length files - ptr" arbitrary: ptr rule: less_induct)
  case less
  have ok: "i < length files \<Longrightarrow> file_ok c dom (files ! i)" for i using assms(1) by (simp add: level_ok_def list_all_length)
  have behind: "\<not> holds_key c u (files ! i)" if "i < ptr" "i < length files" for i
    using less.prems(1) [OF that] compare_sign [OF file_user_range(2) [OF ok [OF that(2)]] assms(2)] by (simp add: holds_key_def)
  show ?case
  proof (cases "ptr < length files")
    case False
    then have "ptr' = ptr" "\<not> found" using less.prems(2) by (simp_all add: base_level_loop.simps [of c u files ptr])
    with False behind less.prems(1) show ?thesis by (auto simp: in_set_conv_nth)
  next
    case True
    let ?f = "files ! ptr"
    note d = file_user_range [OF ok [OF True]]
    show ?thesis
    proof (cases "Compare c u (file_limit ?f) \<le> 0")
      case le: True
      then have r: "ptr' = ptr" "found \<longleftrightarrow> Compare c (file_start ?f) u \<le> 0"
        using True less.prems(2) compare_sign [OF assms(2) d(1)] by (auto simp: base_level_loop.simps [of c u files ptr] Let_def)
      have "holds_key c u ?f" if "i < length files" "holds_key c u (files ! i)" for i
      proof (cases "i \<le> ptr")
        case True
        then have "i = ptr" using behind [of i] that by (cases "i = ptr") auto
        then show ?thesis using that by simp
      next
        case False
        then have "Compare c (file_start ?f) (file_start (files ! i)) \<le> 0" using level_user_order(2) [OF assms(1), of ptr i] that by simp
        then show ?thesis
          using compare_trans [OF d(1) file_user_range(1) [OF ok [OF that(1)]] assms(2)] that(2) le by (simp add: holds_key_def)
      qed
      then have "(\<exists>f \<in> set files. holds_key c u f) \<longleftrightarrow> holds_key c u ?f" using True by (metis in_set_conv_nth)
      with r le less.prems(1) show ?thesis by (auto simp: holds_key_def)
    next
      case False
      then have "Compare c (file_limit ?f) u < 0" using compare_sign [OF d(2) assms(2)] by simp
      then have "Compare c (file_limit (files ! i)) u < 0" if "i < ptr + 1" "i < length files" for i
        using less.prems(1) [of i] that by (cases "i = ptr") auto
      moreover have "base_level_loop c u files (ptr + 1) = (ptr', found)"
        using less.prems(2) True False by (simp add: base_level_loop.simps [of c u files ptr])
      ultimately show ?thesis using less.hyps [of "ptr + 1"] True by simp
    qed
  qed
qed

lemma base_level_levels_spec:
  assumes "\<And>level. level \<in> set lvls \<Longrightarrow> level < kNumLevels \<and> level_ok c dom (version ! level)" "dom u" "ptrs_ok c version ptrs u"
    and "base_level_levels c u version lvls ptrs = (r, ptrs')"
  shows "(r \<longleftrightarrow> \<not> (\<exists>level \<in> set lvls. \<exists>f \<in> set (version ! level). holds_key c u f)) \<and> ptrs_ok c version ptrs' u"
  using assms(1,3,4)
proof (induction lvls arbitrary: ptrs)
  case (Cons l lvls)
  obtain ptr found where b: "base_level_loop c u (version ! l) (ptrs ! l) = (ptr, found)" by (cases "base_level_loop c u (version ! l) (ptrs ! l)")
  have l: "l < kNumLevels" "level_ok c dom (version ! l)" using Cons.prems(1) by auto
  have p: "(found \<longleftrightarrow> (\<exists>f \<in> set (version ! l). holds_key c u f)) \<and>
      (\<forall>i < ptr. i < length (version ! l) \<longrightarrow> Compare c (file_limit (version ! l ! i)) u < 0)"
    by (rule base_level_loop_spec [OF l(2) assms(2) _ b]) (use Cons.prems(2) l(1) in \<open>simp add: ptrs_ok_def\<close>)
  then have ptrs: "ptrs_ok c version (ptrs[l := ptr]) u" using Cons.prems(2) l(1) by (auto simp: ptrs_ok_def nth_list_update split: if_splits)
  show ?case
  proof (cases found)
    case True
    with p b Cons.prems(3) ptrs show ?thesis by auto
  next
    case False
    then have "base_level_levels c u version lvls (ptrs[l := ptr]) = (r, ptrs')" using b Cons.prems(3) by simp
    from Cons.IH [OF _ ptrs this] False p Cons.prems(1) show ?thesis by auto
  qed
qed simp

lemma IsBaseLevelForKey_spec:
  assumes "input_version cn = Some version" "version_ok c dom version" "dom u" "ptrs_ok c version (level_ptrs cn) u"
  obtains ptrs where "IsBaseLevelForKey c u cn = Some
      (\<not> (\<exists>level. c_level cn + 2 \<le> level \<and> level < kNumLevels \<and> (\<exists>f \<in> set (version ! level). holds_key c u f)),
       cn\<lparr>level_ptrs := ptrs\<rparr>)"
    "ptrs_ok c version ptrs u"
proof -
  let ?lvls = "[c_level cn + 2..<kNumLevels]"
  obtain r ptrs where b: "base_level_levels c u version ?lvls (level_ptrs cn) = (r, ptrs)"
    by (cases "base_level_levels c u version ?lvls (level_ptrs cn)")
  have "(r \<longleftrightarrow> \<not> (\<exists>level \<in> set ?lvls. \<exists>f \<in> set (version ! level). holds_key c u f)) \<and> ptrs_ok c version ptrs u"
    by (rule base_level_levels_spec [OF _ assms(3,4) b]) (use assms(2) in \<open>auto simp: version_ok_def\<close>)
  with b assms(1) that [of ptrs] show thesis by (auto simp: IsBaseLevelForKey_def Bex_def conj_assoc)
qed

lemma ptrs_ok_mono:
  assumes "version_ok c dom version" "ptrs_ok c version ptrs u" "dom u" "dom w" "Compare c u w \<le> 0"
  shows "ptrs_ok c version ptrs w"
proof -
  have "Compare c (file_limit (version ! level ! i)) w < 0"
    if "level < kNumLevels" "i < ptrs ! level" "i < length (version ! level)" for level i
  proof -
    have "file_ok c dom (version ! level ! i)" using version_file [OF assms(1) that(1)] that(3) by simp
    then show ?thesis
      using less_le_trans [OF file_user_range(2) assms(3,4) _ assms(5)] assms(2) that by (simp add: ptrs_ok_def)
  qed
  then show ?thesis using assms(2) by (simp add: ptrs_ok_def)
qed

lemma ptrs_ok_new: "ptrs_ok c version (level_ptrs (new_Compaction options level)) u"
  by (simp add: ptrs_ok_def new_Compaction_def)

end

section \<open>Property\<close>

text \<open>
  C7: a compaction that is picked by size or seeks, or requested for a range, always has complete
  inputs: the choice ends, no file left in its two levels holds older entries of a user key that is
  compacted, and every file of the next level that meets the range of the inputs is an input too.
\<close>

theorem compaction_inputs_complete:
  assumes "user_comparator (cs_ucmp v) D" "compaction_state_ok D v"
  shows "(\<exists>r. PickCompaction v = Some r \<and> (\<forall>v' cn. r = Some (v', cn) \<longrightarrow> complete_inputs (cs_ucmp v) (cs_files v) cn)) \<and>
    (\<forall>level lo hi. level + 1 < kNumLevels \<and> bound_ok (ikey_ok D) lo \<and> bound_ok (ikey_ok D) hi \<longrightarrow>
      (\<exists>r. CompactRange v level lo hi = Some r \<and> (\<forall>v' cn. r = Some (v', cn) \<longrightarrow> complete_inputs (cs_ucmp v) (cs_files v) cn)))"
  using user_comparator.PickCompaction_complete [OF assms refl] user_comparator.CompactRange_complete [OF assms refl]
  by blast

definition example_file :: "u64 \<Rightarrow> bytes \<Rightarrow> bytes \<Rightarrow> FileMetaData" where
  "example_file n s l = new_FileMetaData\<lparr>fm_number := n, file_size := 100, smallest := s, largest := l\<rparr>"

definition example_state :: VersionSetView where
  "example_state =
     \<lparr>cs_options = default_Options, cs_ucmp = BytewiseComparator,
      cs_files = [[], [example_file 4 (InternalKey [1] 9 kTypeValue) (InternalKey [2] 7 kTypeValue),
         example_file 5 (InternalKey [2] 6 kTypeValue) (InternalKey [3] 6 kTypeValue)], [], [], [], [], []],
      size_compaction = True, compaction_level = 1, file_to_compact = None, compact_pointer = replicate 7 []\<rparr>"

lemma example_state_ok: "compaction_state_ok (\<lambda>_. True) example_state"
  by (simp add: compaction_state_ok_def example_state_def version_ok_def kNumLevels_def level_ok_def file_ok_def
      ikey_ok_def example_file_def new_FileMetaData_def InternalCompare_def BytewiseComparator_def
      PackSequenceAndType_def kMaxSequenceNumber_def nth_Cons' Let_def less_Suc_eq)

theorem compaction_inputs_complete_witness:
  "\<exists>r. PickCompaction example_state = Some r \<and>
     (\<forall>v' cn. r = Some (v', cn) \<longrightarrow> complete_inputs BytewiseComparator (cs_files example_state) cn)"
  using compaction_inputs_complete [of example_state "\<lambda>_. True"] bytewise_db.user_comparator_axioms example_state_ok
  by (simp add: example_state_def)

end
