(* ===== verification/Spec2Isabelle.thy ===== *)
theory Spec2Isabelle
  imports Log WriteBatch Block Format FilterBlock Compaction
begin

text \<open>
  LevelDB, the ordered key-value store under \<open>src/leveldb\<close>, as functions of HOL.

  \<^bold>\<open>The program.\<close> A write is a batch of updates. It is appended to the write-ahead log and inserted
  into the memtable, a skip list of encoded entries. A full memtable becomes a table file: sorted
  entries in prefix-compressed blocks, with a Bloom filter block and an index. The table files
  are organised in levels; a change of the set of files is a version edit, recorded in a second log,
  the manifest. A read looks into the memtable and then into the files from newest to oldest.

  \<^bold>\<open>Conventions.\<close> A \<open>Slice\<close>, a \<open>std::string\<close> or a readable range of memory is a list of bytes; integers
  whose width matters are words; \<open>size_t\<close> is \<open>nat\<close> except where a sum can wrap. A null pointer is
  \<open>None\<close>. In the operations that contain assertions or read through raw pointers, the result \<open>None\<close>
  is a failed assertion or a read outside the buffer, and the theorems show that it does not
  happen. An abstract class is a record of functions over the state of an object, and its documented
  contract is a locale, interpreted on the concrete classes that the program has.

  \<^bold>\<open>The theories.\<close>
  \<^item> \<open>Prelude\<close>: bytes, words, shared lemmas, the locale \<open>codec\<close>.
  \<^item> \<open>Coding\<close> (\<open>util/coding\<close>): fixed-width and variable-length integers; round trips, lengths, and
    reading within the input.
  \<^item> \<open>Crc32c\<close> (\<open>util/crc32c\<close>): the table-driven striped checksum equals the bit-serial CRC.
  \<^item> \<open>Comparator\<close> (\<open>slice.h\<close>, \<open>util/comparator.cc\<close>): locales \<open>key_order\<close> and \<open>comparator\<close>, interpreted by
    the bytewise comparator.
  \<^item> \<open>Bloom\<close> (\<open>util/hash.cc\<close>, \<open>util/bloom.cc\<close>): locale \<open>filter_policy\<close>, interpreted by the Bloom filter.
  \<^item> \<open>DbFormat\<close> (\<open>db/dbformat\<close>): internal keys; their comparator is a comparator again.
  \<^item> \<open>Env\<close>, \<open>MemEnv\<close> (\<open>status\<close>, \<open>env.h\<close>, \<open>helpers/memenv\<close>): statuses, the file interfaces and the
    in-memory environment that implements them; names, open files and reference counts agree
    after every call but two, whose defects are shown.
  \<^item> \<open>Logging\<close> (\<open>util/logging.cc\<close>), \<open>Rand\<close> (\<open>util/random.h\<close>), \<open>DbOptions\<close> (\<open>options\<close>): decimal numbers, the
    pseudo-random generator, options and their clipping.
  \<^item> \<open>Log\<close> (\<open>db/log_writer.cc\<close>, \<open>db/log_reader.cc\<close>): a log is read back as written, a torn one as its
    complete records, and reading ends.
  \<^item> \<open>SkipList\<close>, \<open>MemTable\<close>, \<open>WriteBatch\<close> (\<open>db/skiplist.h\<close>, \<open>db/memtable\<close>, \<open>db/write_batch.cc\<close>): the skip list
    refines a sorted list, also for a reader between two stores of an insertion; a lookup finds the
    newest visible entry; inserting a batch makes its updates visible.
  \<^item> \<open>Iter\<close>, \<open>Block\<close> (\<open>iterator\<close>, \<open>table/block_builder.cc\<close>, \<open>table/block.cc\<close>): the contract of iterators and
    the block iterator that fulfils it on every block the builder writes.
  \<^item> \<open>Format\<close>, \<open>FilterBlock\<close> (\<open>table/format.cc\<close>, \<open>table/filter_block.cc\<close>): handles, footers, reading a block
    with its trailer; filters have no false negatives.
  \<^item> \<open>VersionEdit\<close> (\<open>db/version_edit.cc\<close>): edits survive encoding and decoding.
  \<^item> \<open>FileRanges\<close> (\<open>FindFile\<close> to \<open>AddBoundaryInputs\<close> of \<open>db/version_set.cc\<close>): searches over the files of a level.
    The binary search agrees with a linear one, the set of overlapping files is closed, the search
    for boundary files ends, and the iterator over a level fulfils the iterator contract.
  \<^item> \<open>Compaction\<close> (\<open>PickCompaction\<close>, \<open>CompactRange\<close>, \<open>SetupOtherInputs\<close> and class \<open>Compaction\<close>): the inputs of a
    compaction are complete; \<open>IsBaseLevelForKey\<close> answers correctly for increasing keys.

  \<^bold>\<open>Loops and bounds.\<close> A loop whose end depends on a contract of its parameters is a
  \<open>partial_function\<close> with the result \<open>None\<close> when it does not end, and its end is part of what is
  proved. Every other loop is a total function. No fuel is used. Theorems about a binary search
  over files require fewer than \<open>2^31\<close> files, because its 32-bit sum of two indices wraps from there on;
  theorems about blocks require less than four gigabytes, because offsets are 32 bits wide.

  \<^bold>\<open>Not modelled.\<close> The operating-system environments, threads and mutexes, the C bindings, the tools,
  benchmarks and tests: they are input and output, or forward to the modelled parts. Of the
  database itself: the reads and the builder of versions and the manifest, the table files
  assembled from blocks, the merging, two-level and database iterators, the caches, the arena, and the
  operations of \<open>db_impl.cc\<close>, except the clipping of options. Scores of levels are
  floating-point numbers in the code; here the outcome of their comparison is an input of the
  choice of a compaction. The other projects next to \<open>src/leveldb\<close> are separate programs.
\<close>

end
